(* ===== verification/Prelude.thy ===== *)
theory Prelude
  imports Main "HOL-Library.Word"
begin

text \<open>
  Shared vocabulary of the development: the faults a run of the program can end in, the
  state-and-fault monad in which the imperative parts are written, and generic lemmas on
  options, lists and maps.

  A computation \<open>('s, 'a) M\<close> takes the state and gives either a fault or a result with the
  new state. \<open>Abort p\<close> is a failed \<open>tpf_assert(p)\<close> or \<open>tpf_assertf(p, ..)\<close> of src/util.hpp
  (the process prints the predicate and calls \<open>abort()\<close>), \<open>Thrown\<close> is an escaping
  \<open>std::runtime_error\<close>, the others are undefined behaviour of C++ that the model makes
  visible, and \<open>Diverges\<close> marks a loop that does not end.
\<close>

section \<open>Faults and the state monad\<close>

datatype fault =
    Abort string
  | Thrown string
  | NullDeref string
  | UseAfterFree string
  | OutOfBounds string
  | BadCast string
  | Diverges
  | OutOfFuel

type_synonym ('s, 'a) M = "'s \<Rightarrow> fault + 'a \<times> 's"

named_theorems monad_simps \<open>unfolding of the monad's operations\<close>

definition ret :: "'a \<Rightarrow> ('s, 'a) M" where
  "ret x = (\<lambda>s. Inr (x, s))"

definition bindM :: "('s, 'a) M \<Rightarrow> ('a \<Rightarrow> ('s, 'b) M) \<Rightarrow> ('s, 'b) M" where
  "bindM m k = (\<lambda>s. case m s of Inl e \<Rightarrow> Inl e | Inr (x, s') \<Rightarrow> k x s')"

definition thenM :: "('s, 'a) M \<Rightarrow> ('s, 'b) M \<Rightarrow> ('s, 'b) M" where
  "thenM m k = bindM m (\<lambda>_. k)"

definition failM :: "fault \<Rightarrow> ('s, 'a) M" where
  "failM e = (\<lambda>s. Inl e)"

definition getM :: "('s \<Rightarrow> 'a) \<Rightarrow> ('s, 'a) M" where
  "getM f = (\<lambda>s. Inr (f s, s))"

definition modM :: "('s \<Rightarrow> 's) \<Rightarrow> ('s, unit) M" where
  "modM f = (\<lambda>s. Inr ((), f s))"

text \<open>\<open>tpf_assert(pred)\<close> and \<open>tpf_assertf(pred, ..)\<close>: the label is the predicate's text.\<close>

definition tpf_assert :: "string \<Rightarrow> bool \<Rightarrow> ('s, unit) M" where
  "tpf_assert p b = (\<lambda>s. if b then Inr ((), s) else Inl (Abort p))"

text \<open>Dereferencing an optional pointer: a null pointer is undefined behaviour.\<close>

definition deref :: "string \<Rightarrow> 'a option \<Rightarrow> ('s, 'a) M" where
  "deref w p = (\<lambda>s. case p of None \<Rightarrow> Inl (NullDeref w) | Some x \<Rightarrow> Inr (x, s))"

definition whenM :: "bool \<Rightarrow> ('s, unit) M \<Rightarrow> ('s, unit) M" where
  "whenM b m = (if b then m else ret ())"

text \<open>Running a computation for each element of a list, in order.\<close>

fun mapM :: "('a \<Rightarrow> ('s, unit) M) \<Rightarrow> 'a list \<Rightarrow> ('s, unit) M" where
  "mapM f [] = ret ()"
| "mapM f (x # xs) = thenM (f x) (mapM f xs)"

lemma ret_run [simp]: "ret x s = Inr (x, s)"
  by (simp add: ret_def)

lemma failM_run [simp]: "failM e s = Inl e"
  by (simp add: failM_def)

lemma getM_run [simp]: "getM f s = Inr (f s, s)"
  by (simp add: getM_def)

lemma modM_run [simp]: "modM f s = Inr ((), f s)"
  by (simp add: modM_def)

lemma tpf_assert_run [simp]: "tpf_assert p b s = (if b then Inr ((), s) else Inl (Abort p))"
  by (simp add: tpf_assert_def)

lemma deref_None [simp]: "deref w None s = Inl (NullDeref w)"
  by (simp add: deref_def)

lemma deref_Some [simp]: "deref w (Some x) s = Inr (x, s)"
  by (simp add: deref_def)

lemma bindM_Inr [simp]: "m s = Inr (x, s') \<Longrightarrow> bindM m k s = k x s'"
  by (simp add: bindM_def)

lemma bindM_Inl [simp]: "m s = Inl e \<Longrightarrow> bindM m k s = Inl e"
  by (simp add: bindM_def)

lemma thenM_Inr [simp]: "m s = Inr (x, s') \<Longrightarrow> thenM m k s = k s'"
  by (simp add: thenM_def)

lemma thenM_Inl [simp]: "m s = Inl e \<Longrightarrow> thenM m k s = Inl e"
  by (simp add: thenM_def)

lemma whenM_True [simp]: "whenM True m = m"
  by (simp add: whenM_def)

lemma whenM_False [simp]: "whenM False m = ret ()"
  by (simp add: whenM_def)

lemma bindM_eq_Inr:
  "bindM m k s = Inr r \<longleftrightarrow> (\<exists>x s'. m s = Inr (x, s') \<and> k x s' = Inr r)"
  by (auto simp: bindM_def split: sum.splits prod.splits)

lemma thenM_eq_Inr:
  "thenM m k s = Inr r \<longleftrightarrow> (\<exists>x s'. m s = Inr (x, s') \<and> k s' = Inr r)"
  by (auto simp: thenM_def bindM_eq_Inr)

lemma tpf_assert_eq_Inr: "tpf_assert p b s = Inr r \<longleftrightarrow> b \<and> r = ((), s)"
  by auto

lemma deref_eq_Inr: "deref w p s = Inr r \<longleftrightarrow> (\<exists>x. p = Some x \<and> r = (x, s))"
  by (cases p) auto

text \<open>Monad laws, so that composed operations can be regrouped.\<close>

lemma bindM_ret [simp]: "bindM (ret x) k = k x"
  by (rule ext) simp

lemma bindM_assoc: "bindM (bindM m f) g = bindM m (\<lambda>x. bindM (f x) g)"
  by (rule ext) (simp add: bindM_def split: sum.splits prod.splits)

lemma bindM_ret_right [simp]: "bindM m ret = m"
  by (rule ext) (simp add: bindM_def split: sum.splits prod.splits)

lemma mapM_append: "mapM f (xs @ ys) = thenM (mapM f xs) (mapM f ys)"
  by (induction xs) (simp_all add: thenM_def bindM_assoc)

text \<open>
  Framing: \<open>preserves f m\<close> says that \<open>m\<close>, when it does not fault, leaves the part \<open>f\<close> of the state
  as it was. The rules decompose a computation by its structure.
\<close>

named_theorems preserve_intros \<open>introduction rules for preserves\<close>

definition preserves :: "('s \<Rightarrow> 'b) \<Rightarrow> ('s, 'a) M \<Rightarrow> bool" where
  "preserves f m \<longleftrightarrow> (\<forall>s x s'. m s = Inr (x, s') \<longrightarrow> f s' = f s)"

lemma preservesD: "preserves f m \<Longrightarrow> m s = Inr (x, s') \<Longrightarrow> f s' = f s"
  by (auto simp: preserves_def)

lemma preserves_pure [preserve_intros]:
  "preserves f (ret x)" "preserves f (failM e)" "preserves f (getM g)"
  "preserves f (tpf_assert p b)" "preserves f (deref w q)"
  by (auto simp: preserves_def deref_eq_Inr split: if_splits)

lemma preserves_bindM [preserve_intros]:
  "preserves f m \<Longrightarrow> (\<And>x. preserves f (k x)) \<Longrightarrow> preserves f (bindM m k)"
  unfolding preserves_def by (fastforce simp: bindM_eq_Inr)

lemma preserves_thenM [preserve_intros]:
  "preserves f m \<Longrightarrow> preserves f k \<Longrightarrow> preserves f (thenM m k)"
  unfolding thenM_def by (rule preserves_bindM)

lemma preserves_modM [preserve_intros]: "(\<And>s. f (g s) = f s) \<Longrightarrow> preserves f (modM g)"
  by (simp add: preserves_def)

lemma preserves_if [preserve_intros]:
  "(b \<Longrightarrow> preserves f m) \<Longrightarrow> (\<not> b \<Longrightarrow> preserves f k) \<Longrightarrow> preserves f (if b then m else k)"
  by simp

lemma preserves_whenM [preserve_intros]: "(b \<Longrightarrow> preserves f m) \<Longrightarrow> preserves f (whenM b m)"
  by (simp add: whenM_def preserve_intros)

lemma preserves_cases [preserve_intros]:
  "(\<And>e. r = Inl e \<Longrightarrow> preserves f (m e)) \<Longrightarrow> (\<And>x. r = Inr x \<Longrightarrow> preserves f (k x))
   \<Longrightarrow> preserves f (case r of Inl e \<Rightarrow> m e | Inr x \<Rightarrow> k x)"
  "(o' = None \<Longrightarrow> preserves f m0) \<Longrightarrow> (\<And>x. o' = Some x \<Longrightarrow> preserves f (k0 x))
   \<Longrightarrow> preserves f (case o' of None \<Rightarrow> m0 | Some x \<Rightarrow> k0 x)"
  "(\<And>a b. p = (a, b) \<Longrightarrow> preserves f (g a b)) \<Longrightarrow> preserves f (case p of (a, b) \<Rightarrow> g a b)"
  by (simp_all split: sum.splits option.splits prod.splits)

lemma preserves_let [preserve_intros]: "preserves f (g x) \<Longrightarrow> preserves f (let y = x in g y)"
  by simp

lemma preserves_mapM [preserve_intros]:
  "(\<And>x. x \<in> set xs \<Longrightarrow> preserves f (g x)) \<Longrightarrow> preserves f (mapM g xs)"
  by (induction xs) (auto intro: preserve_intros)

lemmas run_splits = sum.splits prod.splits option.splits if_splits

section \<open>Addresses and machine types\<close>

text \<open>Addresses of objects: only their identity matters.\<close>

datatype addr = Addr nat

type_synonym u8 = "8 word"
type_synonym u16 = "16 word"
type_synonym u32 = "32 word"

text \<open>\<open>SIZE_MAX\<close> of a 64-bit \<open>size_t\<close>.\<close>

definition SIZE_MAX :: nat where
  "SIZE_MAX = 2 ^ 64 - 1"

section \<open>Generic lemmas\<close>

lemma takeWhile_all: "(\<And>x. x \<in> set xs \<Longrightarrow> P x) \<Longrightarrow> takeWhile P xs = xs"
  by (induction xs) auto

lemma dropWhile_all: "(\<And>x. x \<in> set xs \<Longrightarrow> P x) \<Longrightarrow> dropWhile P xs = []"
  by (induction xs) auto

section \<open>Decimal numerals\<close>

text \<open>\<open>std::to_string\<close> of an unsigned number, and reading digits back.\<close>

definition is_digit :: "char \<Rightarrow> bool" where
  "is_digit c \<longleftrightarrow> 48 \<le> (of_char c :: nat) \<and> (of_char c :: nat) \<le> 57"

definition digit_val :: "char \<Rightarrow> nat" where
  "digit_val c = of_char c - 48"

definition dec_val :: "string \<Rightarrow> nat" where
  "dec_val ds = foldl (\<lambda>n c. 10 * n + digit_val c) 0 ds"

fun to_string :: "nat \<Rightarrow> string" where
  "to_string n =
     (if n < 10 then [char_of (48 + n)] else to_string (n div 10) @ [char_of (48 + n mod 10)])"

declare to_string.simps [simp del]

lemma is_digit_char_of: "n < 10 \<Longrightarrow> is_digit (char_of (48 + n :: nat))"
  by (simp add: is_digit_def)

lemma digit_val_char_of: "n < 10 \<Longrightarrow> digit_val (char_of (48 + n :: nat)) = n"
  by (simp add: digit_val_def)

lemma to_string_nonempty [simp]: "to_string n \<noteq> []"
  by (subst to_string.simps) simp

lemma to_string_digits: "c \<in> set (to_string n) \<Longrightarrow> is_digit c"
proof (induction n rule: to_string.induct)
  case (1 n)
  then show ?case
    by (subst (asm) (2) to_string.simps) (auto simp: is_digit_char_of split: if_splits)
qed

lemma dec_val_snoc: "dec_val (ds @ [c]) = 10 * dec_val ds + digit_val c"
  by (simp add: dec_val_def)

lemma dec_val_to_string: "dec_val (to_string n) = n"
proof (induction n rule: to_string.induct)
  case (1 n)
  show ?case
  proof (cases "n < 10")
    case True
    then show ?thesis
      by (subst to_string.simps) (simp add: dec_val_def digit_val_char_of)
  next
    case False
    with 1 show ?thesis
      by (subst to_string.simps) (simp add: dec_val_snoc digit_val_char_of)
  qed
qed

end
