(* ===== verification/Options.thy ===== *)
theory Options
  imports Prelude
begin

text \<open>
  The command line: src/options.hpp and src/options.cpp. \<open>argv\<close> is a list of strings and
  \<open>argc\<close> its length; the index \<open>*i\<close> and the \<open>std::optional\<close> outputs that the C++ passes by
  pointer are threaded as results. A \<open>message_error\<close> is its message.
\<close>

section \<open>Option records (src/options.hpp)\<close>

type_synonym message_error = string

record FifoModeOptions =
  in_fifo_path :: string
  out_fifo_path :: string

record SocketModeOptions =
  listen_port :: u16

record ClientSocketModeOptions =
  hostname :: string
  portno :: u16

record Options =
  fifo_mode :: "FifoModeOptions option"
  socket_mode :: "SocketModeOptions option"
  client_socket_mode :: "ClientSocketModeOptions option"
  show_help :: bool

section \<open>\<open>std::from_chars\<close> for \<open>uint16_t\<close>, base 10\<close>

datatype from_chars_result =
    InvalidArgument
  | ResultOutOfRange
  | Parsed u16 string  \<comment> \<open>the value and the characters from \<open>ptr\<close> on\<close>

definition from_chars_u16 :: "string \<Rightarrow> from_chars_result" where
  "from_chars_u16 s =
     (let ds = takeWhile is_digit s in
      if ds = [] then InvalidArgument
      else if 2 ^ 16 \<le> dec_val ds then ResultOutOfRange
      else Parsed (of_nat (dec_val ds)) (dropWhile is_digit s))"

section \<open>Recognising one option (src/options.cpp)\<close>

definition try_string_option ::
  "string list \<Rightarrow> nat \<Rightarrow> string \<Rightarrow> string option \<Rightarrow> message_error + bool \<times> nat \<times> string option" where
  "try_string_option argv i name out =
     (if argv ! i \<noteq> name then Inr (False, i, out)
      else let i1 = i + 1 in
        if i1 = length argv then Inl (name @ '' missing argument'')
        else let param = argv ! i1; i2 = i1 + 1 in
          if out \<noteq> None then Inl (name @ '' already defined'')
          else Inr (True, i2, Some param))"

definition try_predicated_int_option ::
  "string list \<Rightarrow> nat \<Rightarrow> string \<Rightarrow> u16 option \<Rightarrow> string \<Rightarrow> (u16 \<Rightarrow> bool) \<Rightarrow>
     message_error + bool \<times> nat \<times> u16 option" where
  "try_predicated_int_option argv i name out range_message predicate =
     (if argv ! i \<noteq> name then Inr (False, i, out)
      else let i1 = i + 1 in
        if i1 = length argv then Inl (name @ '' missing argument'')
        else let param = argv ! i1; i2 = i1 + 1;
                 range_error = Inl (name @ '' is out of range: '' @ range_message);
                 not_valid_integer = Inl (name @ '' is not a valid integer'') in
          if out \<noteq> None then Inl (name @ '' already defined'')
          else (case from_chars_u16 param of
              Parsed parse_result rest \<Rightarrow>
                if rest \<noteq> [] then not_valid_integer
                else if predicate parse_result then Inr (True, i2, Some parse_result)
                else range_error
            | ResultOutOfRange \<Rightarrow> range_error
            | InvalidArgument \<Rightarrow> not_valid_integer))"

definition port_in_range :: "u16 \<Rightarrow> bool" where
  "port_in_range val \<longleftrightarrow> val = 7 \<or> 1024 \<le> val"

section \<open>The parse loop\<close>

record parse_state =
  ps_in_fifo :: "string option"
  ps_out_fifo :: "string option"
  ps_host :: "string option"
  ps_port :: "u16 option"
  ps_help :: bool

definition parse_init :: parse_state where
  "parse_init = \<lparr>ps_in_fifo = None, ps_out_fifo = None, ps_host = None, ps_port = None,
     ps_help = False\<rparr>"

text \<open>One iteration of the \<open>while (i < argc)\<close> loop, with its \<open>continue\<close>s.\<close>

definition parse_step ::
  "string list \<Rightarrow> nat \<Rightarrow> parse_state \<Rightarrow> message_error + nat \<times> parse_state" where
  "parse_step argv i st =
     (case try_string_option argv i ''--in-fifo'' (ps_in_fifo st) of
        Inl e \<Rightarrow> Inl e
      | Inr (True, i', v) \<Rightarrow> Inr (i', st\<lparr>ps_in_fifo := v\<rparr>)
      | Inr (False, _, _) \<Rightarrow>
     (case try_string_option argv i ''--out-fifo'' (ps_out_fifo st) of
        Inl e \<Rightarrow> Inl e
      | Inr (True, i', v) \<Rightarrow> Inr (i', st\<lparr>ps_out_fifo := v\<rparr>)
      | Inr (False, _, _) \<Rightarrow>
     (case try_predicated_int_option argv i ''--port'' (ps_port st)
             ''expecting value 7 or value in range 1024..65535'' port_in_range of
        Inl e \<Rightarrow> Inl e
      | Inr (True, i', v) \<Rightarrow> Inr (i', st\<lparr>ps_port := v\<rparr>)
      | Inr (False, _, _) \<Rightarrow>
     (case try_string_option argv i ''--host'' (ps_host st) of
        Inl e \<Rightarrow> Inl e
      | Inr (True, i', v) \<Rightarrow> Inr (i', st\<lparr>ps_host := v\<rparr>)
      | Inr (False, _, _) \<Rightarrow>
        if argv ! i \<noteq> ''--help'' then Inr (i + 1, st\<lparr>ps_help := True\<rparr>)
        else Inl (''Unrecognized argument: '' @ argv ! i)))))"

lemma parse_step_progress: "parse_step argv i st = Inr (i', st') \<Longrightarrow> i < i'"
  by (auto simp: parse_step_def try_string_option_def try_predicated_int_option_def Let_def
      split: run_splits from_chars_result.splits bool.splits)

function parse_loop :: "string list \<Rightarrow> nat \<Rightarrow> parse_state \<Rightarrow> message_error + parse_state" where
  "parse_loop argv i st =
     (if i < length argv then
        (case parse_step argv i st of
           Inl e \<Rightarrow> Inl e
         | Inr (i', st') \<Rightarrow> parse_loop argv i' st')
      else Inr st)"
  by pat_completeness auto
termination
  by (relation "measure (\<lambda>(argv, i, st). length argv - i)")
    (auto dest: parse_step_progress)

declare parse_loop.simps [simp del]

text \<open>The validation and canonicalization pass.\<close>

definition validate :: "parse_state \<Rightarrow> message_error + Options" where
  "validate st =
     (if \<not> ps_help st then
        (case ps_port st of
           Some port \<Rightarrow>
             if ps_in_fifo st \<noteq> None \<or> ps_out_fifo st \<noteq> None
             then Inl ''--port is incompatible with --in-fifo or --out-fifo''
             else (case ps_host st of
                 Some h \<Rightarrow> Inr \<lparr>fifo_mode = None, socket_mode = None,
                   client_socket_mode = Some \<lparr>hostname = h, portno = port\<rparr>, show_help = False\<rparr>
               | None \<Rightarrow> Inr \<lparr>fifo_mode = None, socket_mode = Some \<lparr>listen_port = port\<rparr>,
                   client_socket_mode = None, show_help = False\<rparr>)
         | None \<Rightarrow>
             (case ps_in_fifo st of
                None \<Rightarrow> Inl ''--in-fifo not specified''
              | Some p_in \<Rightarrow>
                (case ps_out_fifo st of
                   None \<Rightarrow> Inl ''--out-fifo not specified''
                 | Some p_out \<Rightarrow> Inr \<lparr>fifo_mode =
                     Some \<lparr>in_fifo_path = p_in, out_fifo_path = p_out\<rparr>, socket_mode = None,
                     client_socket_mode = None, show_help = False\<rparr>)))
      else Inr \<lparr>fifo_mode = None, socket_mode = None, client_socket_mode = None, show_help = True\<rparr>)"

definition parse_command_line :: "string list \<Rightarrow> message_error + Options" where
  "parse_command_line argv =
     (case parse_loop argv 1 parse_init of Inl e \<Rightarrow> Inl e | Inr st \<Rightarrow> validate st)"

section \<open>Lemmas\<close>

named_theorems option_simps \<open>unfolding of the option recognisers\<close>

lemmas option_defs = try_string_option_def try_predicated_int_option_def Let_def

lemma from_chars_to_string:
  assumes "n < 2 ^ 16"
  shows "from_chars_u16 (to_string n) = Parsed (of_nat n) []"
proof -
  have split: "takeWhile is_digit (to_string n) = to_string n"
      "dropWhile is_digit (to_string n) = []"
    by (auto intro: takeWhile_all dropWhile_all to_string_digits)
  show ?thesis
    unfolding from_chars_u16_def Let_def split using assms by (simp add: dec_val_to_string)
qed

lemma from_chars_word: "from_chars_u16 (to_string (unat p)) = Parsed p []"
  using from_chars_to_string [of "unat p"] unsigned_less [of p] by simp

text \<open>
  An abstract view of a command line: a list of typed settings, each rendered as the two
  words the user types and applied to the parse state.
\<close>

datatype setting = InFifo string | OutFifo string | Host string | Port u16

fun render :: "setting \<Rightarrow> string list" where
  "render (InFifo p) = [''--in-fifo'', p]"
| "render (OutFifo p) = [''--out-fifo'', p]"
| "render (Host h) = [''--host'', h]"
| "render (Port p) = [''--port'', to_string (unat p)]"

fun apply_setting :: "parse_state \<Rightarrow> setting \<Rightarrow> parse_state" where
  "apply_setting st (InFifo p) = st\<lparr>ps_in_fifo := Some p\<rparr>"
| "apply_setting st (OutFifo p) = st\<lparr>ps_out_fifo := Some p\<rparr>"
| "apply_setting st (Host h) = st\<lparr>ps_host := Some h\<rparr>"
| "apply_setting st (Port p) = st\<lparr>ps_port := Some p\<rparr>"

fun accepts :: "parse_state \<Rightarrow> setting \<Rightarrow> bool" where
  "accepts st (InFifo p) \<longleftrightarrow> ps_in_fifo st = None"
| "accepts st (OutFifo p) \<longleftrightarrow> ps_out_fifo st = None"
| "accepts st (Host h) \<longleftrightarrow> ps_host st = None"
| "accepts st (Port p) \<longleftrightarrow> ps_port st = None \<and> port_in_range p"

fun option_name :: "setting \<Rightarrow> string" where
  "option_name (InFifo p) = ''--in-fifo''"
| "option_name (OutFifo p) = ''--out-fifo''"
| "option_name (Host h) = ''--host''"
| "option_name (Port p) = ''--port''"

fun same_option :: "setting \<Rightarrow> setting \<Rightarrow> bool" where
  "same_option a b \<longleftrightarrow> option_name a = option_name b"

fun all_accepted :: "parse_state \<Rightarrow> setting list \<Rightarrow> bool" where
  "all_accepted st [] \<longleftrightarrow> True"
| "all_accepted st (x # xs) \<longleftrightarrow> accepts st x \<and> all_accepted (apply_setting st x) xs"

lemma render_length: "length (render x) = 2"
  by (cases x) simp_all

lemma parse_step_render:
  assumes "accepts st x"
  shows "parse_step (pre @ render x @ post) (length pre) st
    = Inr (length pre + 2, apply_setting st x)"
  using assms
  by (cases x) (simp_all add: parse_step_def option_defs nth_append from_chars_word)

lemma parse_loop_end: "parse_loop argv (length argv) st = Inr st"
  by (subst parse_loop.simps) simp

lemma parse_loop_settings:
  "all_accepted st xs \<Longrightarrow>
   parse_loop (pre @ concat (map render xs) @ post) (length pre) st
   = parse_loop (pre @ concat (map render xs) @ post) (length (pre @ concat (map render xs)))
       (foldl apply_setting st xs)"
proof (induction xs arbitrary: pre st)
  case Nil
  show ?case by simp
next
  case (Cons x xs)
  from Cons.prems have x: "accepts st x" and xs: "all_accepted (apply_setting st x) xs"
    by simp_all
  have "parse_loop (pre @ concat (map render (x # xs)) @ post) (length pre) st
      = parse_loop ((pre @ render x) @ concat (map render xs) @ post) (length (pre @ render x))
          (apply_setting st x)"
    using parse_step_render [OF x, of pre "concat (map render xs) @ post"]
    by (subst parse_loop.simps) (simp add: render_length)
  then show ?case using Cons.IH [OF xs, of "pre @ render x"] by simp
qed

lemma parse_loop_rendered:
  "all_accepted st xs \<Longrightarrow>
   parse_loop (pre @ concat (map render xs)) (length pre) st = Inr (foldl apply_setting st xs)"
  using parse_loop_settings [of st xs pre "[]"]
    parse_loop_end [of "pre @ concat (map render xs)"] by simp

lemma parse_step_duplicate:
  assumes "\<not> accepts st x" and "\<And>p. x = Port p \<Longrightarrow> ps_port st \<noteq> None"
  shows "parse_step (pre @ render x @ post) (length pre) st
    = Inl (option_name x @ '' already defined'')"
  using assms
  by (cases x) (auto simp: parse_step_def option_defs nth_append)

lemma parse_loop_error:
  assumes "parse_step argv i st = Inl e" and "i < length argv"
  shows "parse_loop argv i st = Inl e"
  using assms by (subst parse_loop.simps) simp

lemma parse_command_line_prefix:
  assumes "all_accepted parse_init xs"
  shows "parse_loop (prog # concat (map render xs) @ post) 1 parse_init
    = parse_loop ((prog # concat (map render xs)) @ post) (length (prog # concat (map render xs)))
        (foldl apply_setting parse_init xs)"
  using parse_loop_settings [OF assms, of "[prog]" post] by simp

fun is_defined :: "parse_state \<Rightarrow> setting \<Rightarrow> bool" where
  "is_defined st (InFifo p) \<longleftrightarrow> ps_in_fifo st \<noteq> None"
| "is_defined st (OutFifo p) \<longleftrightarrow> ps_out_fifo st \<noteq> None"
| "is_defined st (Host h) \<longleftrightarrow> ps_host st \<noteq> None"
| "is_defined st (Port p) \<longleftrightarrow> ps_port st \<noteq> None"

lemma is_defined_apply [simp]: "is_defined (apply_setting st y) x
    \<longleftrightarrow> same_option x y \<or> is_defined st x"
  by (cases x; cases y) simp_all

lemma is_defined_foldl: "is_defined st x \<Longrightarrow> is_defined (foldl apply_setting st xs) x"
  by (induction xs arbitrary: st) (simp_all del: same_option.simps)

lemma setting_defined:
  "x' \<in> set xs \<Longrightarrow> same_option x x' \<Longrightarrow> is_defined (foldl apply_setting st xs) x"
  by (induction xs arbitrary: st) (auto simp: is_defined_foldl simp del: same_option.simps)

lemma is_defined_rejected:
  "is_defined st x \<Longrightarrow> \<not> accepts st x" "is_defined st (Port p) \<Longrightarrow> ps_port st \<noteq> None"
  by (cases x) simp_all

text \<open>What every accepted parse state satisfies: the port, if any, is in range.\<close>

definition port_ok :: "parse_state \<Rightarrow> bool" where
  "port_ok st \<longleftrightarrow> (\<forall>p. ps_port st = Some p \<longrightarrow> port_in_range p)"

lemma try_predicated_int_option_value:
  "try_predicated_int_option argv i name out msg P = Inr (True, i', v) \<Longrightarrow>
   \<exists>p. v = Some p \<and> P p"
  by (auto simp: option_defs split: run_splits from_chars_result.splits)

lemma parse_step_port_ok:
  "parse_step argv i st = Inr (i', st') \<Longrightarrow> port_ok st \<Longrightarrow> port_ok st'"
  by (auto simp: parse_step_def port_ok_def dest!: try_predicated_int_option_value
      split: run_splits bool.splits)

lemma parse_loop_port_ok: "parse_loop argv i st = Inr st' \<Longrightarrow> port_ok st \<Longrightarrow> port_ok st'"
proof (induction argv i st rule: parse_loop.induct)
  case (1 argv i st)
  then show ?case
    using parse_loop.simps [of argv i st] by (auto split: run_splits dest: parse_step_port_ok)
qed

text \<open>Only the words from the current one on matter to the rest of the parse.\<close>

lemma parse_step_suffix:
  assumes "length a = length b" and "length a \<le> i"
  shows "parse_step (a @ post) i st = parse_step (b @ post) i st"
proof -
  have nth: "(a @ post) ! i = (b @ post) ! i" using assms by (simp add: nth_append)
  have opts: "try_string_option (a @ post) i name out = try_string_option (b @ post) i name out"
    "try_predicated_int_option (a @ post) i name out' msg P = try_predicated_int_option (b @ post) i name out' msg P"
    for name out out' msg P
    using assms by (simp_all add: option_defs nth_append)
  show ?thesis unfolding parse_step_def opts nth by (rule refl)
qed

lemma parse_loop_suffix:
  assumes ab: "length a = length b"
  shows "length a \<le> i \<Longrightarrow> parse_loop (a @ post) i st = parse_loop (b @ post) i st"
proof (induction "a @ post" i st rule: parse_loop.induct)
  case (1 i st)
  show ?case
  proof (cases "i < length (a @ post)")
    case True
    have st: "parse_step (b @ post) i st = parse_step (a @ post) i st"
      using parse_step_suffix [OF ab 1(2)] by simp
    show ?thesis
    proof (cases "parse_step (a @ post) i st")
      case (Inl e)
      then show ?thesis using True ab st by (simp add: parse_loop.simps)
    next
      case (Inr p)
      then obtain i' st' where p: "parse_step (a @ post) i st = Inr (i', st')" by (cases p) auto
      with parse_step_progress 1(2) have "length a \<le> i'" by fastforce
      from 1(1) [OF True p refl this] show ?thesis
        using True ab st p by (subst (1 2) parse_loop.simps) simp
    qed
  next
    case False
    then show ?thesis using ab by (subst (1 2) parse_loop.simps) simp
  qed
qed

lemma no_port_given: "\<forall>p. Port p \<notin> set xs \<Longrightarrow> ps_port (foldl apply_setting st xs) = ps_port st"
proof (induction xs arbitrary: st)
  case (Cons x xs)
  then show ?case by (cases x) auto
qed simp

lemma digits_split:
  "takeWhile is_digit w = w \<longleftrightarrow> (\<forall>c\<in>set w. is_digit c)" "dropWhile is_digit w = [] \<longleftrightarrow> (\<forall>c\<in>set w. is_digit c)"
  by (simp_all add: takeWhile_eq_all_conv)

text \<open>What the word after \<open>--port\<close> does, the value of its leading digits being \<open>d\<close>.\<close>

lemma parse_step_port:
  assumes "ps_port st = None"
  shows "parse_step (pre @ ''--port'' # w # post) (length pre) st =
    (case from_chars_u16 w of
       Parsed p rest \<Rightarrow> if rest \<noteq> [] then Inl ''--port is not a valid integer''
         else if port_in_range p then Inr (length pre + 2, st\<lparr>ps_port := Some p\<rparr>)
         else Inl ''--port is out of range: expecting value 7 or value in range 1024..65535''
     | ResultOutOfRange \<Rightarrow> Inl ''--port is out of range: expecting value 7 or value in range 1024..65535''
     | InvalidArgument \<Rightarrow> Inl ''--port is not a valid integer'')"
  using assms by (simp add: parse_step_def option_defs nth_append split: from_chars_result.split)

text \<open>The three modes as a predicate: exactly one is chosen, with a usable port.\<close>

definition one_mode :: "Options \<Rightarrow> bool" where
  "one_mode opts \<longleftrightarrow>
     (\<exists>f. fifo_mode opts = Some f \<and> socket_mode opts = None \<and> client_socket_mode opts = None)
   \<or> (\<exists>m. fifo_mode opts = None \<and> socket_mode opts = Some m \<and> client_socket_mode opts = None
        \<and> port_in_range (listen_port m))
   \<or> (\<exists>c. fifo_mode opts = None \<and> socket_mode opts = None \<and> client_socket_mode opts = Some c
        \<and> port_in_range (portno c))"

lemma validate_one_mode:
  "validate st = Inr opts \<Longrightarrow> port_ok st \<Longrightarrow> one_mode opts \<or> show_help opts"
  by (auto simp: validate_def one_mode_def port_ok_def split: run_splits)

section \<open>Properties\<close>

text \<open>
  C10. Round trip of the command line: any sequence of settings, in any order, in which no option
  occurs twice and every port is in range (a port as its decimal digits), is read back as exactly
  those settings and then validated.
\<close>

theorem parse_command_line_rendered:
  assumes "all_accepted parse_init xs"
  shows "parse_command_line (prog # concat (map render xs))
    = validate (foldl apply_setting parse_init xs)"
  using parse_loop_rendered [OF assms, of "[prog]"] by (simp add: parse_command_line_def)

theorem parse_command_line_rendered_witness:
  "parse_command_line [''tpf'', ''--host'', ''h'', ''--port'', to_string (unat (8080 :: u16))]
    = Inr \<lparr>fifo_mode = None, socket_mode = None,
        client_socket_mode = Some \<lparr>hostname = ''h'', portno = 8080\<rparr>, show_help = False\<rparr>"
proof -
  have "all_accepted parse_init [Host ''h'', Port 8080]"
    by (simp add: parse_init_def port_in_range_def)
  from parse_command_line_rendered [OF this, of "''tpf''"] show ?thesis
    by (simp add: parse_init_def validate_def)
qed

text \<open>
  C11. Whatever the words on the command line, a successful parse that does not ask for help
  chooses exactly one of the three modes, and its port (if it has one) is 7 or at least 1024.
  The last \<open>else\<close> of \<open>go\<close> relies on it: its assertion that the client mode is set holds.
\<close>

theorem parse_command_line_one_mode:
  assumes "parse_command_line argv = Inr opts" and "\<not> show_help opts"
  shows "one_mode opts"
  using assms parse_loop_port_ok [of argv 1 parse_init] validate_one_mode
  by (auto simp: parse_command_line_def port_ok_def parse_init_def split: sum.splits)

theorem parse_command_line_one_mode_witness:
  "one_mode \<lparr>fifo_mode = Some \<lparr>in_fifo_path = ''a'', out_fifo_path = ''b''\<rparr>,
     socket_mode = None, client_socket_mode = None, show_help = False\<rparr>"
proof (rule parse_command_line_one_mode)
  show "parse_command_line [''tpf'', ''--in-fifo'', ''a'', ''--out-fifo'', ''b'']
    = Inr \<lparr>fifo_mode = Some \<lparr>in_fifo_path = ''a'', out_fifo_path = ''b''\<rparr>,
        socket_mode = None, client_socket_mode = None, show_help = False\<rparr>"
    using parse_loop_rendered [of parse_init "[InFifo ''a'', OutFifo ''b'']" "[''tpf'']"]
    by (simp add: parse_command_line_def parse_init_def validate_def)
qed simp



text \<open>
  C13. The test for \<open>--help\<close> is inverted: after any accepted settings, a word that is none of the
  four options is taken as the request for help, with every setting dropped, and the word
  \<open>--help\<close> itself is refused as unrecognized.
\<close>

theorem parse_command_line_help_inverted:
  assumes "all_accepted parse_init xs"
    and "w \<notin> {''--in-fifo'', ''--out-fifo'', ''--port'', ''--host''}"
  shows "parse_command_line (prog # concat (map render xs) @ [w])
    = (if w = ''--help'' then Inl ''Unrecognized argument: --help''
       else Inr \<lparr>fifo_mode = None, socket_mode = None, client_socket_mode = None,
         show_help = True\<rparr>)"
proof -
  let ?argv = "(prog # concat (map render xs)) @ [w]"
  let ?st = "foldl apply_setting parse_init xs"
  let ?i = "length (prog # concat (map render xs))"
  have step: "parse_step ?argv ?i ?st
      = (if w = ''--help'' then Inl ''Unrecognized argument: --help''
         else Inr (length ?argv, ?st\<lparr>ps_help := True\<rparr>))"
    using assms(2) by (auto simp: parse_step_def option_defs nth_append)
  then have "parse_loop ?argv ?i ?st
      = (if w = ''--help'' then Inl ''Unrecognized argument: --help'' else Inr (?st\<lparr>ps_help := True\<rparr>))"
    using parse_loop_end [of ?argv] by (subst parse_loop.simps) simp
  then show ?thesis
    using parse_command_line_prefix [OF assms(1), of prog "[w]"]
    by (simp add: parse_command_line_def validate_def)
qed

theorem parse_command_line_help_inverted_witness:
  "parse_command_line [''tpf'', ''--help''] = Inl ''Unrecognized argument: --help''
   \<and> parse_command_line [''tpf'', ''bogus''] = Inr \<lparr>fifo_mode = None, socket_mode = None,
        client_socket_mode = None, show_help = True\<rparr>"
  using parse_command_line_help_inverted [of "[]" "''--help''" "''tpf''"]
    parse_command_line_help_inverted [of "[]" "''bogus''" "''tpf''"]
  by simp

text \<open>
  C0. The bounds of a port: after any accepted settings without a port, the word after \<open>--port\<close> is
  accepted exactly if it consists of digits only, at least one, and its value is 7 or in
  1024..65535; the port then has this value, whatever its length and leading zeros, so the
  16-bit conversion never wraps around. Otherwise the parse ends with one of two messages: a value over
  65535 counts as out of range even if something that is no digit follows it.
\<close>

theorem port_bounds:
  assumes "all_accepted parse_init xs" and "\<forall>p. Port p \<notin> set xs"
  shows "\<exists>p. (dec_val w \<le> 65535 \<longrightarrow> unat p = dec_val w) \<and>
    parse_command_line (prog # concat (map render xs) @ ''--port'' # w # post) =
      (if takeWhile is_digit w = [] then Inl ''--port is not a valid integer''
       else if 65535 < dec_val (takeWhile is_digit w)
         then Inl ''--port is out of range: expecting value 7 or value in range 1024..65535''
       else if \<exists>c\<in>set w. \<not> is_digit c then Inl ''--port is not a valid integer''
       else if dec_val w \<noteq> 7 \<and> dec_val w < 1024
         then Inl ''--port is out of range: expecting value 7 or value in range 1024..65535''
       else parse_command_line (prog # concat (map render xs) @ render (Port p) @ post))"
proof -
  let ?pre = "prog # concat (map render xs)"
  let ?st = "foldl apply_setting parse_init xs"
  let ?argv = "?pre @ ''--port'' # w # post"
  define p :: u16 where "p = of_nat (dec_val w)"
  have run: "parse_command_line (prog # concat (map render xs) @ r)
      = (case parse_loop (?pre @ r) (length ?pre) ?st of Inl e \<Rightarrow> Inl e | Inr st \<Rightarrow> validate st)" for r
    using parse_command_line_prefix [OF assms(1), of prog r] by (simp add: parse_command_line_def)
  have none: "ps_port ?st = None" using no_port_given [OF assms(2), of parse_init] by (simp add: parse_init_def)
  have val: "unat p = dec_val w" if "dec_val w \<le> 65535"
    using that unfolding p_def by (simp add: unat_of_nat take_bit_nat_eq_self_iff)
  have same: "parse_loop ?argv (length ?pre + 2) st = parse_loop (?pre @ render (Port p) @ post) (length ?pre + 2) st" for st
    using parse_loop_suffix [of "?pre @ [''--port'', w]" "?pre @ render (Port p)" "length ?pre + 2" post st] by simp
  have step: "parse_loop ?argv (length ?pre) ?st = (case parse_step ?argv (length ?pre) ?st of
      Inl e \<Rightarrow> Inl e | Inr (i', st') \<Rightarrow> parse_loop ?argv i' st')"
    by (subst parse_loop.simps) simp
  have ok: "parse_loop ?argv (length ?pre) ?st = parse_loop (?pre @ render (Port p) @ post) (length ?pre) ?st"
    if w: "\<forall>c\<in>set w. is_digit c" "w \<noteq> []" "dec_val w \<le> 65535" "dec_val w = 7 \<or> 1024 \<le> dec_val w"
  proof -
    have "from_chars_u16 w = Parsed p []" using w by (simp add: from_chars_u16_def digits_split [THEN iffD2] p_def Let_def)
    moreover have r: "port_in_range p"
      using w(4) val [OF w(3)] by (auto simp: port_in_range_def word_unat_eq_iff word_le_nat_alt)
    ultimately have "parse_loop ?argv (length ?pre) ?st = parse_loop ?argv (length ?pre + 2) (?st\<lparr>ps_port := Some p\<rparr>)"
      unfolding step parse_step_port [OF none] by simp
    moreover have "parse_step (?pre @ render (Port p) @ post) (length ?pre) ?st = Inr (length ?pre + 2, ?st\<lparr>ps_port := Some p\<rparr>)"
      using parse_step_render [of ?st "Port p" ?pre post] none r by simp
    ultimately show ?thesis unfolding same by (subst (2) parse_loop.simps) simp
  qed
  have bad: "parse_command_line (prog # concat (map render xs) @ ''--port'' # w # post) = Inl e" if "parse_step ?argv (length ?pre) ?st = Inl e" for e
    unfolding run step that by simp
  show ?thesis
  proof (cases "\<forall>c\<in>set w. is_digit c")
    case True
    then have w: "takeWhile is_digit w = w" "dropWhile is_digit w = []" by (simp_all add: digits_split)
    have "port_in_range p \<longleftrightarrow> dec_val w = 7 \<or> 1024 \<le> dec_val w" if "dec_val w \<le> 65535"
      using val [OF that] by (auto simp: port_in_range_def word_unat_eq_iff word_le_nat_alt)
    then show ?thesis
      using True val ok [OF True] bad parse_step_port [OF none, of ?pre w post]
      by (intro exI [of _ p]) (auto simp: from_chars_u16_def w p_def [symmetric] run)
  next
    case False
    then show ?thesis
      using val bad parse_step_port [OF none, of ?pre w post]
      by (intro exI [of _ p]) (auto simp: from_chars_u16_def digits_split)
  qed
qed

theorem port_bounds_witness:
  "parse_command_line [''tpf'', ''--port'', ''00065535''] = parse_command_line [''tpf'', ''--port'', to_string 65535]
   \<and> parse_command_line [''tpf'', ''--port'', ''65536'']
     = Inl ''--port is out of range: expecting value 7 or value in range 1024..65535''"
proof -
  have none: "all_accepted parse_init []" "\<forall>p. Port p \<notin> set []" by simp_all
  have d: "dec_val ''00065535'' = 65535" "dec_val ''65536'' = 65536"
    by (simp_all add: dec_val_def digit_val_def)
  have t: "takeWhile is_digit ''00065535'' = ''00065535''" "takeWhile is_digit ''65536'' = ''65536''"
    "list_all is_digit ''00065535''" by (simp_all add: is_digit_def)
  have "parse_command_line [''tpf'', ''--port'', ''00065535''] = parse_command_line [''tpf'', ''--port'', to_string 65535]"
    using port_bounds [OF none, of "''00065535''" "''tpf''" "[]"] t(3) unfolding d t list_all_iff by auto
  moreover have "parse_command_line [''tpf'', ''--port'', ''65536'']
      = Inl ''--port is out of range: expecting value 7 or value in range 1024..65535''"
    using port_bounds [OF none, of "''65536''" "''tpf''" "[]"] unfolding d t by auto
  ultimately show ?thesis by simp
qed

end
