(* ===== verification/IntrusiveList.thy ===== *)
theory IntrusiveList
  imports Prelude
begin

text \<open>
  The cyclic doubly linked list of src/el/intrusive_list.hpp. Nodes live in a heap that maps node
  addresses to their \<open>next_\<close> and \<open>prev_\<close> pointers (\<open>None\<close> is \<open>nullptr\<close>, an address outside the
  heap is freed memory). A list object is itself a node, the sentinel of its cycle. Every
  operation is the C++ statement sequence, with its reads and writes in order, so that aliasing
  (a list that is empty, two lists that are the same) is as in the code; the abstraction \<open>clist\<close>
  says which sequence of elements the pointers of a list represent, and each operation is shown to
  refine the corresponding operation on sequences.
\<close>

section \<open>Nodes and the heap\<close>

record 'n lnode =
  next_ptr :: "'n option"
  prev_ptr :: "'n option"

record 'n lheap =
  lnodes :: "'n \<Rightarrow> 'n lnode option"

definition get_node :: "'n \<Rightarrow> (('n, 'm) lheap_scheme, 'n lnode) M" where
  "get_node p = (\<lambda>s. case lnodes s p of
     None \<Rightarrow> Inl (UseAfterFree ''intrusive_list_node'') | Some n \<Rightarrow> Inr (n, s))"

definition get_next :: "'n \<Rightarrow> (('n, 'm) lheap_scheme, 'n option) M" where
  "get_next p = bindM (get_node p) (\<lambda>n. ret (next_ptr n))"

definition get_prev :: "'n \<Rightarrow> (('n, 'm) lheap_scheme, 'n option) M" where
  "get_prev p = bindM (get_node p) (\<lambda>n. ret (prev_ptr n))"

definition set_next :: "'n \<Rightarrow> 'n option \<Rightarrow> (('n, 'm) lheap_scheme, unit) M" where
  "set_next p v = bindM (get_node p) (\<lambda>n.
     modM (\<lambda>s. s\<lparr>lnodes := (lnodes s)(p \<mapsto> n\<lparr>next_ptr := v\<rparr>)\<rparr>))"

definition set_prev :: "'n \<Rightarrow> 'n option \<Rightarrow> (('n, 'm) lheap_scheme, unit) M" where
  "set_prev p v = bindM (get_node p) (\<lambda>n.
     modM (\<lambda>s. s\<lparr>lnodes := (lnodes s)(p \<mapsto> n\<lparr>prev_ptr := v\<rparr>)\<rparr>))"

section \<open>\<open>intrusive_list_node\<close>\<close>

definition node_init :: "'n \<Rightarrow> (('n, 'm) lheap_scheme, unit) M" where
  "node_init this = modM (\<lambda>s. s\<lparr>lnodes := (lnodes s)(this \<mapsto> \<lparr>next_ptr = None, prev_ptr = None\<rparr>)\<rparr>)"

definition is_properly_detached :: "'n \<Rightarrow> (('n, 'm) lheap_scheme, bool) M" where
  "is_properly_detached this = bindM (get_next this) (\<lambda>nx. bindM (get_prev this) (\<lambda>pv.
     ret (nx = None \<and> pv = None)))"

text \<open>The destructor; the node's memory is gone afterwards.\<close>

definition node_destroy :: "'n \<Rightarrow> (('n, 'm) lheap_scheme, unit) M" where
  "node_destroy this = bindM (is_properly_detached this) (\<lambda>d.
     thenM (tpf_assert ''is_properly_detached()'' d)
     (modM (\<lambda>s. s\<lparr>lnodes := (lnodes s)(this := None)\<rparr>)))"

text \<open>The move constructor: \<open>this\<close> takes the place of \<open>other\<close> in its cycle.\<close>

definition node_move :: "'n \<Rightarrow> 'n \<Rightarrow> (('n, 'm) lheap_scheme, unit) M" where
  "node_move this other =
     thenM (node_init this)
     (bindM (get_next other) (\<lambda>onx.
      whenM (onx \<noteq> None)
       (bindM (deref ''other.next_'' onx) (\<lambda>nx.
        thenM (set_prev nx (Some this))
        (bindM (bindM (get_prev other) (deref ''other.prev_'')) (\<lambda>pv.
         thenM (set_next pv (Some this))
         (bindM (get_next other) (\<lambda>n'.
          thenM (set_next this n')
          (bindM (get_prev other) (\<lambda>p'.
           thenM (set_prev this p')
           (thenM (set_next other None) (set_prev other None))))))))))))"

definition insert_before :: "'n \<Rightarrow> 'n \<Rightarrow> (('n, 'm) lheap_scheme, unit) M" where
  "insert_before this node =
     bindM (is_properly_detached this) (\<lambda>d.
     thenM (tpf_assert ''is_properly_detached()'' d)
     (bindM (bindM (get_prev node) (deref ''prev'')) (\<lambda>prev.
      bindM (get_next prev) (\<lambda>pn.
      thenM (tpf_assert ''prev->next_ == node'' (pn = Some node))
      (thenM (set_next prev (Some this))
      (thenM (set_prev node (Some this))
      (thenM (set_next this (Some node))
             (set_prev this (Some prev)))))))))"

text \<open>The public accessor \<open>next()\<close>.\<close>

definition node_next :: "'n \<Rightarrow> (('n, 'm) lheap_scheme, 'n) M" where
  "node_next this = bindM (get_next this) (\<lambda>nx.
     thenM (tpf_assert ''next_ != nullptr'' (nx \<noteq> None)) (deref ''next_'' nx))"

definition is_detached :: "'n \<Rightarrow> (('n, 'm) lheap_scheme, bool) M" where
  "is_detached this = bindM (get_next this) (\<lambda>nx. bindM (get_prev this) (\<lambda>pv.
     thenM (tpf_assert ''(next_ == nullptr) == (prev_ == nullptr)'' ((nx = None) = (pv = None)))
     (ret (nx = None))))"

definition detach :: "'n \<Rightarrow> (('n, 'm) lheap_scheme, unit) M" where
  "detach this =
     bindM (is_detached this) (\<lambda>d.
     thenM (tpf_assert ''!is_detached()'' (\<not> d))
     (bindM (get_next this) (\<lambda>nx.
      thenM (tpf_assert ''next_ != this'' (nx \<noteq> Some this))
      (bindM (deref ''next_'' nx) (\<lambda>nxp.
       bindM (get_prev this) (\<lambda>pv.
       thenM (set_prev nxp pv)
       (bindM (bindM (get_prev this) (deref ''prev_'')) (\<lambda>pvp.
        bindM (get_next this) (\<lambda>nx'.
        thenM (set_next pvp nx')
        (thenM (set_next this None) (set_prev this None)))))))))))"

section \<open>\<open>intrusive_list\<close>\<close>

definition list_init :: "'n \<Rightarrow> (('n, 'm) lheap_scheme, unit) M" where
  "list_init this = thenM (node_init this)
     (thenM (set_next this (Some this)) (set_prev this (Some this)))"

definition list_destroy :: "'n \<Rightarrow> (('n, 'm) lheap_scheme, unit) M" where
  "list_destroy this =
     bindM (get_next this) (\<lambda>nx.
     thenM (tpf_assert ''next_ == this'' (nx = Some this))
     (bindM (get_prev this) (\<lambda>pv.
      thenM (tpf_assert ''prev_ == this'' (pv = Some this))
      (thenM (set_next this None)
      (thenM (set_prev this None) (node_destroy this))))))"

definition list_empty :: "'n \<Rightarrow> (('n, 'm) lheap_scheme, bool) M" where
  "list_empty this = bindM (get_next this) (\<lambda>nx. ret (nx = Some this))"

definition assert_shallow :: "'n \<Rightarrow> (('n, 'm) lheap_scheme, unit) M" where
  "assert_shallow this =
     bindM (get_next this) (\<lambda>nx. bindM (get_prev this) (\<lambda>pv.
     thenM (tpf_assert ''next_ != nullptr'' (nx \<noteq> None))
     (thenM (tpf_assert ''prev_ != nullptr'' (pv \<noteq> None))
     (thenM (tpf_assert ''(next_ == selph) == (prev_ == selph)''
         ((nx = Some this) = (pv = Some this)))
     (bindM (bindM (deref ''next_'' nx) get_prev) (\<lambda>np.
      thenM (tpf_assert ''next_->prev_ == selph'' (np = Some this))
      (bindM (bindM (deref ''prev_'' pv) get_next) (\<lambda>pn.
       tpf_assert ''prev_->next_ == selph'' (pn = Some this)))))))))"

text \<open>
  The move constructor. In the empty case \<open>other_next\<close> is \<open>&other\<close>, so the first two writes change
  what \<open>other.next_\<close> and \<open>other.prev_\<close> are read as afterwards.
\<close>

definition list_move :: "'n \<Rightarrow> 'n \<Rightarrow> (('n, 'm) lheap_scheme, unit) M" where
  "list_move this other =
     thenM (node_init this)
     (bindM (bindM (get_next other) (deref ''other_next'')) (\<lambda>other_next.
      bindM (bindM (get_prev other) (deref ''other_prev'')) (\<lambda>other_prev.
      thenM (set_prev other_next (Some this))
      (thenM (set_next other_prev (Some this))
      (bindM (get_next other) (\<lambda>nx.
       thenM (set_next this nx)
       (bindM (get_prev other) (\<lambda>pv.
        thenM (set_prev this pv)
        (thenM (set_next other (Some other))
        (thenM (set_prev other (Some other))
               (assert_shallow this)))))))))))"

definition list_swap :: "'n \<Rightarrow> 'n \<Rightarrow> (('n, 'm) lheap_scheme, unit) M" where
  "list_swap this other =
     bindM (bindM (get_next other) (deref ''other_next'')) (\<lambda>other_next.
     bindM (bindM (get_prev other) (deref ''other_prev'')) (\<lambda>other_prev.
     bindM (get_next this) (\<lambda>og_next.
     bindM (get_prev this) (\<lambda>og_prev.
     thenM (set_prev other_next (Some this))
     (thenM (set_next other_prev (Some this))
     (bindM (get_next other) (\<lambda>nx.
      thenM (set_next this nx)
      (bindM (get_prev other) (\<lambda>pv.
       thenM (set_prev this pv)
       (thenM
         (if og_next = Some this
          then thenM (set_next other (Some other)) (set_prev other (Some other))
          else thenM (set_next other og_next)
               (thenM (set_prev other og_prev)
               (thenM (bindM (deref ''og_next'' og_next) (\<lambda>p. set_prev p (Some other)))
                      (bindM (deref ''og_prev'' og_prev) (\<lambda>p. set_next p (Some other))))))
         (thenM (assert_shallow this) (assert_shallow other))))))))))))"

definition list_push :: "'n \<Rightarrow> 'n \<Rightarrow> (('n, 'm) lheap_scheme, unit) M" where
  "list_push this elem =
     bindM (is_detached elem) (\<lambda>d.
     thenM (tpf_assert ''node->is_detached()'' d) (insert_before elem this))"

text \<open>
  \<open>assert_deep\<close>: its loop only reads, so it is a function of the heap; \<open>None\<close> is a loop that does
  not end.
\<close>

partial_function (option) deep_loop ::
  "('n \<Rightarrow> 'n lnode option) \<Rightarrow> 'n \<Rightarrow> 'n option \<Rightarrow> (fault + unit) option" where
  "deep_loop h selph node =
     (if node = Some selph then Some (Inr ())
      else case node of
        None \<Rightarrow> Some (Inl (Abort ''node != nullptr''))
      | Some p \<Rightarrow> (case h p of
          None \<Rightarrow> Some (Inl (UseAfterFree ''intrusive_list_node''))
        | Some n \<Rightarrow> (case next_ptr n of
            None \<Rightarrow> Some (Inl (Abort ''node->next_ != nullptr''))
          | Some q \<Rightarrow> (case h q of
              None \<Rightarrow> Some (Inl (UseAfterFree ''intrusive_list_node''))
            | Some m \<Rightarrow> if prev_ptr m \<noteq> Some p
                then Some (Inl (Abort ''node == node->next_->prev_''))
                else deep_loop h selph (Some q)))))"

definition assert_deep :: "'n \<Rightarrow> (('n, 'm) lheap_scheme, unit) M" where
  "assert_deep this =
     thenM (assert_shallow this)
     (bindM (get_next this) (\<lambda>node s.
        case deep_loop (lnodes s) this node of
          None \<Rightarrow> Inl Diverges
        | Some (Inl e) \<Rightarrow> Inl e
        | Some (Inr u) \<Rightarrow> Inr (u, s)))"

lemmas list_op_defs = node_init_def is_properly_detached_def node_destroy_def node_move_def
  insert_before_def node_next_def is_detached_def detach_def list_init_def list_destroy_def
  list_empty_def assert_shallow_def list_move_def list_swap_def list_push_def

section \<open>Reading and writing pointers\<close>

definition nextp :: "('n \<Rightarrow> 'n lnode option) \<Rightarrow> 'n \<Rightarrow> 'n option" where
  "nextp h p = Option.bind (h p) next_ptr"

definition prevp :: "('n \<Rightarrow> 'n lnode option) \<Rightarrow> 'n \<Rightarrow> 'n option" where
  "prevp h p = Option.bind (h p) prev_ptr"

definition upd_next :: "('n \<Rightarrow> 'n lnode option) \<Rightarrow> 'n \<Rightarrow> 'n option \<Rightarrow> 'n \<Rightarrow> 'n lnode option" where
  "upd_next h p v = h(p := map_option (next_ptr_update (\<lambda>_. v)) (h p))"

definition upd_prev :: "('n \<Rightarrow> 'n lnode option) \<Rightarrow> 'n \<Rightarrow> 'n option \<Rightarrow> 'n \<Rightarrow> 'n lnode option" where
  "upd_prev h p v = h(p := map_option (prev_ptr_update (\<lambda>_. v)) (h p))"

definition live :: "('n \<Rightarrow> 'n lnode option) \<Rightarrow> 'n \<Rightarrow> bool" where
  "live h p \<longleftrightarrow> h p \<noteq> None"

lemma nextp_upd [simp]:
  "nextp (upd_next h p v) q = (if q = p \<and> live h p then v else nextp h q)"
  "nextp (upd_prev h p v) q = nextp h q"
  by (cases "h p"; auto simp: nextp_def upd_next_def upd_prev_def live_def)+

lemma prevp_upd [simp]:
  "prevp (upd_prev h p v) q = (if q = p \<and> live h p then v else prevp h q)"
  "prevp (upd_next h p v) q = prevp h q"
  by (cases "h p"; auto simp: prevp_def upd_next_def upd_prev_def live_def)+

lemma live_upd [simp]:
  "live (upd_next h p v) q = live h q" "live (upd_prev h p v) q = live h q"
  by (auto simp: live_def upd_next_def upd_prev_def)

lemma upd_other [simp]:
  "q \<noteq> p \<Longrightarrow> upd_next h p v q = h q" "q \<noteq> p \<Longrightarrow> upd_prev h p v q = h q"
  by (simp_all add: upd_next_def upd_prev_def)

lemma fresh_node [simp]:
  "nextp (h(p \<mapsto> n)) q = (if q = p then next_ptr n else nextp h q)"
  "prevp (h(p \<mapsto> n)) q = (if q = p then prev_ptr n else prevp h q)"
  "live (h(p \<mapsto> n)) q \<longleftrightarrow> q = p \<or> live h q"
  by (auto simp: nextp_def prevp_def live_def)

lemma nextp_live: "nextp h p = Some q \<Longrightarrow> live h p"
  by (cases "h p") (auto simp: nextp_def live_def)

lemma prevp_live: "prevp h p = Some q \<Longrightarrow> live h p"
  by (cases "h p") (auto simp: prevp_def live_def)

lemma get_next_run [simp]: "live (lnodes s) p \<Longrightarrow> get_next p s = Inr (nextp (lnodes s) p, s)"
  by (auto simp: get_next_def get_node_def bindM_def live_def nextp_def split: option.splits)

lemma get_prev_run [simp]: "live (lnodes s) p \<Longrightarrow> get_prev p s = Inr (prevp (lnodes s) p, s)"
  by (auto simp: get_prev_def get_node_def bindM_def live_def prevp_def split: option.splits)

lemma set_next_run [simp]:
  "live (lnodes s) p \<Longrightarrow> set_next p v s = Inr ((), s\<lparr>lnodes := upd_next (lnodes s) p v\<rparr>)"
  by (auto simp: set_next_def get_node_def bindM_def live_def upd_next_def split: option.splits)

lemma set_prev_run [simp]:
  "live (lnodes s) p \<Longrightarrow> set_prev p v s = Inr ((), s\<lparr>lnodes := upd_prev (lnodes s) p v\<rparr>)"
  by (auto simp: set_prev_def get_node_def bindM_def live_def upd_prev_def split: option.splits)

section \<open>The abstraction to sequences\<close>

definition link :: "('n \<Rightarrow> 'n lnode option) \<Rightarrow> 'n \<Rightarrow> 'n \<Rightarrow> bool" where
  "link h a b \<longleftrightarrow> nextp h a = Some b \<and> prevp h b = Some a"

fun seg :: "('n \<Rightarrow> 'n lnode option) \<Rightarrow> 'n \<Rightarrow> 'n list \<Rightarrow> 'n \<Rightarrow> bool" where
  "seg h a [] b \<longleftrightarrow> link h a b"
| "seg h a (x # xs) b \<longleftrightarrow> link h a x \<and> seg h x xs b"

text \<open>The list object \<open>l\<close> holds exactly the elements \<open>xs\<close>, in this order.\<close>

definition clist :: "('n \<Rightarrow> 'n lnode option) \<Rightarrow> 'n \<Rightarrow> 'n list \<Rightarrow> bool" where
  "clist h l xs \<longleftrightarrow> distinct (l # xs) \<and> seg h l xs l"

definition detached :: "('n \<Rightarrow> 'n lnode option) \<Rightarrow> 'n \<Rightarrow> bool" where
  "detached h p \<longleftrightarrow> live h p \<and> nextp h p = None \<and> prevp h p = None"

text \<open>The heaps agree outside \<open>A\<close>, and the same nodes are allocated.\<close>

definition agree_off :: "'n set \<Rightarrow> ('n \<Rightarrow> 'n lnode option) \<Rightarrow> ('n \<Rightarrow> 'n lnode option) \<Rightarrow> bool" where
  "agree_off A h h' \<longleftrightarrow> (\<forall>a. a \<notin> A \<longrightarrow> h' a = h a) \<and> (\<forall>a. live h' a = live h a)"

lemma seg_append: "seg h a (xs @ x # ys) b \<longleftrightarrow> seg h a xs x \<and> seg h x ys b"
  by (induction xs arbitrary: a) auto

lemma seg_cong:
  assumes "\<And>x. x \<in> set (a # xs) \<Longrightarrow> nextp h' x = nextp h x"
    and "\<And>x. x \<in> set (xs @ [b]) \<Longrightarrow> prevp h' x = prevp h x"
  shows "seg h' a xs b = seg h a xs b"
  using assms by (induction xs arbitrary: a) (auto simp: link_def)

lemma seg_nextp: "seg h a xs b \<Longrightarrow> nextp h a = Some (hd (xs @ [b]))"
  by (cases xs) (auto simp: link_def)

lemma seg_prevp: "seg h a xs b \<Longrightarrow> prevp h b = Some (last (a # xs))"
  by (induction xs arbitrary: a) (auto simp: link_def)

lemma seg_live: "seg h a xs b \<Longrightarrow> x \<in> set (a # xs @ [b]) \<Longrightarrow> live h x"
  by (induction xs arbitrary: a) (auto simp: link_def dest: nextp_live prevp_live)

lemma clist_live: "clist h l xs \<Longrightarrow> x \<in> set (l # xs) \<Longrightarrow> live h x"
  by (auto simp: clist_def dest: seg_live)

lemma clist_nextp: "clist h l xs \<Longrightarrow> nextp h l = Some (hd (xs @ [l]))"
  by (simp add: clist_def seg_nextp)

lemma clist_prevp: "clist h l xs \<Longrightarrow> prevp h l = Some (last (l # xs))"
  using seg_prevp [of h l xs l] by (simp add: clist_def)

lemma clist_cong:
  assumes "\<And>x. x \<in> set (l # xs) \<Longrightarrow> h' x = h x"
  shows "clist h' l xs = clist h l xs"
  using seg_cong [of l xs h' h l] assms by (auto simp: clist_def nextp_def prevp_def)

lemma clist_agree:
  "agree_off A h h' \<Longrightarrow> set (l # xs) \<inter> A = {} \<Longrightarrow> clist h' l xs = clist h l xs"
  by (rule clist_cong) (auto simp: agree_off_def)

lemma seg_member_linked: "seg h a xs b \<Longrightarrow> x \<in> set xs \<Longrightarrow> nextp h x \<noteq> None"
  by (induction xs arbitrary: a) (auto simp: link_def dest: seg_nextp)

lemma clist_member_linked: "clist h l xs \<Longrightarrow> x \<in> set (l # xs) \<Longrightarrow> nextp h x \<noteq> None"
  by (auto simp: clist_def dest: seg_member_linked seg_nextp)

lemma detached_not_member: "detached h p \<Longrightarrow> clist h l xs \<Longrightarrow> p \<notin> set (l # xs)"
  using clist_member_linked by (fastforce simp: detached_def)

lemma clist_member_next:
  assumes "clist h l xs" and "x \<in> set xs"
  shows "nextp h x \<noteq> Some x"
proof -
  obtain ys zs where xs: "xs = ys @ x # zs" using assms(2) by (metis split_list)
  with assms(1) have "seg h x zs l" "x \<notin> set (zs @ [l])" by (auto simp: clist_def seg_append)
  with seg_nextp [OF this(1)] show ?thesis by (cases zs) auto
qed

lemma preserves_list_ops [preserve_intros]:
  assumes "\<And>s h. f (s\<lparr>lnodes := h\<rparr>) = f s"
  shows "preserves f (get_next x)" "preserves f (get_prev x)"
    "preserves f (set_next x v)" "preserves f (set_prev x v)"
  by (auto simp: assms preserves_def get_next_def get_prev_def set_next_def set_prev_def get_node_def
      bindM_def split: option.splits sum.splits prod.splits)

lemma seg_unique:
  "seg h a xs b \<Longrightarrow> seg h a ys b \<Longrightarrow> b \<notin> set xs \<Longrightarrow> b \<notin> set ys \<Longrightarrow> xs = ys"
proof (induction xs arbitrary: a ys)
  case Nil
  then show ?case by (cases ys) (auto simp: link_def)
next
  case (Cons x xs)
  then show ?case by (cases ys) (auto simp: link_def)
qed

lemma clist_unique: "clist h l xs \<Longrightarrow> clist h l ys \<Longrightarrow> xs = ys"
  by (auto simp: clist_def intro: seg_unique)

lemma clist_Nil: "clist h l [] \<longleftrightarrow> nextp h l = Some l \<and> prevp h l = Some l"
  by (simp add: clist_def link_def)

lemma empty_not_member: "clist h m [] \<Longrightarrow> clist h l xs \<Longrightarrow> m \<noteq> l \<Longrightarrow> m \<notin> set (l # xs)"
  using clist_member_next [of h l xs m] by (auto simp: clist_Nil)

lemma clist_empty_iff: "clist h l xs \<Longrightarrow> nextp h l = Some l \<longleftrightarrow> xs = []"
  by (cases xs) (auto simp: clist_def link_def)

lemma agree_off_upd [simp]:
  "p \<in> A \<Longrightarrow> agree_off A h (upd_next g p v) = agree_off A h g"
  "p \<in> A \<Longrightarrow> agree_off A h (upd_prev g p v) = agree_off A h g"
  "agree_off A h h"
  by (auto simp: agree_off_def upd_next_def upd_prev_def live_def)

section \<open>Each operation refines an operation on sequences\<close>

lemma list_init_spec:
  "\<exists>h'. list_init l s = Inr ((), s\<lparr>lnodes := h'\<rparr>) \<and> clist h' l []
     \<and> (\<forall>a. a \<noteq> l \<longrightarrow> h' a = lnodes s a)"
  by (rule exI [of _ "upd_prev (upd_next ((lnodes s)(l \<mapsto> \<lparr>next_ptr = None, prev_ptr = None\<rparr>))
        l (Some l)) l (Some l)"])
    (simp add: list_init_def node_init_def clist_Nil)

lemma list_empty_spec: "clist (lnodes s) l xs \<Longrightarrow> list_empty l s = Inr (xs = [], s)"
  using clist_live [of "lnodes s" l xs l] by (simp add: list_empty_def clist_empty_iff)

lemma list_destroy_spec:
  assumes "clist (lnodes s) l xs"
  shows "list_destroy l s = (if xs = [] then Inr ((), s\<lparr>lnodes := (lnodes s)(l := None)\<rparr>)
    else Inl (Abort ''next_ == this''))"
proof (cases xs)
  case Nil
  with assms have *: "live (lnodes s) l" "nextp (lnodes s) l = Some l" "prevp (lnodes s) l = Some l"
    using clist_live [OF assms] by (auto simp: clist_Nil)
  have "(upd_prev (upd_next (lnodes s) l None) l None)(l := None) = (lnodes s)(l := None)"
    by (auto simp: fun_eq_iff)
  with * Nil show ?thesis
    by (simp add: list_destroy_def node_destroy_def is_properly_detached_def)
next
  case (Cons x ys)
  with assms have "live (lnodes s) l" "nextp (lnodes s) l \<noteq> Some l"
    using clist_live clist_empty_iff by fastforce+
  with Cons show ?thesis by (simp add: list_destroy_def)
qed

lemma assert_shallow_spec:
  assumes "clist (lnodes s) l xs"
  shows "assert_shallow l s = Inr ((), s)"
proof -
  note c = assms clist_nextp [OF assms] clist_prevp [OF assms] clist_live [OF assms]
  show ?thesis
  proof (cases xs rule: rev_cases)
    case Nil
    with c show ?thesis by (simp add: assert_shallow_def)
  next
    case (snoc ys y)
    with assms have "l \<noteq> y" "nextp (lnodes s) y = Some l" "hd (ys @ [y]) \<noteq> l"
      "prevp (lnodes s) (hd (ys @ [y])) = Some l"
      by (cases ys; auto simp: clist_def seg_append link_def)+
    with c snoc show ?thesis
      by (cases ys) (auto simp: assert_shallow_def)
  qed
qed

lemma insert_seg:
  assumes "clist h l xs" and "h' = upd_prev (upd_next (upd_prev (upd_next h (last (l # xs)) (Some e))
      l (Some e)) e (Some l)) e (Some (last (l # xs)))"
    and "detached h e"
  shows "clist h' l (xs @ [e])"
proof -
  have e: "e \<notin> set (l # xs)" "live h e"
    using detached_not_member [OF assms(3,1)] assms(3) by (auto simp: detached_def)
  have l: "live h l" using clist_live [OF assms(1)] by simp
  show ?thesis
  proof (cases xs rule: rev_cases)
    case Nil
    with e l show ?thesis by (simp add: clist_def link_def assms(2))
  next
    case (snoc ys p)
    with assms(1) have p: "live h p" "p \<noteq> l" "seg h l ys p"
      using clist_live [OF assms(1)] by (auto simp: clist_def seg_append)
    have "seg h' l ys p = seg h l ys p"
      using snoc assms(1) e by (intro seg_cong) (auto simp: clist_def assms(2))
    with snoc assms(1) e l p show ?thesis
      by (auto simp: clist_def seg_append link_def assms(2))
  qed
qed

lemma list_push_spec:
  assumes "clist (lnodes s) l xs" and "detached (lnodes s) e"
  shows "\<exists>h'. list_push l e s = Inr ((), s\<lparr>lnodes := h'\<rparr>) \<and> clist h' l (xs @ [e])
    \<and> agree_off (insert e (set (l # xs))) (lnodes s) h'"
proof -
  let ?h = "lnodes s" and ?p = "last (l # xs)"
  have e: "e \<notin> set (l # xs)" "live ?h e" "nextp ?h e = None" "prevp ?h e = None"
    using detached_not_member [OF assms(2,1)] assms(2) by (auto simp: detached_def)
  have l: "live ?h l" "prevp ?h l = Some ?p" "live ?h ?p"
    using clist_live [OF assms(1)] clist_prevp [OF assms(1)] last_in_set [of "l # xs"] by auto
  have n: "nextp ?h ?p = Some l"
    using assms(1) by (cases xs rule: rev_cases) (auto simp: clist_def seg_append link_def)
  let ?h' = "upd_prev (upd_next (upd_prev (upd_next ?h ?p (Some e)) l (Some e)) e (Some l)) e (Some ?p)"
  have "list_push l e s = Inr ((), s\<lparr>lnodes := ?h'\<rparr>)"
    using e l n unfolding list_push_def insert_before_def is_detached_def is_properly_detached_def
    by (simp del: last.simps)
  moreover have "clist ?h' l (xs @ [e])" by (rule insert_seg [OF assms(1) refl assms(2)])
  moreover have "agree_off (insert e (set (l # xs))) ?h ?h'"
    using last_in_set [of "l # xs"] by (simp del: last.simps)
  ultimately show ?thesis by blast
qed

lemma unlink_seg:
  assumes "clist h l (xs @ x # ys)"
    and "h' = upd_prev (upd_next (upd_next (upd_prev h (hd (ys @ [l])) (Some (last (l # xs))))
      (last (l # xs)) (Some (hd (ys @ [l])))) x None) x None"
  shows "clist h' l (xs @ ys)"
proof -
  let ?p = "last (l # xs)" and ?q = "hd (ys @ [l])"
  have d: "distinct (l # xs @ x # ys)" and s1: "seg h l xs x" and s2: "seg h x ys l"
    using assms(1) by (auto simp: clist_def seg_append)
  have lv: "live h a" if "a \<in> set (l # xs @ x # ys)" for a
    using clist_live [OF assms(1)] that by blast
  have px: "?p \<noteq> x" "?q \<noteq> x" using d by (cases xs rule: rev_cases; cases ys; auto)+
  have pin: "?p \<in> set (l # xs)" "?q \<in> set (l # ys)" by (cases xs rule: rev_cases; cases ys; auto)+
  have pq: "link h' ?p ?q"
    using px pin lv [of ?p] lv [of ?q] by (auto simp: link_def assms(2))
  show ?thesis
  proof (cases xs rule: rev_cases)
    case Nil
    note xs = this
    show ?thesis
    proof (cases ys)
      case Nil
      with xs pq show ?thesis by (simp add: clist_def)
    next
      case (Cons q ys')
      have "seg h' q ys' l = seg h q ys' l"
        using d Cons xs by (intro seg_cong) (auto simp: assms(2))
      with Cons xs pq d s2 show ?thesis by (auto simp: clist_def)
    qed
  next
    case (snoc xs' p)
    have seg1: "seg h' l xs' p"
    proof -
      have "seg h' l xs' p = seg h l xs' p"
        using d snoc by (intro seg_cong) (cases ys; auto simp: assms(2))+
      with s1 snoc show ?thesis by (simp add: seg_append)
    qed
    show ?thesis
    proof (cases ys)
      case Nil
      with snoc pq d seg1 show ?thesis by (simp add: clist_def seg_append)
    next
      case (Cons q ys')
      have "seg h' q ys' l = seg h q ys' l"
        using d Cons snoc by (intro seg_cong) (auto simp: assms(2))
      with Cons snoc pq d s2 seg1 show ?thesis by (auto simp: clist_def seg_append)
    qed
  qed
qed

lemma detach_spec:
  assumes "clist (lnodes s) l (xs @ x # ys)"
  shows "\<exists>h'. detach x s = Inr ((), s\<lparr>lnodes := h'\<rparr>) \<and> clist h' l (xs @ ys) \<and> detached h' x
    \<and> agree_off (set (l # xs @ x # ys)) (lnodes s) h'"
proof -
  let ?h = "lnodes s" and ?p = "last (l # xs)" and ?q = "hd (ys @ [l])"
  have d: "distinct (l # xs @ x # ys)" and s1: "seg ?h l xs x" and s2: "seg ?h x ys l"
    using assms by (auto simp: clist_def seg_append)
  have pin: "?p \<in> set (l # xs)" "?q \<in> set (l # ys)" by (cases xs rule: rev_cases; cases ys; auto)+
  have px: "?p \<noteq> x" "?q \<noteq> x" using d pin by auto
  have lv: "live ?h x" "live ?h ?p" "live ?h ?q" using pin clist_live [OF assms] by auto
  have ptr: "nextp ?h x = Some ?q" "prevp ?h x = Some ?p"
    using seg_nextp [OF s2] seg_prevp [OF s1] by auto
  let ?h' = "upd_prev (upd_next (upd_next (upd_prev ?h ?q (Some ?p)) ?p (Some ?q)) x None) x None"
  have "detach x s = Inr ((), s\<lparr>lnodes := ?h'\<rparr>)"
    using px lv ptr unfolding detach_def is_detached_def by (simp del: last.simps)
  moreover have "clist ?h' l (xs @ ys)" by (rule unlink_seg [OF assms refl])
  moreover have "detached ?h' x" using lv by (simp add: detached_def)
  moreover have "agree_off (set (l # xs @ x # ys)) ?h ?h'" using pin by auto
  ultimately show ?thesis by blast
qed

lemma seg_resentinel:
  assumes "seg h l xs l" and "xs \<noteq> []"
    and "nextp h' m = Some (hd xs)" "prevp h' (hd xs) = Some m"
    and "nextp h' (last xs) = Some m" "prevp h' m = Some (last xs)"
    and "\<And>x. x \<in> set (butlast xs) \<Longrightarrow> nextp h' x = nextp h x"
    and "\<And>x. x \<in> set (tl xs) \<Longrightarrow> prevp h' x = prevp h x"
  shows "seg h' m xs m"
proof (cases xs)
  case Nil
  with assms(2) show ?thesis by simp
next
  case (Cons x ys)
  show ?thesis
  proof (cases ys rule: rev_cases)
    case Nil
    with Cons assms show ?thesis by (simp add: link_def)
  next
    case (snoc zs y)
    with Cons assms(1) have "seg h x zs y" by (simp add: seg_append)
    then have "seg h' x zs y"
      using Cons snoc assms(7,8) by (subst seg_cong [where h = h]) auto
    with Cons snoc assms(3-6) show ?thesis by (simp add: seg_append link_def)
  qed
qed

lemma clist_ends:
  assumes "clist h l xs" and "xs \<noteq> []"
  shows "nextp h l = Some (hd xs)" "prevp h l = Some (last xs)"
    "prevp h (hd xs) = Some l" "nextp h (last xs) = Some l"
proof -
  show "nextp h l = Some (hd xs)" "prevp h l = Some (last xs)"
    using clist_nextp [OF assms(1)] clist_prevp [OF assms(1)] assms(2) by auto
  show "prevp h (hd xs) = Some l"
    using assms by (cases xs) (auto simp: clist_def link_def)
  show "nextp h (last xs) = Some l"
    using assms by (cases xs rule: rev_cases) (auto simp: clist_def seg_append link_def)
qed

lemma butlast_not_last: "distinct xs \<Longrightarrow> x \<in> set (butlast xs) \<Longrightarrow> x \<noteq> last xs"
  by (cases xs rule: rev_cases) (auto simp: butlast_append)

lemma tl_not_hd: "distinct xs \<Longrightarrow> x \<in> set (tl xs) \<Longrightarrow> x \<noteq> hd xs"
  by (cases xs) auto

lemma in_butlast_tl: "x \<in> set (butlast xs) \<or> x \<in> set (tl xs) \<Longrightarrow> x \<in> set xs"
  by (cases "xs = []") (auto dest: in_set_butlastD list.set_sel(2))

lemma clist_resentinel:
  assumes "clist h l xs" and "m \<notin> set xs"
    and nx: "\<And>a. a \<in> insert m (set xs) \<Longrightarrow> nextp h' a
      = (if a = m then Some (hd (xs @ [m])) else if a = last xs then Some m else nextp h a)"
    and pv: "\<And>a. a \<in> insert m (set xs) \<Longrightarrow> prevp h' a
      = (if a = m then Some (last (m # xs)) else if a = hd xs then Some m else prevp h a)"
  shows "clist h' m xs"
proof (cases "xs = []")
  case True
  with nx [of m] pv [of m] show ?thesis by (simp add: clist_Nil)
next
  case False
  have d: "distinct xs" using assms(1) by (simp add: clist_def)
  have xy: "hd xs \<in> set xs" "last xs \<in> set xs" "hd xs \<noteq> m" "last xs \<noteq> m"
    using False assms(2) by (auto dest: hd_in_set last_in_set)
  have "seg h' m xs m"
  proof (rule seg_resentinel [where h = h and l = l])
    show "nextp h' a = nextp h a" if "a \<in> set (butlast xs)" for a
      using butlast_not_last [OF d that] in_set_butlastD [OF that] assms(2) nx [of a] by auto
    show "prevp h' a = prevp h a" if "a \<in> set (tl xs)" for a
      using tl_not_hd [OF d that] in_butlast_tl [OF disjI2, OF that] assms(2) pv [of a] by auto
    show "seg h l xs l" using assms(1) by (simp add: clist_def)
    show "nextp h' (last xs) = Some m" "prevp h' (hd xs) = Some m"
      using xy nx [of "last xs"] pv [of "hd xs"] by simp_all
    show "nextp h' m = Some (hd xs)" "prevp h' m = Some (last xs)"
      using nx [of m] pv [of m] False by simp_all
  qed (fact False)
  with assms(2) d show ?thesis by (simp add: clist_def)
qed

lemma list_move_spec:
  assumes "clist (lnodes s) other xs" and "this \<notin> set (other # xs)"
  shows "\<exists>h'. list_move this other s = Inr ((), s\<lparr>lnodes := h'\<rparr>)
    \<and> clist h' this xs \<and> clist h' other []
    \<and> (\<forall>a. a \<notin> set (this # other # xs) \<longrightarrow> h' a = lnodes s a)"
proof (cases "xs = []")
  case True
  let ?h0 = "(lnodes s)(this \<mapsto> \<lparr>next_ptr = None, prev_ptr = None\<rparr>)"
  let ?h' = "upd_prev (upd_next (upd_prev (upd_next (upd_next (upd_prev ?h0 other (Some this))
    other (Some this)) this (Some this)) this (Some this)) other (Some other)) other (Some other)"
  have o: "live (lnodes s) other" "nextp (lnodes s) other = Some other"
      "prevp (lnodes s) other = Some other" "this \<noteq> other" "other \<noteq> this"
    using assms True clist_live [OF assms(1)] by (auto simp: clist_Nil)
  have c: "clist ?h' this []" "clist ?h' other []"
    using o by (auto simp: clist_Nil)
  have "list_move this other s
      = assert_shallow this (s\<lparr>lnodes := ?h'\<rparr>)"
    using o by (simp add: list_move_def node_init_def)
  with c True assert_shallow_spec [of "s\<lparr>lnodes := ?h'\<rparr>" this "[]"]
  show ?thesis by (intro exI [of _ ?h']) simp
next
  case False
  let ?h0 = "(lnodes s)(this \<mapsto> \<lparr>next_ptr = None, prev_ptr = None\<rparr>)"
  let ?x = "hd xs" and ?y = "last xs"
  let ?h' = "upd_prev (upd_next (upd_prev (upd_next (upd_next (upd_prev ?h0 ?x (Some this))
    ?y (Some this)) this (Some ?x)) this (Some ?y)) other (Some other)) other (Some other)"
  have d: "distinct xs" "other \<notin> set xs" "this \<noteq> other" "other \<noteq> this" "this \<notin> set xs"
    using assms by (auto simp: clist_def)
  have xy: "?x \<in> set xs" "?y \<in> set xs" using False by auto
  have lv: "live (lnodes s) other" "live (lnodes s) ?x" "live (lnodes s) ?y"
    using clist_live [OF assms(1)] xy by auto
  have neq: "?x \<noteq> other" "?y \<noteq> other" "?x \<noteq> this" "?y \<noteq> this"
    using d xy by (metis, metis, metis, metis)
  note e = clist_ends [OF assms(1) False]
  have nx: "nextp ?h' a = (if a = this then Some ?x else if a = other then Some other
      else if a = ?y then Some this else nextp (lnodes s) a)" for a
    using lv neq d by simp
  have pv: "prevp ?h' a = (if a = this then Some ?y else if a = other then Some other
      else if a = ?x then Some this else prevp (lnodes s) a)" for a
    using lv neq d by simp
  have fr: "?h' a = lnodes s a" if "a \<notin> set (this # other # xs)" for a
  proof -
    from that xy have "a \<noteq> ?x" "a \<noteq> ?y" "a \<noteq> this" "a \<noteq> other" by auto
    then show ?thesis by simp
  qed
  have c1: "clist ?h' this xs"
  proof (rule clist_resentinel [OF assms(1) d(5)])
    fix a assume "a \<in> insert this (set xs)"
    with d have "a \<noteq> other" by auto
    then show "nextp ?h' a = (if a = this then Some (hd (xs @ [this])) else if a = last xs
        then Some this else nextp (lnodes s) a)"
      and "prevp ?h' a = (if a = this then Some (last (this # xs)) else if a = hd xs
        then Some this else prevp (lnodes s) a)"
      using False unfolding nx pv by simp_all
  qed
  have c2: "clist ?h' other []"
    using d unfolding clist_Nil nx pv by simp
  have "list_move this other s = assert_shallow this (s\<lparr>lnodes := ?h'\<rparr>)"
    using lv neq d e by (simp add: list_move_def node_init_def)
  also have "\<dots> = Inr ((), s\<lparr>lnodes := ?h'\<rparr>)"
    using assert_shallow_spec [of "s\<lparr>lnodes := ?h'\<rparr>" this xs] c1 by simp
  finally show ?thesis using c1 c2 fr by blast
qed

lemma list_swap_spec:
  assumes "clist (lnodes s) this xs" and "clist (lnodes s) other ys"
    and "set (this # xs) \<inter> set (other # ys) = {}"
  shows "\<exists>h'. list_swap this other s = Inr ((), s\<lparr>lnodes := h'\<rparr>)
    \<and> clist h' this ys \<and> clist h' other xs
    \<and> agree_off (set (this # xs) \<union> set (other # ys)) (lnodes s) h'"
proof -
  let ?h = "lnodes s"
  let ?on = "hd (ys @ [other])" and ?op = "last (other # ys)"
  let ?tn = "hd (xs @ [this])" and ?tp = "last (this # xs)"
  let ?h1 = "upd_next (upd_prev ?h ?on (Some this)) ?op (Some this)"
  let ?h3 = "upd_prev (upd_next ?h1 this (Some (hd (ys @ [this])))) this (Some (last (this # ys)))"
  let ?h' = "if xs = [] then upd_prev (upd_next ?h3 other (Some other)) other (Some other)
    else upd_next (upd_prev (upd_prev (upd_next ?h3 other (Some ?tn)) other (Some ?tp))
      ?tn (Some other)) ?tp (Some other)"
  have d: "this \<noteq> other" "other \<noteq> this" "this \<notin> set xs" "this \<notin> set ys"
      "other \<notin> set xs" "other \<notin> set ys" "set xs \<inter> set ys = {}"
    using assms by (auto simp: clist_def)
  have pin: "?on \<in> set (other # ys)" "?op \<in> set (other # ys)"
      "?tn \<in> set (this # xs)" "?tp \<in> set (this # xs)"
    using last_in_set [of "other # ys"] last_in_set [of "this # xs"]
    by (cases ys; cases xs; simp del: last.simps)+
  have lv: "live ?h this" "live ?h other" "live ?h ?on" "live ?h ?op" "live ?h ?tn" "live ?h ?tp"
    using pin clist_live [OF assms(1)] clist_live [OF assms(2)] by (auto simp del: hd_append2)
  have ptr: "nextp ?h other = Some ?on" "prevp ?h other = Some ?op" "nextp ?h this = Some ?tn"
      "prevp ?h this = Some ?tp"
    by (fact clist_nextp [OF assms(2)] clist_prevp [OF assms(2)] clist_nextp [OF assms(1)]
        clist_prevp [OF assms(1)])+
  have neq: "?on \<noteq> this" "?op \<noteq> this" "?tn \<noteq> other" "?tp \<noteq> other"
    using pin assms(3) by auto
  have apart: "last xs \<noteq> last ys \<and> hd xs \<noteq> hd ys" if "xs \<noteq> []" "ys \<noteq> []"
    using that d(7) by (metis disjoint_iff hd_in_set last_in_set)
  show ?thesis
  proof -
    have nx: "nextp ?h' a = (if a = this then Some (hd (ys @ [this]))
        else if a = other then Some (hd (xs @ [other]))
        else if ys \<noteq> [] \<and> a = last ys then Some this
        else if xs \<noteq> [] \<and> a = last xs then Some other else nextp ?h a)" for a
      using lv d neq apart by (cases "xs = []"; cases "ys = []") auto
    have pv: "prevp ?h' a = (if a = this then Some (last (this # ys))
        else if a = other then Some (last (other # xs))
        else if ys \<noteq> [] \<and> a = hd ys then Some this
        else if xs \<noteq> [] \<and> a = hd xs then Some other else prevp ?h a)" for a
      using lv d neq apart by (cases "xs = []"; cases "ys = []") auto
    have c1: "clist ?h' this ys"
    proof (rule clist_resentinel [OF assms(2) d(4)])
      fix a assume "a \<in> insert this (set ys)"
      with d have "a \<noteq> other" "xs \<noteq> [] \<Longrightarrow> a = last xs \<Longrightarrow> False" "xs \<noteq> [] \<Longrightarrow> a = hd xs \<Longrightarrow> False"
        by (auto dest: last_in_set hd_in_set)
      then show "nextp ?h' a = (if a = this then Some (hd (ys @ [this])) else if a = last ys
          then Some this else nextp ?h a)"
        and "prevp ?h' a = (if a = this then Some (last (this # ys)) else if a = hd ys
          then Some this else prevp ?h a)"
        unfolding nx pv using \<open>a \<in> insert this (set ys)\<close> by (cases "ys = []"; auto)+
    qed
    have c2: "clist ?h' other xs"
    proof (rule clist_resentinel [OF assms(1) d(5)])
      fix a assume "a \<in> insert other (set xs)"
      with d have "a \<noteq> this" "ys \<noteq> [] \<Longrightarrow> a = last ys \<Longrightarrow> False" "ys \<noteq> [] \<Longrightarrow> a = hd ys \<Longrightarrow> False"
        by (auto dest: last_in_set hd_in_set)
      then show "nextp ?h' a = (if a = other then Some (hd (xs @ [other])) else if a = last xs
          then Some other else nextp ?h a)"
        and "prevp ?h' a = (if a = other then Some (last (other # xs)) else if a = hd xs
          then Some other else prevp ?h a)"
        unfolding nx pv using \<open>a \<in> insert other (set xs)\<close> d by (cases "xs = []"; auto)+
    qed
    have fr: "agree_off (set (this # xs) \<union> set (other # ys)) ?h ?h'"
    proof -
      have "{?on, ?op, ?tn, ?tp, this, other} \<subseteq> set (this # xs) \<union> set (other # ys)"
        using pin by auto
      moreover have "?tn = hd xs" if "xs \<noteq> []" using that by simp
      ultimately show ?thesis by (cases "xs = []") (simp_all del: last.simps hd_append2)
    qed
    have "hd xs \<noteq> this" "last xs \<noteq> this" if "xs \<noteq> []"
      using that d by (metis hd_in_set, metis last_in_set)
    moreover have "hd ys \<noteq> other" "last ys \<noteq> other" if "ys \<noteq> []"
      using that d by (metis hd_in_set, metis last_in_set)
    ultimately have "list_swap this other s = thenM (assert_shallow this) (assert_shallow other)
        (s\<lparr>lnodes := ?h'\<rparr>)"
      using lv ptr neq d apart by (cases "xs = []"; cases "ys = []") (simp_all add: list_swap_def)
    also have "\<dots> = Inr ((), s\<lparr>lnodes := ?h'\<rparr>)"
      using assert_shallow_spec [of "s\<lparr>lnodes := ?h'\<rparr>" this ys]
        assert_shallow_spec [of "s\<lparr>lnodes := ?h'\<rparr>" other xs] c1 c2 by simp
    finally show ?thesis using c1 c2 fr by blast
  qed
qed

lemma node_move_spec:
  assumes "clist (lnodes s) l (xs @ x # ys)" and "y \<notin> set (l # xs @ x # ys)"
  shows "\<exists>h'. node_move y x s = Inr ((), s\<lparr>lnodes := h'\<rparr>)
    \<and> clist h' l (xs @ y # ys) \<and> detached h' x"
proof -
  let ?h = "lnodes s" and ?p = "last (l # xs)" and ?q = "hd (ys @ [l])"
  let ?g = "?h(y \<mapsto> \<lparr>next_ptr = None, prev_ptr = None\<rparr>)"
  define h' where "h' = upd_prev (upd_next (upd_prev (upd_next (upd_next (upd_prev ?g ?q (Some y))
    ?p (Some y)) y (Some ?q)) y (Some ?p)) x None) x None"
  have d: "distinct (l # xs @ x # ys)" and s1: "seg ?h l xs x" and s2: "seg ?h x ys l"
    using assms(1) by (auto simp: clist_def seg_append)
  have pin: "?p \<in> set (l # xs)" "?q \<in> set (l # ys)" by (cases xs rule: rev_cases; cases ys; auto)+
  have neq: "?p \<noteq> x" "?q \<noteq> x" "?p \<noteq> y" "?q \<noteq> y" "x \<noteq> y" "y \<noteq> x" "y \<noteq> l" "l \<noteq> x"
    using d pin assms(2) by auto
  have lv: "live ?h x" "live ?h ?p" "live ?h ?q" using pin clist_live [OF assms(1)] by auto
  have ptr: "nextp ?h x = Some ?q" "prevp ?h x = Some ?p"
    using seg_nextp [OF s2] seg_prevp [OF s1] by auto
  have nx: "nextp h' a = (if a = x then None else if a = y then Some ?q
      else if a = ?p then Some y else nextp ?h a)" for a
    using lv neq unfolding h'_def by (simp del: last.simps)
  have pv: "prevp h' a = (if a = x then None else if a = y then Some ?p
      else if a = ?q then Some y else prevp ?h a)" for a
    using lv neq unfolding h'_def by (simp del: last.simps)
  have ends: "link h' ?p y" "link h' y ?q"
    using neq unfolding link_def nx pv by simp_all
  have first: "seg h' l xs y"
  proof (cases xs rule: rev_cases)
    case Nil
    with ends show ?thesis by simp
  next
    case (snoc us p)
    have "seg h' l us p = seg ?h l us p"
    proof (rule seg_cong)
      fix a assume "a \<in> set (l # us)"
      with d snoc assms(2) show "nextp h' a = nextp ?h a" by (simp only: nx) auto
    next
      fix a assume "a \<in> set (us @ [p])"
      with d snoc assms(2) pin(2) have "a \<noteq> x" "a \<noteq> y" "a \<noteq> ?q" by auto
      then show "prevp h' a = prevp ?h a" by (simp only: pv if_False)
    qed
    then show ?thesis using s1 snoc ends by (simp add: seg_append)
  qed
  have second: "seg h' y ys l"
  proof (cases ys)
    case Nil
    with ends show ?thesis by simp
  next
    case (Cons q us)
    have "seg h' q us l = seg ?h q us l"
    proof (rule seg_cong)
      fix a assume "a \<in> set (q # us)"
      with d Cons assms(2) pin(1) have "a \<noteq> x" "a \<noteq> y" "a \<noteq> ?p" by auto
      then show "nextp h' a = nextp ?h a" by (simp only: nx if_False)
    next
      fix a assume "a \<in> set (us @ [l])"
      with d Cons assms(2) show "prevp h' a = prevp ?h a" by (simp only: pv) auto
    qed
    then show ?thesis using s2 Cons ends by simp
  qed
  have "node_move y x s = Inr ((), s\<lparr>lnodes := h'\<rparr>)"
    using lv neq ptr unfolding h'_def by (simp add: node_move_def node_init_def del: last.simps)
  moreover have "clist h' l (xs @ y # ys)"
    using first second d assms(2) by (auto simp: clist_def seg_append)
  moreover have "detached h' x" using lv nx [of x] pv [of x] by (simp add: detached_def h'_def)
  ultimately show ?thesis by blast
qed

lemma deep_loop_seg:
  "seg h a xs l \<Longrightarrow> l \<notin> set xs \<Longrightarrow> deep_loop h l (Some (hd (xs @ [l]))) = Some (Inr ())"
proof (induction xs arbitrary: a)
  case Nil
  show ?case by (subst deep_loop.simps) simp
next
  case (Cons x xs)
  then have x: "x \<noteq> l" and s: "seg h x xs l" and l: "l \<notin> set xs" by auto
  let ?q = "hd (xs @ [l])"
  have "nextp h x = Some ?q" by (rule seg_nextp [OF s])
  then obtain n where n: "h x = Some n" "next_ptr n = Some ?q"
    by (cases "h x") (auto simp: nextp_def)
  have "prevp h ?q = Some x" using s by (cases xs) (auto simp: link_def)
  then obtain m where m: "h ?q = Some m" "prev_ptr m = Some x"
    by (cases "h ?q") (auto simp: prevp_def)
  from x n m Cons.IH [OF s l] show ?case by (subst deep_loop.simps) simp
qed

lemma assert_deep_spec:
  assumes "clist (lnodes s) l xs"
  shows "assert_deep l s = Inr ((), s)"
proof -
  have "deep_loop (lnodes s) l (Some (hd (xs @ [l]))) = Some (Inr ())"
    using assms by (intro deep_loop_seg) (auto simp: clist_def)
  with assert_shallow_spec [OF assms] clist_live [OF assms, of l] clist_nextp [OF assms]
  show ?thesis by (simp add: assert_deep_def bindM_def)
qed

section \<open>The interface a notifier uses\<close>

text \<open>
  What \<open>base_promise\<close> needs of its list of waiters: registering at the end, taking a waiter out
  from anywhere, and looking at the first one. \<open>drain\<close> is the loop of
  \<open>notify_and_detach_completions\<close> (src/el/future.hpp): look at the first element, take it out,
  visit it, and look again, since a visit may take out others; the fuel bounds its iterations.
\<close>

fun drain :: "('s, 'e option) M \<Rightarrow> ('e \<Rightarrow> ('s, unit) M) \<Rightarrow> ('e \<Rightarrow> ('s, unit) M) \<Rightarrow> nat \<Rightarrow> ('s, unit) M" where
  "drain first remove visit 0 = failM OutOfFuel"
| "drain first remove visit (Suc n) = bindM first (\<lambda>r. case r of
     None \<Rightarrow> ret ()
   | Some x \<Rightarrow> thenM (remove x) (thenM (visit x) (drain first remove visit n)))"

locale waiter_list =
  fixes holds :: "'s \<Rightarrow> 'l \<Rightarrow> 'e list \<Rightarrow> bool"
    and idle :: "'s \<Rightarrow> 'e \<Rightarrow> bool"
    and push :: "'l \<Rightarrow> 'e \<Rightarrow> ('s, unit) M"
    and remove :: "'e \<Rightarrow> ('s, unit) M"
    and first :: "'l \<Rightarrow> ('s, 'e option) M"
  assumes push_law: "holds s l xs \<Longrightarrow> idle s e \<Longrightarrow>
      \<exists>s'. push l e s = Inr ((), s') \<and> holds s' l (xs @ [e]) \<and> (\<forall>e'. e' \<noteq> e \<longrightarrow> idle s e' \<longrightarrow> idle s' e')"
    and remove_law: "holds s l (xs @ x # ys) \<Longrightarrow>
      \<exists>s'. remove x s = Inr ((), s') \<and> holds s' l (xs @ ys) \<and> idle s' x"
    and first_law: "holds s l xs \<Longrightarrow>
      first l s = Inr (case xs of [] \<Rightarrow> None | x # _ \<Rightarrow> Some x, s)"
begin

lemma push_all:
  "holds s l xs \<Longrightarrow> distinct es \<Longrightarrow> (\<And>e. e \<in> set es \<Longrightarrow> idle s e) \<Longrightarrow>
   \<exists>s'. mapM (push l) es s = Inr ((), s') \<and> holds s' l (xs @ es)"
proof (induction es arbitrary: s xs)
  case Nil
  then show ?case by simp
next
  case (Cons e es)
  then obtain s1 where s1: "push l e s = Inr ((), s1)" "holds s1 l (xs @ [e])"
      "\<forall>e'. e' \<noteq> e \<longrightarrow> idle s e' \<longrightarrow> idle s1 e'"
    using push_law by force
  have "idle s1 e'" if "e' \<in> set es" for e'
    using that Cons.prems(2,3) s1(3) by (cases "e' = e") simp_all
  with Cons.IH [OF s1(2)] Cons.prems(2) s1(1) show ?case by simp
qed

text \<open>
  The loop ends and visits in the order of registration, each waiter once, as long as a visit
  leaves the waiters behind it in place; \<open>I s zs\<close> is what the visits of \<open>zs\<close> have established.
\<close>

lemma drain_in_order:
  assumes visit: "\<And>s x ys zs. holds s l ys \<Longrightarrow> idle s x \<Longrightarrow> I s zs \<Longrightarrow>
      \<exists>s'. visit x s = Inr ((), s') \<and> holds s' l ys \<and> I s' (zs @ [x])"
    and stable: "\<And>s x ys zs s'. holds s l (x # ys) \<Longrightarrow> I s zs \<Longrightarrow> remove x s = Inr ((), s')
      \<Longrightarrow> I s' zs"
  shows "holds s l xs \<Longrightarrow> I s zs \<Longrightarrow> length xs < n \<Longrightarrow>
    \<exists>s'. drain (first l) remove visit n s = Inr ((), s') \<and> holds s' l [] \<and> I s' (zs @ xs)"
proof (induction n arbitrary: s xs zs)
  case 0
  then show ?case by simp
next
  case (Suc n)
  show ?case
  proof (cases xs)
    case Nil
    with Suc.prems first_law [OF Suc.prems(1)] show ?thesis by auto
  next
    case (Cons x ys)
    obtain s1 where s1: "remove x s = Inr ((), s1)" "holds s1 l ys" "idle s1 x"
      using remove_law [of s l "[]" x ys] Suc.prems(1) Cons by auto
    have "holds s l (x # ys)" using Suc.prems(1) Cons by simp
    from visit [OF s1(2,3) stable [OF this Suc.prems(2) s1(1)]] obtain s2
      where s2: "visit x s1 = Inr ((), s2)" "holds s2 l ys" "I s2 (zs @ [x])" by blast
    from Suc.IH [OF s2(2,3)] Suc.prems(3) Cons obtain s3
      where "drain (first l) remove visit n s2 = Inr ((), s3)" "holds s3 l []"
        "I s3 ((zs @ [x]) @ ys)" by auto
    with s1(1) s2(1) Cons first_law [OF Suc.prems(1)] show ?thesis by auto
  qed
qed

text \<open>Even if visits take other waiters out, the loop ends with the list empty.\<close>

lemma drain_terminates:
  assumes visit: "\<And>s x ys. holds s l ys \<Longrightarrow>
      \<exists>s' ys'. visit x s = Inr ((), s') \<and> holds s' l ys' \<and> length ys' \<le> length ys"
  shows "holds s l xs \<Longrightarrow> length xs < n \<Longrightarrow>
    \<exists>s'. drain (first l) remove visit n s = Inr ((), s') \<and> holds s' l []"
proof (induction n arbitrary: s xs)
  case 0
  then show ?case by simp
next
  case (Suc n)
  show ?case
  proof (cases xs)
    case Nil
    with Suc.prems first_law [OF Suc.prems(1)] show ?thesis by auto
  next
    case (Cons x ys)
    obtain s1 where s1: "remove x s = Inr ((), s1)" "holds s1 l ys"
      using remove_law [of s l "[]" x ys] Suc.prems(1) Cons by auto
    from visit [OF s1(2)] obtain s2 ys'
      where s2: "visit x s1 = Inr ((), s2)" "holds s2 l ys'" "length ys' \<le> length ys" by blast
    from Suc.IH [OF s2(2)] Suc.prems(2) s2(3) Cons obtain s3
      where "drain (first l) remove visit n s2 = Inr ((), s3)" "holds s3 l []" by auto
    with s1(1) s2(1) Cons first_law [OF Suc.prems(1)] show ?thesis by auto
  qed
qed

end

text \<open>The first element, as the loop of the notifier reads it: \<open>self->next()\<close> against \<open>self\<close>.\<close>

definition first_waiter :: "'n \<Rightarrow> (('n, 'm) lheap_scheme, 'n option) M" where
  "first_waiter l = bindM (node_next l) (\<lambda>n. ret (if n = l then None else Some n))"

lemma first_waiter_spec:
  assumes "clist (lnodes s) l xs"
  shows "first_waiter l s = Inr (case xs of [] \<Rightarrow> None | x # _ \<Rightarrow> Some x, s)"
proof -
  note c = clist_live [OF assms, of l] clist_nextp [OF assms]
  show ?thesis
    using c assms by (cases xs) (auto simp: first_waiter_def node_next_def clist_def)
qed

interpretation ilist: waiter_list "\<lambda>s. clist (lnodes (s :: ('n, 'm) lheap_scheme))"
  "\<lambda>s. detached (lnodes s)" list_push detach first_waiter
proof
  fix s :: "('n, 'm) lheap_scheme" and l xs e
  assume a: "clist (lnodes s) l xs" "detached (lnodes s) e"
  obtain h' where h': "list_push l e s = Inr ((), s\<lparr>lnodes := h'\<rparr>)" "clist h' l (xs @ [e])"
      "agree_off (insert e (set (l # xs))) (lnodes s) h'"
    using list_push_spec [OF a] by blast
  have "detached h' e'" if "e' \<noteq> e" "detached (lnodes s) e'" for e'
  proof -
    have "e' \<notin> set (l # xs)" using detached_not_member [OF that(2) a(1)] .
    with that h'(3) show ?thesis
      by (auto simp: agree_off_def detached_def nextp_def prevp_def)
  qed
  with h'(1,2) show "\<exists>s'. list_push l e s = Inr ((), s') \<and> clist (lnodes s') l (xs @ [e])
      \<and> (\<forall>e'. e' \<noteq> e \<longrightarrow> detached (lnodes s) e' \<longrightarrow> detached (lnodes s') e')"
    by auto
next
  fix s :: "('n, 'm) lheap_scheme" and l xs x ys
  assume "clist (lnodes s) l (xs @ x # ys)"
  from detach_spec [OF this] show "\<exists>s'. detach x s = Inr ((), s') \<and> clist (lnodes s') l (xs @ ys)
      \<and> detached (lnodes s') x" by force
qed (rule first_waiter_spec)

end
