(* ===== verification/ListStore.thy ===== *)
theory ListStore
  imports IntrusiveList
begin

text \<open>
  Programs over the operations of src/el/intrusive_list.hpp refine programs over finite sequences:
  an abstract store of lists and idle nodes, the step relation of each operation on it, and the
  simulation theorem that a pointer program follows every abstract run without a failed assertion
  or an access to freed memory.
\<close>

section \<open>A store of lists and waiters, abstractly\<close>

text \<open>
  Programs over the list operations, against an abstract store: \<open>A l = Some xs\<close> when \<open>l\<close> is a
  list object holding \<open>xs\<close>, and \<open>D\<close> the set of constructed nodes that are in no list.
\<close>

datatype 'n list_op =
    NewNode 'n
  | NewList 'n
  | Push 'n 'n
  | Detach 'n
  | MoveList 'n 'n
  | Swap 'n 'n
  | DestroyList 'n
  | DestroyNode 'n

fun exec_op :: "'n list_op \<Rightarrow> (('n, 'm) lheap_scheme, unit) M" where
  "exec_op (NewNode e) = node_init e"
| "exec_op (NewList l) = list_init l"
| "exec_op (Push l e) = list_push l e"
| "exec_op (Detach e) = detach e"
| "exec_op (MoveList l m) = list_move l m"
| "exec_op (Swap l m) = list_swap l m"
| "exec_op (DestroyList l) = list_destroy l"
| "exec_op (DestroyNode e) = node_destroy e"

type_synonym 'n store = "('n \<Rightarrow> 'n list option) \<times> 'n set"

definition cells :: "'n store \<Rightarrow> 'n set" where
  "cells \<alpha> = snd \<alpha> \<union> (\<Union>(l, xs) \<in> {(l, xs). fst \<alpha> l = Some xs}. set (l # xs))"

inductive astep :: "'n store \<Rightarrow> 'n list_op \<Rightarrow> 'n store \<Rightarrow> bool" where
  new_node: "e \<notin> cells (A, D) \<Longrightarrow> astep (A, D) (NewNode e) (A, insert e D)"
| new_list: "l \<notin> cells (A, D) \<Longrightarrow> astep (A, D) (NewList l) (A(l \<mapsto> []), D)"
| push: "A l = Some xs \<Longrightarrow> e \<in> D \<Longrightarrow> astep (A, D) (Push l e) (A(l \<mapsto> xs @ [e]), D - {e})"
| detach: "A l = Some (xs @ e # ys) \<Longrightarrow>
    astep (A, D) (Detach e) (A(l \<mapsto> xs @ ys), insert e D)"
| move: "A m = Some xs \<Longrightarrow> l \<notin> cells (A, D) \<Longrightarrow>
    astep (A, D) (MoveList l m) (A(l \<mapsto> xs, m \<mapsto> []), D)"
| swap: "A l = Some xs \<Longrightarrow> A m = Some ys \<Longrightarrow> l \<noteq> m \<Longrightarrow>
    astep (A, D) (Swap l m) (A(l \<mapsto> ys, m \<mapsto> xs), D)"
| destroy_list: "A l = Some [] \<Longrightarrow> astep (A, D) (DestroyList l) (A(l := None), D)"
| destroy_node: "e \<in> D \<Longrightarrow> astep (A, D) (DestroyNode e) (A, D - {e})"

inductive_cases astep_cases: "astep \<alpha> op \<beta>"

definition stores :: "('n \<Rightarrow> 'n lnode option) \<Rightarrow> 'n store \<Rightarrow> bool" where
  "stores h \<alpha> \<longleftrightarrow>
     (\<forall>l xs. fst \<alpha> l = Some xs \<longrightarrow> clist h l xs)
   \<and> (\<forall>l xs m ys. fst \<alpha> l = Some xs \<longrightarrow> fst \<alpha> m = Some ys \<longrightarrow> l \<noteq> m \<longrightarrow>
        set (l # xs) \<inter> set (m # ys) = {})
   \<and> (\<forall>e \<in> snd \<alpha>. detached h e)"

lemma storesI:
  assumes "\<And>l xs. A l = Some xs \<Longrightarrow> clist h l xs"
    and "\<And>l xs m ys. A l = Some xs \<Longrightarrow> A m = Some ys \<Longrightarrow> l \<noteq> m \<Longrightarrow> set (l # xs) \<inter> set (m # ys) = {}"
    and "\<And>e. e \<in> D \<Longrightarrow> detached h e"
  shows "stores h (A, D)"
  using assms unfolding stores_def by auto

lemma storesD:
  assumes "stores h (A, D)"
  shows "A l = Some xs \<Longrightarrow> clist h l xs"
    and "A l = Some xs \<Longrightarrow> A m = Some ys \<Longrightarrow> l \<noteq> m \<Longrightarrow> set (l # xs) \<inter> set (m # ys) = {}"
    and "e \<in> D \<Longrightarrow> detached h e"
    and "A l = Some xs \<Longrightarrow> e \<in> D \<Longrightarrow> e \<notin> set (l # xs)"
proof -
  show cl: "A l = Some xs \<Longrightarrow> clist h l xs" and det: "e \<in> D \<Longrightarrow> detached h e"
    using assms by (auto simp: stores_def)
  show "A l = Some xs \<Longrightarrow> A m = Some ys \<Longrightarrow> l \<noteq> m \<Longrightarrow> set (l # xs) \<inter> set (m # ys) = {}"
    using assms unfolding stores_def by (metis fst_conv)
  show "A l = Some xs \<Longrightarrow> e \<in> D \<Longrightarrow> e \<notin> set (l # xs)"
    using detached_not_member [OF det cl] by blast
qed

lemma detached_cong: "h' e = h e \<Longrightarrow> detached h' e = detached h e"
  by (auto simp: detached_def nextp_def prevp_def live_def)

lemma not_cell:
  "e \<notin> cells (A, D) \<longleftrightarrow> e \<notin> D \<and> (\<forall>l xs. A l = Some xs \<longrightarrow> e \<notin> set (l # xs))"
  by (fastforce simp: cells_def)

text \<open>
  The pointer work of one step, reduced to its footprint: outside \<open>F\<close> nothing changed, the
  lists of the new store meet \<open>F\<close> only where they were rebuilt.
\<close>

lemma stores_step:
  assumes old: "stores h (A, D)"
    and same: "\<And>a. a \<notin> F \<Longrightarrow> h' a = h a"
    and rebuilt: "\<And>l xs. B l = Some xs \<Longrightarrow> clist h' l xs \<or> (A l = Some xs \<and> set (l # xs) \<inter> F = {})"
    and apart: "\<And>l xs m ys. B l = Some xs \<Longrightarrow> B m = Some ys \<Longrightarrow> l \<noteq> m \<Longrightarrow> set (l # xs) \<inter> set (m # ys) = {}"
    and idle: "\<And>e. e \<in> E \<Longrightarrow> detached h' e \<or> (e \<in> D \<and> e \<notin> F)"
  shows "stores h' (B, E)"
proof (rule storesI)
  fix l xs assume B: "B l = Some xs"
  then show "clist h' l xs"
  proof (rule rebuilt [THEN disjE])
    assume a: "A l = Some xs \<and> set (l # xs) \<inter> F = {}"
    then have "clist h l xs" using storesD(1) [OF old] by blast
    moreover have "clist h' l xs = clist h l xs"
      using a same by (intro clist_cong) blast
    ultimately show ?thesis by blast
  qed
next
  fix e assume "e \<in> E"
  then show "detached h' e"
    using idle [of e] storesD(3) [OF old, of e] detached_cong [of h' e h] same [of e] by blast
qed (use apart in blast)

lemma exec_new_node:
  assumes "stores (lnodes s) (A, D)" and "e \<notin> cells (A, D)"
  shows "\<exists>s'. exec_op (NewNode e) s = Inr ((), s') \<and> stores (lnodes s') (A, insert e D)"
proof -
  let ?h' = "(lnodes s)(e \<mapsto> \<lparr>next_ptr = None, prev_ptr = None\<rparr>)"
  have "stores ?h' (A, insert e D)"
  proof (rule stores_step [OF assms(1), where F = "{e}"])
    fix l xs assume "A l = Some xs"
    with assms(2) show "clist ?h' l xs \<or> A l = Some xs \<and> set (l # xs) \<inter> {e} = {}"
      by (auto simp: not_cell)
  next
    fix e' assume "e' \<in> insert e D"
    then show "detached ?h' e' \<or> e' \<in> D \<and> e' \<notin> {e}"
      by (cases "e' = e") (auto simp: detached_def)
  qed (use storesD(2) [OF assms(1)] in auto)
  then show ?thesis by (simp add: node_init_def)
qed

lemma exec_new_list:
  assumes "stores (lnodes s) (A, D)" and "l \<notin> cells (A, D)"
  shows "\<exists>s'. exec_op (NewList l) s = Inr ((), s') \<and> stores (lnodes s') (A(l \<mapsto> []), D)"
proof -
  obtain h' where h': "list_init l s = Inr ((), s\<lparr>lnodes := h'\<rparr>)" "clist h' l []"
      "\<And>a. a \<noteq> l \<Longrightarrow> h' a = lnodes s a"
    using list_init_spec [of l s] by blast
  have nl: "l \<notin> D" "\<And>m ys. A m = Some ys \<Longrightarrow> l \<notin> set (m # ys)"
    using assms(2) unfolding not_cell by blast+
  have "stores h' (A(l \<mapsto> []), D)"
  proof (rule stores_step [OF assms(1), where F = "{l}"])
    fix m ys assume "(A(l \<mapsto> [])) m = Some ys"
    then show "clist h' m ys \<or> A m = Some ys \<and> set (m # ys) \<inter> {l} = {}"
      using h'(2) nl(2) by (cases "m = l") auto
  next
    fix m ys k zs assume "(A(l \<mapsto> [])) m = Some ys" "(A(l \<mapsto> [])) k = Some zs" "m \<noteq> k"
    then show "set (m # ys) \<inter> set (k # zs) = {}"
      using nl(2) storesD(2) [OF assms(1)] by (auto split: if_splits)
  qed (use h'(3) nl(1) in auto)
  with h'(1) show ?thesis by simp
qed

lemma exec_push:
  assumes st: "stores (lnodes s) (A, D)" and l: "A l = Some xs" and e: "e \<in> D"
  shows "\<exists>s'. exec_op (Push l e) s = Inr ((), s') \<and> stores (lnodes s') (A(l \<mapsto> xs @ [e]), D - {e})"
proof -
  note c = storesD(1) [OF st l] and d = storesD(3) [OF st e]
  obtain h' where h': "list_push l e s = Inr ((), s\<lparr>lnodes := h'\<rparr>)" "clist h' l (xs @ [e])"
      "agree_off (insert e (set (l # xs))) (lnodes s) h'"
    using list_push_spec [OF c d] by blast
  have "stores h' (A(l \<mapsto> xs @ [e]), D - {e})"
  proof (rule stores_step [OF st, where F = "insert e (set (l # xs))"])
    fix m ys assume B: "(A(l \<mapsto> xs @ [e])) m = Some ys"
    show "clist h' m ys \<or> A m = Some ys \<and> set (m # ys) \<inter> insert e (set (l # xs)) = {}"
    proof (cases "m = l")
      case True
      with B h'(2) show ?thesis by simp
    next
      case False
      with B show ?thesis
        using storesD(2) [OF st _ l, of m ys] storesD(4) [OF st _ e, of m ys] by auto
    qed
  next
    fix m ys k zs assume "(A(l \<mapsto> xs @ [e])) m = Some ys" "(A(l \<mapsto> xs @ [e])) k = Some zs" "m \<noteq> k"
    then show "set (m # ys) \<inter> set (k # zs) = {}"
      using storesD(2) [OF st] storesD(4) [OF st _ e] l by (fastforce split: if_splits)
  next
    fix e' assume "e' \<in> D - {e}"
    then show "detached h' e' \<or> e' \<in> D \<and> e' \<notin> insert e (set (l # xs))"
      using storesD(4) [OF st l] by blast
  qed (use h'(3) in \<open>auto simp: agree_off_def\<close>)
  with h'(1) show ?thesis by simp
qed

lemma exec_detach:
  assumes st: "stores (lnodes s) (A, D)" and l: "A l = Some (xs @ e # ys)"
  shows "\<exists>s'. exec_op (Detach e) s = Inr ((), s') \<and> stores (lnodes s') (A(l \<mapsto> xs @ ys), insert e D)"
proof -
  note c = storesD(1) [OF st l]
  obtain h' where h': "detach e s = Inr ((), s\<lparr>lnodes := h'\<rparr>)" "clist h' l (xs @ ys)"
      "detached h' e" "agree_off (set (l # xs @ e # ys)) (lnodes s) h'"
    using detach_spec [OF c] by blast
  have "stores h' (A(l \<mapsto> xs @ ys), insert e D)"
  proof (rule stores_step [OF st, where F = "set (l # xs @ e # ys)"])
    fix m zs assume "(A(l \<mapsto> xs @ ys)) m = Some zs"
    then show "clist h' m zs \<or> A m = Some zs \<and> set (m # zs) \<inter> set (l # xs @ e # ys) = {}"
      using h'(2) storesD(2) [OF st _ l, of m zs] by (cases "m = l") auto
  next
    fix m zs k ws assume "(A(l \<mapsto> xs @ ys)) m = Some zs" "(A(l \<mapsto> xs @ ys)) k = Some ws" "m \<noteq> k"
    then show "set (m # zs) \<inter> set (k # ws) = {}"
      using storesD(2) [OF st] l by (fastforce split: if_splits)
  next
    fix e' assume "e' \<in> insert e D"
    then show "detached h' e' \<or> e' \<in> D \<and> e' \<notin> set (l # xs @ e # ys)"
      using h'(3) storesD(4) [OF st l] by blast
  qed (use h'(4) in \<open>auto simp: agree_off_def\<close>)
  with h'(1) show ?thesis by simp
qed

lemma exec_move:
  assumes st: "stores (lnodes s) (A, D)" and m: "A m = Some xs" and l: "l \<notin> cells (A, D)"
  shows "\<exists>s'. exec_op (MoveList l m) s = Inr ((), s')
    \<and> stores (lnodes s') (A(l \<mapsto> xs, m \<mapsto> []), D)"
proof -
  have nl: "l \<notin> D" "\<And>k ys. A k = Some ys \<Longrightarrow> l \<notin> set (k # ys)"
    using l unfolding not_cell by blast+
  note c = storesD(1) [OF st m]
  obtain h' where h': "list_move l m s = Inr ((), s\<lparr>lnodes := h'\<rparr>)" "clist h' l xs" "clist h' m []"
      "\<And>a. a \<notin> set (l # m # xs) \<Longrightarrow> h' a = lnodes s a"
    using list_move_spec [OF c nl(2) [OF m]] by blast
  have "stores h' (A(l \<mapsto> xs, m \<mapsto> []), D)"
  proof (rule stores_step [OF st, where F = "set (l # m # xs)"])
    fix k zs assume "(A(l \<mapsto> xs, m \<mapsto> [])) k = Some zs"
    then show "clist h' k zs \<or> A k = Some zs \<and> set (k # zs) \<inter> set (l # m # xs) = {}"
      using h'(2,3) storesD(2) [OF st _ m, of k zs] nl(2) [of k zs]
      by (cases "k = l"; cases "k = m") auto
  next
    fix k zs j ws
    assume "(A(l \<mapsto> xs, m \<mapsto> [])) k = Some zs" "(A(l \<mapsto> xs, m \<mapsto> [])) j = Some ws" "k \<noteq> j"
    then show "set (k # zs) \<inter> set (j # ws) = {}"
      using storesD(2) [OF st] storesD(1) [OF st m] nl(2) m
      by (fastforce simp: clist_def split: if_splits)
  next
    fix e assume "e \<in> D"
    then show "detached h' e \<or> e \<in> D \<and> e \<notin> set (l # m # xs)"
      using storesD(4) [OF st m] nl(1) by auto
  qed (use h'(4) in auto)
  with h'(1) show ?thesis by simp
qed

lemma exec_swap:
  assumes st: "stores (lnodes s) (A, D)" and l: "A l = Some xs" and m: "A m = Some ys" and ne: "l \<noteq> m"
  shows "\<exists>s'. exec_op (Swap l m) s = Inr ((), s')
    \<and> stores (lnodes s') (A(l \<mapsto> ys, m \<mapsto> xs), D)"
proof -
  obtain h' where h': "list_swap l m s = Inr ((), s\<lparr>lnodes := h'\<rparr>)" "clist h' l ys" "clist h' m xs"
      "agree_off (set (l # xs) \<union> set (m # ys)) (lnodes s) h'"
    using list_swap_spec [OF storesD(1) [OF st l] storesD(1) [OF st m] storesD(2) [OF st l m ne]]
    by blast
  have "stores h' (A(l \<mapsto> ys, m \<mapsto> xs), D)"
  proof (rule stores_step [OF st, where F = "set (l # xs) \<union> set (m # ys)"])
    fix k zs assume "(A(l \<mapsto> ys, m \<mapsto> xs)) k = Some zs"
    then show "clist h' k zs \<or> A k = Some zs \<and> set (k # zs) \<inter> (set (l # xs) \<union> set (m # ys)) = {}"
      using h'(2,3) storesD(2) [OF st _ m, of k zs] storesD(2) [OF st _ l, of k zs]
      by (cases "k = l"; cases "k = m") auto
  next
    fix k zs j ws
    assume "(A(l \<mapsto> ys, m \<mapsto> xs)) k = Some zs" "(A(l \<mapsto> ys, m \<mapsto> xs)) j = Some ws" "k \<noteq> j"
    then show "set (k # zs) \<inter> set (j # ws) = {}"
      using storesD(2) [OF st] storesD(2) [OF st l m ne] storesD(1) [OF st m] storesD(1) [OF st l] l m
      by (fastforce simp: clist_def split: if_splits)
  next
    fix e assume "e \<in> D"
    then show "detached h' e \<or> e \<in> D \<and> e \<notin> set (l # xs) \<union> set (m # ys)"
      using storesD(4) [OF st l] storesD(4) [OF st m] by auto
  qed (use h'(4) in \<open>auto simp: agree_off_def\<close>)
  with h'(1) show ?thesis by simp
qed

lemma exec_destroy_list:
  assumes st: "stores (lnodes s) (A, D)" and l: "A l = Some []"
  shows "\<exists>s'. exec_op (DestroyList l) s = Inr ((), s') \<and> stores (lnodes s') (A(l := None), D)"
proof -
  have "stores ((lnodes s)(l := None)) (A(l := None), D)"
  proof (rule stores_step [OF st, where F = "{l}"])
    fix k zs assume "(A(l := None)) k = Some zs"
    then show "clist ((lnodes s)(l := None)) k zs \<or> A k = Some zs \<and> set (k # zs) \<inter> {l} = {}"
      using storesD(2) [OF st _ l, of k zs] by (auto split: if_splits)
  next
    fix k zs j ws assume "(A(l := None)) k = Some zs" "(A(l := None)) j = Some ws" "k \<noteq> j"
    then show "set (k # zs) \<inter> set (j # ws) = {}"
      using storesD(2) [OF st] by (auto split: if_splits)
  next
    fix e assume "e \<in> D"
    then show "detached ((lnodes s)(l := None)) e \<or> e \<in> D \<and> e \<notin> {l}"
      using storesD(4) [OF st l] by auto
  qed simp
  then show ?thesis using list_destroy_spec [OF storesD(1) [OF st l]] by simp
qed

lemma exec_destroy_node:
  assumes st: "stores (lnodes s) (A, D)" and e: "e \<in> D"
  shows "\<exists>s'. exec_op (DestroyNode e) s = Inr ((), s') \<and> stores (lnodes s') (A, D - {e})"
proof -
  have "stores ((lnodes s)(e := None)) (A, D - {e})"
  proof (rule stores_step [OF st, where F = "{e}"])
    fix k zs assume "A k = Some zs"
    then show "clist ((lnodes s)(e := None)) k zs \<or> A k = Some zs \<and> set (k # zs) \<inter> {e} = {}"
      using storesD(4) [OF st _ e, of k zs] by auto
  qed (use storesD(2) [OF st] in auto)
  moreover have "node_destroy e s = Inr ((), s\<lparr>lnodes := (lnodes s)(e := None)\<rparr>)"
    using storesD(3) [OF st e] by (simp add: node_destroy_def is_properly_detached_def detached_def)
  ultimately show ?thesis by simp
qed

lemma exec_op_simulates:
  assumes "astep \<alpha> op \<beta>" and "stores (lnodes s) \<alpha>"
  shows "\<exists>s'. exec_op op s = Inr ((), s') \<and> stores (lnodes s') \<beta>"
  using assms
proof (cases rule: astep.cases)
  case (new_node e A D)
  with assms(2) exec_new_node [of s A D e] show ?thesis by simp
next
  case (new_list l A D)
  with assms(2) exec_new_list [of s A D l] show ?thesis by simp
next
  case (push A l xs e D)
  with assms(2) exec_push [of s A D l xs e] show ?thesis by simp
next
  case (detach A l xs e ys D)
  with assms(2) exec_detach [of s A D l xs e ys] show ?thesis by simp
next
  case (move A m xs l D)
  with assms(2) exec_move [of s A D m xs l] show ?thesis by simp
next
  case (swap A l xs m ys D)
  with assms(2) exec_swap [of s A D l xs m ys] show ?thesis by simp
next
  case (destroy_list A l D)
  with assms(2) exec_destroy_list [of s A D l] show ?thesis by simp
next
  case (destroy_node e D A)
  with assms(2) exec_destroy_node [of s A D e] show ?thesis by simp
qed

inductive arun :: "'n store \<Rightarrow> 'n list_op list \<Rightarrow> 'n store \<Rightarrow> bool" where
  stop: "arun \<alpha> [] \<alpha>"
| more: "astep \<alpha> op \<beta> \<Longrightarrow> arun \<beta> ops \<gamma> \<Longrightarrow> arun \<alpha> (op # ops) \<gamma>"

lemma exec_ops_simulate:
  "arun \<alpha> ops \<beta> \<Longrightarrow> stores (lnodes s) \<alpha> \<Longrightarrow>
   \<exists>s'. mapM exec_op ops s = Inr ((), s') \<and> stores (lnodes s') \<beta>"
proof (induction arbitrary: s rule: arun.induct)
  case (stop \<alpha>)
  then show ?case by simp
next
  case (more \<alpha> op \<beta> ops \<gamma>)
  from exec_op_simulates [OF more.hyps(1) more.prems] obtain s1
    where "exec_op op s = Inr ((), s1)" "stores (lnodes s1) \<beta>" by blast
  with more.IH [of s1] show ?case by auto
qed

section \<open>Properties\<close>

text \<open>
  C1. The intrusive list refines sequences: from a heap that holds the abstract store \<open>\<alpha>\<close>, any
  sequence of constructions, pushes, detaches from anywhere, list moves, swaps and destructions
  that is allowed on \<open>\<alpha>\<close> runs on the pointers without a failed assertion or a freed node being
  touched, and ends in a heap that holds the resulting abstract store; in particular the empty-list
  aliasing in the move constructor and in \<open>swap\<close> is harmless, and \<open>assert_deep\<close> passes on every
  list afterwards.
\<close>

theorem list_program_refines:
  assumes "arun \<alpha> ops \<beta>" and "stores (lnodes s) \<alpha>"
  shows "\<exists>s'. mapM exec_op ops s = Inr ((), s') \<and> stores (lnodes s') \<beta>
    \<and> (\<forall>l xs. fst \<beta> l = Some xs \<longrightarrow> assert_deep l s' = Inr ((), s'))"
proof -
  obtain s' where "mapM exec_op ops s = Inr ((), s')" "stores (lnodes s') \<beta>"
    using exec_ops_simulate [OF assms] by blast
  moreover from this(2) have "assert_deep l s' = Inr ((), s')" if "fst \<beta> l = Some xs" for l xs
    using that by (intro assert_deep_spec [where xs = xs]) (simp add: stores_def)
  ultimately show ?thesis by blast
qed

theorem list_program_refines_witness:
  "\<exists>s'. mapM exec_op [NewList (0 :: nat), NewNode 1, NewNode 2, Push 0 1, Push 0 2, MoveList 3 0, Detach 1]
      \<lparr>lnodes = Map.empty\<rparr> = Inr ((), s')
    \<and> stores (lnodes s') (Map.empty(0 \<mapsto> [], 3 \<mapsto> [2]), {1})"
proof -
  let ?ops = "[NewList (0 :: nat), NewNode 1, NewNode 2, Push 0 1, Push 0 2, MoveList 3 0, Detach 1]"
  have d: "insert (Suc 0) ({2, Suc 0} - {Suc 0} - {2}) = {Suc 0}" by auto
  have "arun (Map.empty, {}) ?ops (Map.empty(0 \<mapsto> [], 3 \<mapsto> [2]), {1})"
    apply (rule arun.more [OF astep.new_list], simp add: cells_def)
    apply (rule arun.more [OF astep.new_node], simp add: cells_def)
    apply (rule arun.more [OF astep.new_node], simp add: cells_def)
    apply (rule arun.more [OF astep.push [where xs = "[]"]], simp, simp)
    apply (rule arun.more [OF astep.push [where xs = "[1]"]], simp, simp)
    apply (rule arun.more [OF astep.move [where xs = "[1, 2]"]], simp, simp add: cells_def)
    apply (rule arun.more [OF astep.detach [where l = 3 and xs = "[]" and ys = "[2]"]], simp)
    apply (simp add: arun.stop fun_upd_twist d)
    done
  from list_program_refines [OF this, of "\<lparr>lnodes = Map.empty\<rparr>"] show ?thesis
    by (auto simp: stores_def)
qed

end
