(* ===== verification/Posix.thy ===== *)
theory Posix
  imports IntrusiveList
begin

text \<open>
  The operating system as the program sees it. The kernel is a parameter of the model: a record
  \<open>syscalls\<close> of functions on an arbitrary kernel state \<open>'os\<close>, which give the errno of a failed call
  (\<open>Inl\<close>) or its result (\<open>Inr\<close>). Nothing is assumed of these functions here. The constants are the
  values of the Linux headers on x86-64. Also here: the error structs of src/util.hpp.
\<close>

section \<open>Constants\<close>

definition EINTR :: int where "EINTR = 4"
definition EAGAIN :: int where "EAGAIN = 11"
definition EWOULDBLOCK :: int where "EWOULDBLOCK = 11"

definition EPOLLIN :: u32 where "EPOLLIN = 0x001"
definition EPOLLPRI :: u32 where "EPOLLPRI = 0x002"
definition EPOLLOUT :: u32 where "EPOLLOUT = 0x004"
definition EPOLLERR :: u32 where "EPOLLERR = 0x008"
definition EPOLLHUP :: u32 where "EPOLLHUP = 0x010"
definition EPOLLRDHUP :: u32 where "EPOLLRDHUP = 0x2000"
definition EPOLLEXCLUSIVE :: u32 where "EPOLLEXCLUSIVE = 0x10000000"
definition EPOLLWAKEUP :: u32 where "EPOLLWAKEUP = 0x20000000"
definition EPOLLONESHOT :: u32 where "EPOLLONESHOT = 0x40000000"
definition EPOLLET :: u32 where "EPOLLET = 0x80000000"

lemmas epoll_flag_defs = EPOLLIN_def EPOLLPRI_def EPOLLOUT_def EPOLLERR_def EPOLLHUP_def
  EPOLLRDHUP_def EPOLLEXCLUSIVE_def EPOLLWAKEUP_def EPOLLONESHOT_def EPOLLET_def

definition S_IFMT :: u32 where "S_IFMT = 0xF000"
definition S_IFIFO :: u32 where "S_IFIFO = 0x1000"
definition S_IFSOCK :: u32 where "S_IFSOCK = 0xC000"
definition O_RDONLY :: u32 where "O_RDONLY = 0"
definition O_WRONLY :: u32 where "O_WRONLY = 1"
definition O_NONBLOCK :: u32 where "O_NONBLOCK = 0x800"
definition O_CLOEXEC :: u32 where "O_CLOEXEC = 0x80000"
definition SOCK_NONBLOCK :: u32 where "SOCK_NONBLOCK = 0x800"
definition SOCK_CLOEXEC :: u32 where "SOCK_CLOEXEC = 0x80000"
definition SOCK_STREAM :: u32 where "SOCK_STREAM = 1"
definition AF_INET :: u16 where "AF_INET = 2"
definition AF_INET6 :: u16 where "AF_INET6 = 10"
definition SIGINT :: u32 where "SIGINT = 2"
definition SIGTERM :: u32 where "SIGTERM = 15"

section \<open>Errors (src/util.hpp)\<close>

record errsv_error =
  source :: string
  errsv :: int

type_synonym epoll_ctl_error = errsv_error
type_synonym epoll_wait_error = errsv_error
type_synonym epoll_create_error = errsv_error
type_synonym read_error = errsv_error
type_synonym write_error = errsv_error
type_synonym signalfd_error = errsv_error
type_synonym accept_error = errsv_error

text \<open>\<open>errsv_error::make_msg\<close>; \<open>strerror\<close> is the C library's \<open>strerror_r\<close>.\<close>

definition make_msg :: "(int \<Rightarrow> string) \<Rightarrow> errsv_error \<Rightarrow> string" where
  "make_msg strerror e = source e @ '' failed: '' @ strerror (errsv e)"

definition mk_error :: "string \<Rightarrow> int \<Rightarrow> errsv_error" where
  "mk_error src e = \<lparr>source = src, errsv = e\<rparr>"

text \<open>\<open>swap_out\<close>: what was in the optional, and the optional that is left.\<close>

definition swap_out :: "'a option \<Rightarrow> 'a option \<times> 'a option" where
  "swap_out value = (let ret = None; (ret', value') = (value, ret) in (ret', value'))"

lemma swap_out_simp [simp]: "swap_out v = (v, None)"
  by (simp add: swap_out_def)

text \<open>\<open>close_errsv\<close>: the errno of a close, 0 when it succeeded.\<close>

record close_errsv =
  close_errno :: int

section \<open>System calls\<close>

type_synonym ('os, 'r) syscall = "'os \<Rightarrow> (int + 'r) \<times> 'os"

text \<open>A socket address of \<open>getaddrinfo\<close>, with the port as a number, and the ways in which
  \<open>getaddrinfo\<close> fails: \<open>EAI_SYSTEM\<close> with an errno, or another code.\<close>

record sockaddr =
  sa_family :: u16
  sin_port :: u16
  sa_data :: "u8 list"

datatype gai_error = EaiSystem int | EaiOther int

record 'os syscalls =
  sys_read :: "int \<Rightarrow> nat \<Rightarrow> ('os, u8 list) syscall"
  sys_write :: "int \<Rightarrow> u8 list \<Rightarrow> ('os, nat) syscall"
  sys_close :: "int \<Rightarrow> ('os, unit) syscall"
  sys_epoll_create1 :: "('os, int) syscall"
  sys_epoll_add :: "int \<Rightarrow> int \<Rightarrow> u32 \<Rightarrow> addr \<Rightarrow> ('os, unit) syscall"
  sys_epoll_del :: "int \<Rightarrow> int \<Rightarrow> ('os, unit) syscall"
  sys_epoll_wait :: "int \<Rightarrow> nat \<Rightarrow> bool \<Rightarrow> ('os, (addr \<times> u32) list) syscall"
  sys_accept4 :: "int \<Rightarrow> ('os, int) syscall"
  sys_read_siginfo :: "int \<Rightarrow> ('os, nat \<times> u32) syscall"
  sys_fstat_mode :: "int \<Rightarrow> ('os, u32) syscall"
  sys_getfl :: "int \<Rightarrow> ('os, u32) syscall"
  sys_setfl :: "int \<Rightarrow> u32 \<Rightarrow> ('os, unit) syscall"
  sys_open :: "string \<Rightarrow> u32 \<Rightarrow> ('os, int) syscall"
  sys_getaddrinfo :: "string \<Rightarrow> 'os \<Rightarrow> (gai_error + sockaddr) \<times> 'os"
  sys_socket :: "u16 \<Rightarrow> u32 \<Rightarrow> ('os, int) syscall"
  sys_connect :: "int \<Rightarrow> sockaddr \<Rightarrow> ('os, unit) syscall"
  sys_bind :: "int \<Rightarrow> sockaddr \<Rightarrow> ('os, unit) syscall"
  sys_listen :: "int \<Rightarrow> int \<Rightarrow> ('os, unit) syscall"
  sys_sigprocmask :: "bool \<Rightarrow> u32 list \<Rightarrow> ('os, unit) syscall"
  sys_signalfd :: "u32 list \<Rightarrow> u32 \<Rightarrow> ('os, int) syscall"

text \<open>In the order of the fields: \<open>read\<close>, \<open>write\<close>, \<open>close\<close>, \<open>epoll_create1\<close>, \<open>epoll_ctl\<close> with its two
  operations, \<open>epoll_wait\<close>, \<open>accept4\<close>, a \<open>read\<close> of one \<open>signalfd_siginfo\<close> (the length and
  \<open>ssi_signo\<close>), \<open>fstat\<close> (the mode), \<open>fcntl\<close> with \<open>F_GETFL\<close> and \<open>F_SETFL\<close>, \<open>open\<close>,
  \<open>getaddrinfo\<close> (the first result), \<open>socket\<close>, \<open>connect\<close>, \<open>bind\<close>, \<open>listen\<close>, \<open>sigprocmask\<close>
  (\<open>True\<close>: \<open>SIG_BLOCK\<close>) and \<open>signalfd\<close>.\<close>

text \<open>A kernel in which nothing is ever ready, from which concrete kernels are built by updates.\<close>

definition idle_sys :: "'os syscalls" where
  "idle_sys = \<lparr>
     sys_read = (\<lambda>_ _ k. (Inl EAGAIN, k)), sys_write = (\<lambda>_ _ k. (Inl EAGAIN, k)),
     sys_close = (\<lambda>_ k. (Inr (), k)), sys_epoll_create1 = (\<lambda>k. (Inr 3, k)),
     sys_epoll_add = (\<lambda>_ _ _ _ k. (Inr (), k)), sys_epoll_del = (\<lambda>_ _ k. (Inr (), k)),
     sys_epoll_wait = (\<lambda>_ _ _ k. (Inr [], k)), sys_accept4 = (\<lambda>_ k. (Inl EAGAIN, k)),
     sys_read_siginfo = (\<lambda>_ k. (Inl EAGAIN, k)),
     sys_fstat_mode = (\<lambda>_ k. (Inr S_IFIFO, k)), sys_getfl = (\<lambda>_ k. (Inr O_NONBLOCK, k)),
     sys_setfl = (\<lambda>_ _ k. (Inr (), k)), sys_open = (\<lambda>_ _ k. (Inl EAGAIN, k)),
     sys_getaddrinfo = (\<lambda>_ k. (Inl (EaiOther 1), k)), sys_socket = (\<lambda>_ _ k. (Inl EAGAIN, k)),
     sys_connect = (\<lambda>_ _ k. (Inl EAGAIN, k)), sys_bind = (\<lambda>_ _ k. (Inl EAGAIN, k)),
     sys_listen = (\<lambda>_ _ k. (Inl EAGAIN, k)), sys_sigprocmask = (\<lambda>_ _ k. (Inr (), k)),
     sys_signalfd = (\<lambda>_ _ k. (Inl EAGAIN, k))\<rparr>"

record ('n, 'os) os_state = "'n lheap" +
  os :: 'os

definition syscall :: "('os, 'r) syscall \<Rightarrow> (('n, 'os, 'm) os_state_scheme, int + 'r) M" where
  "syscall f = (\<lambda>s. case f (os s) of (r, k) \<Rightarrow> Inr (r, s\<lparr>os := k\<rparr>))"

text \<open>
  The idiom \<open>try_again: res = call(); if (res == -1 && errno == EINTR) goto try_again;\<close>.
  \<open>None\<close> is a call that is interrupted for ever.
\<close>

partial_function (option) retry_eintr :: "('os, 'r) syscall \<Rightarrow> 'os \<Rightarrow> ((int + 'r) \<times> 'os) option" where
  "retry_eintr f k =
     (case f k of (r, k') \<Rightarrow>
       (case r of
          Inl e \<Rightarrow> if e = EINTR then retry_eintr f k' else Some (Inl e, k')
        | Inr x \<Rightarrow> Some (Inr x, k')))"

definition syscall_retry :: "('os, 'r) syscall \<Rightarrow> (('n, 'os, 'm) os_state_scheme, int + 'r) M" where
  "syscall_retry f = (\<lambda>s. case retry_eintr f (os s) of
     None \<Rightarrow> Inl Diverges | Some (r, k) \<Rightarrow> Inr (r, s\<lparr>os := k\<rparr>))"

text \<open>A call that is interrupted \<open>n\<close> times from the kernel state \<open>k\<close> and then gives \<open>r\<close>.\<close>

fun interrupted :: "('os, 'r) syscall \<Rightarrow> nat \<Rightarrow> 'os \<Rightarrow> (int + 'r) \<Rightarrow> 'os \<Rightarrow> bool" where
  "interrupted f 0 k r k' \<longleftrightarrow> f k = (r, k') \<and> r \<noteq> Inl EINTR"
| "interrupted f (Suc n) k r k' \<longleftrightarrow> (\<exists>k1. f k = (Inl EINTR, k1) \<and> interrupted f n k1 r k')"

lemma retry_eintr_interrupted: "interrupted f n k r k' \<Longrightarrow> retry_eintr f k = Some (r, k')"
proof (induction n arbitrary: k)
  case 0
  then show ?case by (subst retry_eintr.simps) (auto split: sum.splits)
next
  case (Suc n)
  then show ?case by (subst retry_eintr.simps) auto
qed

lemma retry_eintr_result:
  fixes f :: "('os, 'r) syscall"
  assumes "retry_eintr f k = Some (r, k')"
  shows "\<exists>n. interrupted f n k r k'"
proof -
  have "\<exists>n. interrupted f n k (fst rk) (snd rk)" if "retry_eintr f k = Some rk" for rk
    using that
  proof (rule retry_eintr.raw_induct [where P = "\<lambda>f k rk. \<exists>n. interrupted f n k (fst rk) (snd rk)", rotated])
    fix F :: "('os, 'r) syscall \<Rightarrow> 'os \<Rightarrow> ((int + 'r) \<times> 'os) option"
      and f :: "('os, 'r) syscall" and k rk
    assume IH: "\<And>f k rk. F f k = Some rk \<Longrightarrow> \<exists>n. interrupted f n k (fst rk) (snd rk)"
      and eq: "(case f k of (r, k') \<Rightarrow> (case r of Inl e \<Rightarrow> if e = EINTR then F f k' else Some (Inl e, k')
        | Inr x \<Rightarrow> Some (Inr x, k'))) = Some rk"
    obtain r1 k1 where fk: "f k = (r1, k1)" by (cases "f k")
    show "\<exists>n. interrupted f n k (fst rk) (snd rk)"
    proof (cases "r1 = Inl EINTR")
      case True
      with eq fk IH [of f k1 rk] obtain n where "interrupted f n k1 (fst rk) (snd rk)" by auto
      with fk True have "interrupted f (Suc n) k (fst rk) (snd rk)" by simp
      then show ?thesis ..
    next
      case False
      with eq fk have "interrupted f 0 k (fst rk) (snd rk)" by (cases r1) auto
      then show ?thesis ..
    qed
  qed
  from this [OF assms] show ?thesis by simp
qed

lemma interrupted_not_EINTR: "interrupted f n k r k' \<Longrightarrow> r \<noteq> Inl EINTR"
  by (induction n arbitrary: k) auto

lemma retry_eintr_not_EINTR: "retry_eintr f k = Some (r, k') \<Longrightarrow> r \<noteq> Inl EINTR"
  using retry_eintr_result interrupted_not_EINTR by metis

lemma syscall_run [simp]: "f (os s) = (r, k) \<Longrightarrow> syscall f s = Inr (r, s\<lparr>os := k\<rparr>)"
  by (simp add: syscall_def)

lemma syscall_retry_run [simp]:
  "retry_eintr f (os s) = Some (r, k) \<Longrightarrow> syscall_retry f s = Inr (r, s\<lparr>os := k\<rparr>)"
  by (simp add: syscall_retry_def)

lemma preserves_syscall [preserve_intros]:
  "(\<And>s k. f (s\<lparr>os := k\<rparr>) = f s) \<Longrightarrow> preserves f (syscall c)"
  "(\<And>s k. f (s\<lparr>os := k\<rparr>) = f s) \<Longrightarrow> preserves f (syscall_retry c)"
  by (auto simp: preserves_def syscall_def syscall_retry_def split: prod.splits option.splits)

lemma retry_eintr_step [simp]:
  "f k = (Inr x, k') \<Longrightarrow> retry_eintr f k = Some (Inr x, k')"
  "f k = (Inl e, k') \<Longrightarrow> e \<noteq> EINTR \<Longrightarrow> retry_eintr f k = Some (Inl e, k')"
  by (subst retry_eintr.simps; simp)+

end
