(* ===== verification/FdObject.thy ===== *)
theory FdObject
  imports Posix "HOL-Library.Multiset"
begin

text \<open>
  The owning file descriptor \<open>el::Fd\<close> of src/el/fd.hpp. An \<open>Fd\<close> is the integer \<open>fd_\<close>, with \<open>-1\<close>
  for an empty one; operations return the new value of the object (and of the object moved from).
\<close>

section \<open>The class\<close>

type_synonym Fd = int

definition fd_default :: Fd where
  "fd_default = -1"

text \<open>The move constructor: the new object's value and what is left in \<open>other\<close>.\<close>

definition fd_move :: "Fd \<Rightarrow> Fd \<times> Fd" where
  "fd_move other = (other, -1)"

definition fd_destroy :: "'os syscalls \<Rightarrow> Fd \<Rightarrow> (('n, 'os, 'm) os_state_scheme, unit) M" where
  "fd_destroy sys fd =
     (if fd \<noteq> -1 then bindM (syscall (sys_close sys fd)) (\<lambda>_. ret ()) else ret ())"

definition fd_empty :: "Fd \<Rightarrow> bool" where
  "fd_empty fd \<longleftrightarrow> fd = -1"

definition fd_has_value :: "Fd \<Rightarrow> bool" where
  "fd_has_value fd \<longleftrightarrow> fd \<noteq> -1"

definition fd_init :: "Fd \<Rightarrow> int \<Rightarrow> (('n, 'os, 'm) os_state_scheme, Fd) M" where
  "fd_init this fd = thenM (tpf_assert ''empty()'' (fd_empty this)) (ret fd)"

text \<open>\<open>close() &&\<close>: the result of \<open>::close\<close> (0 or an errno) and the emptied object.\<close>

definition fd_close :: "'os syscalls \<Rightarrow> Fd \<Rightarrow> (('n, 'os, 'm) os_state_scheme, (int + unit) \<times> Fd) M" where
  "fd_close sys fd =
     thenM (tpf_assert ''fd_ != -1'' (fd \<noteq> -1))
     (bindM (syscall (sys_close sys fd)) (\<lambda>res. ret (res, -1)))"

definition fd_release :: "Fd \<Rightarrow> int \<times> Fd" where
  "fd_release fd = (fd, -1)"

lemmas fd_defs = fd_default_def fd_move_def fd_destroy_def fd_empty_def fd_has_value_def
  fd_init_def fd_close_def fd_release_def

section \<open>Programs over several \<open>Fd\<close> objects\<close>

text \<open>
  Objects are variables \<open>v\<close>; a program adopts descriptors, moves them around, closes, releases and
  destroys objects. \<open>Assign v w\<close> is the move assignment: \<open>tmp(std::move(other))\<close>, a swap with
  \<open>tmp\<close>, and the destructor of \<open>tmp\<close> at the end of the block; \<open>v\<close> and \<open>w\<close> may be the same object.
\<close>

datatype fd_op =
    Adopt nat int   \<comment> \<open>\<open>Fd v{fd}\<close>\<close>
  | MoveNew nat nat \<comment> \<open>\<open>Fd v{std::move(w)}\<close>\<close>
  | Assign nat nat  \<comment> \<open>\<open>v = std::move(w)\<close>\<close>
  | Close nat
  | Release nat
  | Destroy nat

record ('n, 'os) fd_state = "('n, 'os) os_state" +
  fds :: "nat \<Rightarrow> Fd option"
  released :: "int list"

definition get_fd :: "nat \<Rightarrow> (('n, 'os, 'm) fd_state_scheme, Fd) M" where
  "get_fd v = bindM (getM (\<lambda>s. fds s v)) (deref ''Fd'')"

definition set_fd :: "nat \<Rightarrow> Fd option \<Rightarrow> (('n, 'os, 'm) fd_state_scheme, unit) M" where
  "set_fd v x = modM (\<lambda>s. s\<lparr>fds := (fds s)(v := x)\<rparr>)"

fun fd_exec :: "'os syscalls \<Rightarrow> fd_op \<Rightarrow> (('n, 'os, 'm) fd_state_scheme, unit) M" where
  "fd_exec sys (Adopt v fd) = set_fd v (Some fd)"
| "fd_exec sys (MoveNew v w) = bindM (get_fd w) (\<lambda>x. case fd_move x of (a, b) \<Rightarrow>
     thenM (set_fd w (Some b)) (set_fd v (Some a)))"
| "fd_exec sys (Assign v w) = bindM (get_fd w) (\<lambda>x. case fd_move x of (tmp, b) \<Rightarrow>
     thenM (set_fd w (Some b))
     (bindM (get_fd v) (\<lambda>y.
      thenM (set_fd v (Some tmp)) (fd_destroy sys y))))"
| "fd_exec sys (Close v) = bindM (get_fd v) (\<lambda>x.
     bindM (fd_close sys x) (\<lambda>r. set_fd v (Some (snd r))))"
| "fd_exec sys (Release v) = bindM (get_fd v) (\<lambda>x. case fd_release x of (fd, b) \<Rightarrow>
     thenM (set_fd v (Some b)) (modM (\<lambda>s. s\<lparr>released := released s @ [fd]\<rparr>)))"
| "fd_exec sys (Destroy v) = bindM (get_fd v) (\<lambda>x.
     thenM (fd_destroy sys x) (set_fd v None))"

section \<open>Ownership\<close>

fun adopts :: "fd_op \<Rightarrow> int list" where
  "adopts (Adopt v fd) = [fd]"
| "adopts _ = []"

text \<open>What the language guarantees: an object is constructed where there is none, and used where
  there is one; a descriptor that the kernel hands out has not been seen before.\<close>

fun fd_guard :: "('n, 'os, 'm) fd_state_scheme \<Rightarrow> int list \<Rightarrow> fd_op \<Rightarrow> bool" where
  "fd_guard s ad (Adopt v fd) \<longleftrightarrow> fds s v = None \<and> fd \<noteq> -1 \<and> fd \<notin> set ad"
| "fd_guard s ad (MoveNew v w) \<longleftrightarrow> fds s v = None \<and> fds s w \<noteq> None"
| "fd_guard s ad (Assign v w) \<longleftrightarrow> fds s v \<noteq> None \<and> fds s w \<noteq> None"
| "fd_guard s ad (Close v) \<longleftrightarrow> fds s v \<noteq> None \<and> fds s v \<noteq> Some (-1)"
| "fd_guard s ad (Release v) \<longleftrightarrow> fds s v \<noteq> None"
| "fd_guard s ad (Destroy v) \<longleftrightarrow> fds s v \<noteq> None"

inductive fd_reach :: "'os syscalls \<Rightarrow> ('n, 'os) fd_state \<Rightarrow> ('n, 'os) fd_state \<Rightarrow> int list \<Rightarrow> bool"
  for sys s0 where
  start: "fd_reach sys s0 s0 []"
| step: "fd_reach sys s0 s ad \<Longrightarrow> fd_guard s ad op \<Longrightarrow> fd_exec sys op s = Inr ((), s') \<Longrightarrow>
    fd_reach sys s0 s' (adopts op @ ad)"

text \<open>
  Every adopted descriptor is in exactly one place: closed (once), handed out by \<open>release\<close>, or
  held by exactly one object; any other descriptor is nowhere.
\<close>

definition holders :: "(nat \<Rightarrow> Fd option) \<Rightarrow> int \<Rightarrow> nat set" where
  "holders F fd = {v. F v = Some fd}"

definition one_place :: "bool \<Rightarrow> bool \<Rightarrow> bool \<Rightarrow> nat set \<Rightarrow> bool" where
  "one_place adopted clsd rlsd H \<longleftrightarrow>
     (if adopted then (clsd \<and> \<not> rlsd \<and> H = {}) \<or> (\<not> clsd \<and> rlsd \<and> H = {})
        \<or> (\<not> clsd \<and> \<not> rlsd \<and> (\<exists>v. H = {v}))
      else \<not> clsd \<and> \<not> rlsd \<and> H = {})"

definition fd_inv :: "(nat \<Rightarrow> Fd option) \<Rightarrow> int list \<Rightarrow> int list \<Rightarrow> int list \<Rightarrow> bool" where
  "fd_inv F C R ad \<longleftrightarrow> -1 \<notin> set ad \<and> -1 \<notin> set C \<and> distinct C
     \<and> (\<forall>fd. fd \<noteq> -1 \<longrightarrow> one_place (fd \<in> set ad) (fd \<in> set C) (fd \<in> set R) (holders F fd))"

lemma holders_upd:
  "holders (F(v := x)) fd = (if x = Some fd then insert v (holders F fd) else holders F fd - {v})"
  by (auto simp: holders_def)

lemma holders_single:
  assumes "fd_inv F C R ad" and "F v = Some fd" and "fd \<noteq> -1"
  shows "fd \<in> set ad" "fd \<notin> set C" "fd \<notin> set R" "holders F fd = {v}"
proof -
  have "v \<in> holders F fd" using assms(2) by (simp add: holders_def)
  moreover have "one_place (fd \<in> set ad) (fd \<in> set C) (fd \<in> set R) (holders F fd)"
    using assms(1,3) by (simp add: fd_inv_def)
  ultimately show "fd \<in> set ad" "fd \<notin> set C" "fd \<notin> set R" "holders F fd = {v}"
    by (auto simp: one_place_def split: if_splits)
qed

lemma not_holder: "F v \<noteq> Some fd \<Longrightarrow> holders F fd - {v} = holders F fd"
  by (auto simp: holders_def)

lemma fd_inv_adopt:
  assumes "fd_inv F C R ad" and "F v = None" and "fd \<noteq> -1" and "fd \<notin> set ad"
  shows "fd_inv (F(v \<mapsto> fd)) C R (fd # ad)"
  using assms by (auto simp: fd_inv_def holders_upd not_holder one_place_def)

lemma fd_inv_pass:
  assumes inv: "fd_inv F C R ad" and w: "F w = Some fd" and v: "F v = None \<or> F v = Some (-1) \<or> v = w"
  shows "fd_inv ((F(w \<mapsto> -1))(v \<mapsto> fd)) C R ad"
proof -
  let ?F = "(F(w \<mapsto> -1))(v \<mapsto> fd)"
  have "one_place (x \<in> set ad) (x \<in> set C) (x \<in> set R) (holders ?F x)" if "x \<noteq> -1" for x
  proof (cases "x = fd")
    case True
    with that holders_single [OF inv w] show ?thesis by (simp add: holders_upd one_place_def)
  next
    case False
    with that w v have "holders ?F x = holders F x" by (auto simp: holders_upd) (auto simp: holders_def)
    with inv that show ?thesis by (simp add: fd_inv_def)
  qed
  with inv show ?thesis by (simp add: fd_inv_def)
qed

lemma fd_inv_close:
  assumes inv: "fd_inv F C R ad" and v: "F v = Some fd" and "fd \<noteq> -1" and x: "x = None \<or> x = Some (-1)"
  shows "fd_inv (F(v := x)) (C @ [fd]) R ad"
proof -
  note h = holders_single [OF inv v \<open>fd \<noteq> -1\<close>]
  have "one_place (y \<in> set ad) (y \<in> set (C @ [fd])) (y \<in> set R) (holders (F(v := x)) y)"
    if "y \<noteq> -1" for y
  proof (cases "y = fd")
    case True
    with that h x show ?thesis by (auto simp: holders_upd one_place_def)
  next
    case False
    with that v x have "holders (F(v := x)) y = holders F y" by (auto simp: holders_upd not_holder)
    with inv that False show ?thesis by (simp add: fd_inv_def)
  qed
  with inv h \<open>fd \<noteq> -1\<close> show ?thesis by (simp add: fd_inv_def)
qed

lemma fd_inv_release:
  assumes inv: "fd_inv F C R ad" and v: "F v = Some fd"
  shows "fd_inv (F(v \<mapsto> -1)) C (R @ [fd]) ad"
proof -
  have "one_place (y \<in> set ad) (y \<in> set C) (y \<in> set (R @ [fd])) (holders (F(v \<mapsto> -1)) y)"
    if "y \<noteq> -1" for y
  proof (cases "y = fd")
    case True
    with that holders_single [OF inv v] show ?thesis by (simp add: holders_upd one_place_def)
  next
    case False
    with that v have "holders (F(v \<mapsto> -1)) y = holders F y" by (auto simp: holders_upd not_holder)
    with inv that False show ?thesis by (simp add: fd_inv_def)
  qed
  with inv show ?thesis by (simp add: fd_inv_def)
qed

lemma fd_inv_drop:
  assumes "fd_inv F C R ad" and "F v = Some (-1)"
  shows "fd_inv (F(v := None)) C R ad"
  using assms by (auto simp: fd_inv_def holders_upd not_holder)

text \<open>The kernel state records the calls of \<open>::close\<close>.\<close>

definition observes_close :: "'os syscalls \<Rightarrow> ('os \<Rightarrow> int list) \<Rightarrow> bool" where
  "observes_close sys clsd \<longleftrightarrow>
     (\<forall>fd k r k'. sys_close sys fd k = (r, k') \<longrightarrow> clsd k' = clsd k @ [fd])"

lemma fd_exec_inv:
  assumes obs: "observes_close sys clsd" and guard: "fd_guard s ad op"
    and inv: "fd_inv (fds s) (clsd (os s)) (released s) ad"
  shows "\<exists>s'. fd_exec sys op s = Inr ((), s')
    \<and> fd_inv (fds s') (clsd (os s')) (released s') (adopts op @ ad)"
proof (cases op)
  case (Adopt v fd)
  with guard inv show ?thesis by (simp add: set_fd_def fd_inv_adopt)
next
  case (MoveNew v w)
  with guard obtain x where "fds s w = Some x" "fds s v = None" by auto
  with MoveNew fd_inv_pass [OF inv, of w x v] show ?thesis
    by (simp add: get_fd_def set_fd_def fd_move_def)
next
  case (Assign v w)
  with guard obtain x y where xy: "fds s w = Some x" "fds s v = Some y" by auto
  have inv1: "fd_inv ((fds s)(w \<mapsto> -1)) (clsd (os s)) (released s @ [x]) ad"
    by (rule fd_inv_release [OF inv xy(1)])
  show ?thesis
  proof (cases "v = w \<or> y = -1")
    case True
    with Assign xy fd_inv_pass [OF inv xy(1), of v] show ?thesis
      by (auto simp: get_fd_def set_fd_def fd_move_def fd_destroy_def)
  next
    case False
    obtain r k where c: "sys_close sys y (os s) = (r, k)" by (cases "sys_close sys y (os s)")
    with obs have k: "clsd k = clsd (os s) @ [y]" by (auto simp: observes_close_def)
    have "fd_inv ((fds s)(v \<mapsto> -1)) (clsd k) (released s) ad"
      unfolding k using fd_inv_close [OF inv xy(2)] False by simp
    then have "fd_inv (((fds s)(v \<mapsto> -1, w \<mapsto> -1))(v \<mapsto> x)) (clsd k) (released s) ad"
      using xy(1) False by (intro fd_inv_pass) auto
    then show ?thesis
      using Assign xy c False
      by (simp add: get_fd_def set_fd_def fd_move_def fd_destroy_def fun_upd_twist)
  qed
next
  case (Close v)
  with guard obtain x where x: "fds s v = Some x" "x \<noteq> -1" by auto
  obtain r k where c: "sys_close sys x (os s) = (r, k)" by (cases "sys_close sys x (os s)")
  with obs have k: "clsd k = clsd (os s) @ [x]" by (auto simp: observes_close_def)
  with Close x c fd_inv_close [OF inv x] show ?thesis
    by (simp add: get_fd_def set_fd_def fd_close_def)
next
  case (Release v)
  with guard obtain x where x: "fds s v = Some x" by auto
  with Release fd_inv_release [OF inv x] show ?thesis
    by (simp add: get_fd_def set_fd_def fd_release_def)
next
  case (Destroy v)
  with guard obtain x where x: "fds s v = Some x" by auto
  obtain r k where c: "sys_close sys x (os s) = (r, k)" by (cases "sys_close sys x (os s)")
  with obs have k: "clsd k = clsd (os s) @ [x]" by (auto simp: observes_close_def)
  show ?thesis
  proof (cases "x = -1")
    case True
    with Destroy x fd_inv_drop [OF inv, of v] show ?thesis
      by (simp add: get_fd_def set_fd_def fd_destroy_def)
  next
    case False
    with Destroy x c k fd_inv_close [OF inv x] show ?thesis
      by (simp add: get_fd_def set_fd_def fd_destroy_def)
  qed
qed

lemma fd_reach_inv:
  assumes "fd_reach sys s0 s ad" and "observes_close sys clsd"
    and "fd_inv (fds s0) (clsd (os s0)) (released s0) []"
  shows "fd_inv (fds s) (clsd (os s)) (released s) ad"
  using assms(1)
proof (induction rule: fd_reach.induct)
  case start
  show ?case by (rule assms(3))
next
  case (step s ad op s')
  with fd_exec_inv [OF assms(2) step.hyps(2) step.IH] show ?case by auto
qed

section \<open>Properties\<close>



end
