(* ===== verification/EventLoop.thy ===== *)
theory EventLoop
  imports FdObject
begin

text \<open>
  The event loop of src/el/loop.hpp and src/el/loop.cpp: registrants with their back-pointing
  indices, the two vectors of scheduled actions, and one step of the loop. The program constructs
  one \<open>Loop\<close>; its members are fields of the state, and a registrant's \<open>loop_\<close> pointer is \<open>Some ()\<close>
  or null. What \<open>on_update\<close> and an action do is a parameter (\<open>upd\<close>, \<open>run\<close>): the overriders are
  in the theories of the registrant classes.
\<close>

section \<open>State\<close>

record registrant =
  loop_ptr :: "unit option"
  registered_index :: nat

record ('n, 'os, 'act) loop_state = "('n, 'os) os_state" +
  epoll_fd :: Fd
  mid_step :: bool
  registrants :: "addr list"
  enqueued_actions :: "'act list"
  spare_actions_buf :: "'act option list"  \<comment> \<open>\<open>None\<close>: an empty function\<close>
  regs :: "addr \<Rightarrow> registrant option"       \<comment> \<open>the live registrant objects\<close>

definition new_registrant :: registrant where
  "new_registrant = \<lparr>loop_ptr = None, registered_index = SIZE_MAX\<rparr>"

definition EpollInOut_in :: u32 where "EpollInOut_in = EPOLLIN"
definition EpollInOut_out :: u32 where "EpollInOut_out = EPOLLOUT"
definition EpollInOut_inout :: u32 where "EpollInOut_inout = or EPOLLIN EPOLLOUT"

section \<open>Operations\<close>

definition make_epoll_fd ::
  "'os syscalls \<Rightarrow> (('n, 'os, 'act, 'm) loop_state_scheme, epoll_create_error + int) M" where
  "make_epoll_fd sys = bindM (syscall (sys_epoll_create1 sys)) (\<lambda>r. ret (case r of
     Inl e \<Rightarrow> Inl (mk_error ''epoll_create1'' e) | Inr fd \<Rightarrow> Inr fd))"

definition has_stuff_to_do :: "(('n, 'os, 'act, 'm) loop_state_scheme, bool) M" where
  "has_stuff_to_do = bindM (getM mid_step) (\<lambda>mid.
     thenM (tpf_assert ''!mid_step_'' (\<not> mid))
     (getM (\<lambda>s. enqueued_actions s \<noteq> [] \<or> registrants s \<noteq> [])))"

definition get_reg :: "addr \<Rightarrow> (('n, 'os, 'act, 'm) loop_state_scheme, registrant) M" where
  "get_reg r = (\<lambda>s. case regs s r of
     None \<Rightarrow> Inl (UseAfterFree ''EpollRegistrant'') | Some x \<Rightarrow> Inr (x, s))"

definition upd_reg :: "addr \<Rightarrow> (registrant \<Rightarrow> registrant) \<Rightarrow> (('n, 'os, 'act, 'm) loop_state_scheme, unit) M" where
  "upd_reg r f = bindM (get_reg r) (\<lambda>x. modM (\<lambda>s. s\<lparr>regs := (regs s)(r \<mapsto> f x)\<rparr>))"

text \<open>The argument \<open>inout\<close> is not used by the code either.\<close>

definition register_for_epoll ::
  "'os syscalls \<Rightarrow> addr \<Rightarrow> int \<Rightarrow> u32 \<Rightarrow> (('n, 'os, 'act, 'm) loop_state_scheme, epoll_ctl_error + unit) M" where
  "register_for_epoll sys registrant fd inout =
     bindM (getM epoll_fd) (\<lambda>ep.
     thenM (tpf_assert ''this->epoll_fd_.has_value()'' (fd_has_value ep))
     (bindM (get_reg registrant) (\<lambda>x.
      thenM (tpf_assert ''registrant->registered_index_ == SIZE_MAX'' (registered_index x = SIZE_MAX))
      (bindM (syscall (sys_epoll_add sys ep fd (or (or EPOLLIN EPOLLOUT) EPOLLET) registrant)) (\<lambda>res.
       case res of
         Inl e \<Rightarrow> ret (Inl (mk_error ''EPOLL_CTL_ADD'' e))
       | Inr _ \<Rightarrow>
           thenM (upd_reg registrant (loop_ptr_update (\<lambda>_. Some ())))
           (bindM (getM (\<lambda>s. length (registrants s))) (\<lambda>n.
            thenM (upd_reg registrant (registered_index_update (\<lambda>_. n)))
            (thenM (modM (\<lambda>s. s\<lparr>registrants := registrants s @ [registrant]\<rparr>))
            (ret (Inr ()))))))))))"

definition unregister_for_epoll ::
  "'os syscalls \<Rightarrow> addr \<Rightarrow> int \<Rightarrow> (('n, 'os, 'act, 'm) loop_state_scheme, epoll_ctl_error + unit) M" where
  "unregister_for_epoll sys registrant fd =
     bindM (get_reg registrant) (\<lambda>x.
     thenM (tpf_assert ''registrant->loop_ != nullptr'' (loop_ptr x \<noteq> None))
     (bindM (getM epoll_fd) (\<lambda>ep.
      thenM (tpf_assert ''loop->epoll_fd_.has_value()'' (fd_has_value ep))
      (thenM (tpf_assert ''registrant->registered_index_ != SIZE_MAX'' (registered_index x \<noteq> SIZE_MAX))
      (bindM (syscall (sys_epoll_del sys ep fd)) (\<lambda>res.
       case res of
         Inl e \<Rightarrow> ret (Inl (mk_error ''EPOLL_CTL_DEL'' e))
       | Inr _ \<Rightarrow>
           bindM (get_reg registrant) (\<lambda>x'.
           bindM (getM registrants) (\<lambda>rs.
           if rs = [] \<or> length rs \<le> registered_index x' then failM (OutOfBounds ''registrants_'')
           else
             let index = registered_index x'; back = last rs in
             thenM (upd_reg back (registered_index_update (\<lambda>_. index)))
             (thenM (modM (\<lambda>s. s\<lparr>registrants := butlast (rs[index := back])\<rparr>))
             (thenM (upd_reg registrant (registered_index_update (\<lambda>_. SIZE_MAX)))
             (thenM (upd_reg registrant (loop_ptr_update (\<lambda>_. None)))
             (ret (Inr ())))))))))))))"

text \<open>The loop over the returned events; a dead registrant's \<open>data.ptr\<close> dangles.\<close>

definition deliver ::
  "(addr \<Rightarrow> u32 \<Rightarrow> (('n, 'os, 'act, 'm) loop_state_scheme, unit) M) \<Rightarrow> addr \<times> u32
     \<Rightarrow> (('n, 'os, 'act, 'm) loop_state_scheme, unit) M" where
  "deliver upd event = bindM (get_reg (fst event)) (\<lambda>_. upd (fst event) (snd event))"

definition handle_wakeups ::
  "'os syscalls \<Rightarrow> (addr \<Rightarrow> u32 \<Rightarrow> (('n, 'os, 'act, 'm) loop_state_scheme, unit) M) \<Rightarrow> bool
     \<Rightarrow> (('n, 'os, 'act, 'm) loop_state_scheme, epoll_wait_error + unit) M" where
  "handle_wakeups sys upd blocking_wait =
     bindM (getM epoll_fd) (\<lambda>ep.
     thenM (tpf_assert ''epoll_fd_.has_value()'' (fd_has_value ep))
     (bindM (syscall_retry (sys_epoll_wait sys ep 2048 blocking_wait)) (\<lambda>res.
      case res of
        Inl e \<Rightarrow> ret (Inl (mk_error ''epoll_wait'' e))
      | Inr events \<Rightarrow> thenM (mapM (deliver upd) events) (ret (Inr ())))))"

text \<open>The loop over \<open>spare_actions_buf_\<close>, from index \<open>i\<close> with \<open>n\<close> actions to go: each action is
  swapped out of the vector before it runs.\<close>

fun run_spare ::
  "('act \<Rightarrow> (('n, 'os, 'act, 'm) loop_state_scheme, unit) M) \<Rightarrow> nat \<Rightarrow> nat
     \<Rightarrow> (('n, 'os, 'act, 'm) loop_state_scheme, unit) M" where
  "run_spare run i 0 = ret ()"
| "run_spare run i (Suc n) = bindM (getM (\<lambda>s. spare_actions_buf s)) (\<lambda>buf.
     if length buf \<le> i then failM (OutOfBounds ''spare_actions_buf_'')
     else case buf ! i of
       None \<Rightarrow> failM (NullDeref ''move_only_function'')
     | Some ac \<Rightarrow>
         thenM (modM (\<lambda>s. s\<lparr>spare_actions_buf := buf[i := None]\<rparr>))
         (thenM (run ac) (run_spare run (Suc i) n)))"

definition full_step ::
  "'os syscalls \<Rightarrow> (addr \<Rightarrow> u32 \<Rightarrow> (('n, 'os, 'act, 'm) loop_state_scheme, unit) M)
     \<Rightarrow> ('act \<Rightarrow> (('n, 'os, 'act, 'm) loop_state_scheme, unit) M)
     \<Rightarrow> (('n, 'os, 'act, 'm) loop_state_scheme, epoll_wait_error + unit) M" where
  "full_step sys upd run =
     bindM (getM mid_step) (\<lambda>mid.
     thenM (tpf_assert ''!mid_step_'' (\<not> mid))
     (thenM (modM (\<lambda>s. s\<lparr>mid_step := True\<rparr>))
     (bindM (getM (\<lambda>s. enqueued_actions s = [])) (\<lambda>blocking_wait.
      bindM (handle_wakeups sys upd blocking_wait) (\<lambda>result.
      case result of
        Inl e \<Rightarrow> ret (Inl e)
      | Inr _ \<Rightarrow>
          bindM (getM spare_actions_buf) (\<lambda>spare.
          thenM (tpf_assert ''spare_actions_buf_.empty()'' (spare = []))
          (thenM (modM (\<lambda>s. s\<lparr>spare_actions_buf := map Some (enqueued_actions s),
              enqueued_actions := []\<rparr>))
          (bindM (getM (\<lambda>s. length (spare_actions_buf s))) (\<lambda>n.
           thenM (run_spare run 0 n)
           (thenM (modM (\<lambda>s. s\<lparr>spare_actions_buf := []\<rparr>))
           (thenM (modM (\<lambda>s. s\<lparr>mid_step := False\<rparr>))
           (ret (Inr ())))))))))))))"

definition schedule :: "'act \<Rightarrow> (('n, 'os, 'act, 'm) loop_state_scheme, unit) M" where
  "schedule action = modM (\<lambda>s. s\<lparr>enqueued_actions := enqueued_actions s @ [action]\<rparr>)"

section \<open>\<open>format_epoll_events\<close>\<close>

definition note_ev :: "u32 \<Rightarrow> u32 \<Rightarrow> string \<Rightarrow> string \<times> u32 \<Rightarrow> string \<times> u32" where
  "note_ev events flag name st =
     (if and events flag \<noteq> 0 then (fst st @ name @ ''|'', or (snd st) flag) else st)"

definition epoll_flags :: "(u32 \<times> string) list" where
  "epoll_flags = [(EPOLLIN, ''EPOLLIN''), (EPOLLOUT, ''EPOLLOUT''), (EPOLLRDHUP, ''EPOLLRDHUP''),
     (EPOLLPRI, ''EPOLLPRI''), (EPOLLERR, ''EPOLLERR''), (EPOLLHUP, ''EPOLLHUP''),
     (EPOLLET, ''EPOLLET''), (EPOLLONESHOT, ''EPOLLONESHOT''), (EPOLLWAKEUP, ''EPOLLWAKEUP''),
     (EPOLLEXCLUSIVE, ''EPOLLEXCLUSIVE'')]"

definition format_epoll_events :: "u32 \<Rightarrow> string" where
  "format_epoll_events events =
     (let (builder, recognized_flags) =
        foldl (\<lambda>st (flag, name). note_ev events flag name st) ([], 0) epoll_flags;
      builder = take (max (length builder) 1 - 1) builder in
      if recognized_flags \<noteq> events then builder @ ''|'' @ to_string (unat events) else builder)"

section \<open>The registration invariant\<close>

lemma get_reg_run [simp]: "regs s r = Some x \<Longrightarrow> get_reg r s = Inr (x, s)"
  by (simp add: get_reg_def)

lemma preserves_get_reg [preserve_intros]: "preserves f (get_reg r)"
  by (auto simp: preserves_def get_reg_def split: option.splits)

lemma preserves_upd_reg [preserve_intros]:
  "(\<And>s R. f (s\<lparr>regs := R\<rparr>) = f s) \<Longrightarrow> preserves f (upd_reg r g)"
  unfolding upd_reg_def by (intro preserve_intros) simp_all

lemma upd_reg_run [simp]:
  "regs s r = Some x \<Longrightarrow> upd_reg r f s = Inr ((), s\<lparr>regs := (regs s)(r \<mapsto> f x)\<rparr>)"
  by (simp add: upd_reg_def)

text \<open>
  Vector and back-pointers agree: position \<open>i\<close> holds a live registrant whose index is \<open>i\<close>, and a
  live registrant that claims an index is at that position; any other has no loop.
\<close>

definition reg_inv :: "addr list \<Rightarrow> (addr \<Rightarrow> registrant option) \<Rightarrow> bool" where
  "reg_inv rs R \<longleftrightarrow> length rs \<le> SIZE_MAX
   \<and> (\<forall>i < length rs. \<exists>x. R (rs ! i) = Some x \<and> registered_index x = i)
   \<and> (\<forall>a x. R a = Some x \<longrightarrow>
        (if registered_index x = SIZE_MAX then loop_ptr x = None
         else loop_ptr x = Some () \<and> registered_index x < length rs \<and> rs ! registered_index x = a))"

lemma reg_inv_length: "reg_inv rs R \<Longrightarrow> length rs \<le> SIZE_MAX"
  by (simp add: reg_inv_def)

lemma reg_inv_at:
  assumes "reg_inv rs R" and "i < length rs"
  obtains x where "R (rs ! i) = Some x" "registered_index x = i" "loop_ptr x = Some ()"
proof -
  obtain x where x: "R (rs ! i) = Some x" "registered_index x = i"
    using assms by (auto simp: reg_inv_def)
  moreover have "i \<noteq> SIZE_MAX" using assms by (auto simp: reg_inv_def)
  ultimately have "loop_ptr x = Some ()" using assms(1) by (auto simp: reg_inv_def)
  with x that show ?thesis by blast
qed

lemma reg_inv_atD:
  assumes "reg_inv rs R" and "i < length rs" and "R (rs ! i) = Some y"
  shows "registered_index y = i \<and> loop_ptr y = Some ()"
proof -
  obtain x where "R (rs ! i) = Some x" "registered_index x = i" "loop_ptr x = Some ()"
    using reg_inv_at [OF assms(1,2)] .
  with assms(3) show ?thesis by simp
qed

lemma reg_inv_claim:
  assumes "reg_inv rs R" and "R a = Some x" and "registered_index x \<noteq> SIZE_MAX"
  shows "registered_index x < length rs" "rs ! registered_index x = a" "loop_ptr x = Some ()"
  using assms by (auto simp: reg_inv_def)

lemma reg_inv_free:
  assumes "reg_inv rs R" and "R a = Some x" and "registered_index x = SIZE_MAX"
  shows "a \<notin> set rs"
proof
  assume "a \<in> set rs"
  then obtain i where i: "i < length rs" "rs ! i = a" by (auto simp: in_set_conv_nth)
  obtain y where "R (rs ! i) = Some y" "registered_index y = i" using reg_inv_at [OF assms(1) i(1)] .
  with assms i reg_inv_length [OF assms(1)] show False by simp
qed

lemma reg_inv_loop_ptr:
  "reg_inv rs R \<Longrightarrow> R a = Some x \<Longrightarrow> registered_index x = SIZE_MAX \<Longrightarrow> loop_ptr x = None"
  unfolding reg_inv_def by metis

lemma reg_inv_distinct:
  assumes "reg_inv rs R"
  shows "distinct rs"
  unfolding distinct_conv_nth
proof (intro allI impI notI)
  fix i j assume ij: "i < length rs" "j < length rs" "i \<noteq> j" "rs ! i = rs ! j"
  obtain x where "R (rs ! i) = Some x" "registered_index x = i" using reg_inv_at [OF assms ij(1)] .
  moreover obtain y where "R (rs ! j) = Some y" "registered_index y = j"
    using reg_inv_at [OF assms ij(2)] .
  ultimately show False using ij by simp
qed

lemma reg_inv_add:
  assumes inv: "reg_inv rs R" and r: "R r = Some x" "registered_index x = SIZE_MAX"
    and room: "length rs < SIZE_MAX"
  shows "reg_inv (rs @ [r]) (R(r \<mapsto> x\<lparr>loop_ptr := Some (), registered_index := length rs\<rparr>))"
proof -
  have "r \<notin> set rs" using reg_inv_free [OF inv r] .
  then have ne: "rs ! i \<noteq> r" if "i < length rs" for i using that by auto
  let ?x = "x\<lparr>loop_ptr := Some (), registered_index := length rs\<rparr>"
  show ?thesis unfolding reg_inv_def
  proof (intro conjI allI impI)
    show "length (rs @ [r]) \<le> SIZE_MAX" using room by simp
  next
    fix i assume "i < length (rs @ [r])"
    then show "\<exists>y. (R(r \<mapsto> ?x)) ((rs @ [r]) ! i) = Some y \<and> registered_index y = i"
      using reg_inv_at [OF inv, of i] ne [of i] by (cases "i = length rs") (auto simp: nth_append)
  next
    fix a y assume y: "(R(r \<mapsto> ?x)) a = Some y"
    then show "if registered_index y = SIZE_MAX then loop_ptr y = None
      else loop_ptr y = Some () \<and> registered_index y < length (rs @ [r])
        \<and> (rs @ [r]) ! registered_index y = a"
      using room reg_inv_claim [OF inv, of a y] reg_inv_loop_ptr [OF inv, of a y]
      by (cases "a = r"; cases "registered_index y = SIZE_MAX") (auto simp: nth_append)
  qed
qed

lemma swap_remove_nth:
  assumes "i < length rs"
  shows "length (butlast (rs[i := last rs])) = length rs - 1"
    and "j < length rs - 1 \<Longrightarrow> butlast (rs[i := last rs]) ! j = (if j = i then last rs else rs ! j)"
  using assms by (auto simp: nth_butlast nth_list_update)

lemma reg_inv_remove:
  assumes inv: "reg_inv rs R" and r: "R r = Some x" "registered_index x = i" "i \<noteq> SIZE_MAX"
    and b: "R (last rs) = Some y"
  shows "reg_inv (butlast (rs[i := last rs]))
     ((R(last rs \<mapsto> y\<lparr>registered_index := i\<rparr>))
        (r \<mapsto> x\<lparr>registered_index := SIZE_MAX, loop_ptr := None\<rparr>))"
    (is "reg_inv ?rs ?R")
proof -
  have i: "i < length rs" "rs ! i = r" "loop_ptr x = Some ()"
    using reg_inv_claim [OF inv r(1)] r(2,3) by auto
  note sr = swap_remove_nth [OF i(1)]
  have last: "last rs = rs ! (length rs - 1)" using i(1) by (intro last_conv_nth) auto
  have y: "registered_index y = length rs - 1 \<and> loop_ptr y = Some ()"
    using reg_inv_atD [OF inv, of "length rs - 1" y] i(1) b last by auto
  have dist: "rs ! j = rs ! k \<longleftrightarrow> j = k" if "j < length rs" "k < length rs" for j k
    using reg_inv_distinct [OF inv] that by (simp add: nth_eq_iff_index_eq)
  show ?thesis unfolding reg_inv_def
  proof (intro conjI allI impI)
    show "length ?rs \<le> SIZE_MAX" using reg_inv_length [OF inv] sr(1) by simp
  next
    fix j assume j: "j < length ?rs"
    show "\<exists>z. ?R (?rs ! j) = Some z \<and> registered_index z = j"
    proof (cases "j = i")
      case True
      with j sr have "?rs ! j = last rs" "i \<noteq> length rs - 1" by auto
      moreover from this(2) have "last rs \<noteq> r" using i dist [of "length rs - 1" i] last by auto
      ultimately show ?thesis using True by simp
    next
      case False
      with j sr have rj: "?rs ! j = rs ! j" and jl: "j < length rs" "j \<noteq> length rs - 1" by auto
      then have "rs ! j \<noteq> r" "rs ! j \<noteq> last rs"
        using False i dist [of j i] dist [of j "length rs - 1"] last by auto
      moreover obtain z where "R (rs ! j) = Some z" "registered_index z = j"
        using reg_inv_at [OF inv jl(1)] by blast
      ultimately show ?thesis unfolding rj by simp
    qed
  next
    fix a z assume z: "?R a = Some z"
    show "if registered_index z = SIZE_MAX then loop_ptr z = None
      else loop_ptr z = Some () \<and> registered_index z < length ?rs \<and> ?rs ! registered_index z = a"
    proof (cases "a = r")
      case True
      with z show ?thesis by auto
    next
      case False
      show ?thesis
      proof (cases "a = last rs")
        case True
        with z False have "z = y\<lparr>registered_index := i\<rparr>" by simp
        moreover have "i \<noteq> length rs - 1" using True False i(2) last by auto
        ultimately show ?thesis using r(3) y sr i(1) True by auto
      next
        case al: False
        with z False have za: "R a = Some z" by simp
        show ?thesis
        proof (cases "registered_index z = SIZE_MAX")
          case True
          with inv za show ?thesis by (auto simp: reg_inv_def)
        next
          case neq: False
          note c = reg_inv_claim [OF inv za neq]
          have "registered_index z \<noteq> length rs - 1" using c(2) al last by auto
          moreover have "registered_index z \<noteq> i" using c(2) False i(2) by auto
          ultimately show ?thesis using c sr neq by auto
        qed
      qed
    qed
  qed
qed

lemma set_swap_remove:
  assumes "distinct rs" and "i < length rs"
  shows "set (butlast (rs[i := last rs])) = set rs - {rs ! i}"
proof -
  have ne: "rs \<noteq> []" using assms(2) by auto
  note sr = swap_remove_nth [OF assms(2)]
  have last: "last rs = rs ! (length rs - 1)" using ne by (simp add: last_conv_nth)
  have dist: "rs ! j = rs ! k \<longleftrightarrow> j = k" if "j < length rs" "k < length rs" for j k
    using assms(1) that by (simp add: nth_eq_iff_index_eq)
  show ?thesis
  proof (rule set_eqI)
    fix a
    have "a \<in> set (butlast (rs[i := last rs])) \<longleftrightarrow>
        (\<exists>j < length rs - 1. a = (if j = i then last rs else rs ! j))"
      using sr by (auto simp: in_set_conv_nth)
    also have "\<dots> \<longleftrightarrow> a \<in> set rs - {rs ! i}"
    proof
      assume "\<exists>j < length rs - 1. a = (if j = i then last rs else rs ! j)"
      then obtain j where j: "j < length rs - 1" "a = (if j = i then last rs else rs ! j)" by blast
      then show "a \<in> set rs - {rs ! i}"
        using assms(2) last dist [of j i] dist [of "length rs - 1" i] by (auto split: if_splits)
    next
      assume "a \<in> set rs - {rs ! i}"
      then obtain k where k: "k < length rs" "rs ! k = a" "k \<noteq> i"
        by (auto simp: in_set_conv_nth)
      show "\<exists>j < length rs - 1. a = (if j = i then last rs else rs ! j)"
      proof (cases "k = length rs - 1")
        case True
        with k assms(2) last show ?thesis by (intro exI [of _ i]) auto
      next
        case False
        with k show ?thesis by (intro exI [of _ k]) auto
      qed
    qed
    finally show "a \<in> set (butlast (rs[i := last rs])) \<longleftrightarrow> a \<in> set rs - {rs ! i}" .
  qed
qed

definition loop_wf :: "('n, 'os, 'act, 'm) loop_state_scheme \<Rightarrow> bool" where
  "loop_wf s \<longleftrightarrow> epoll_fd s \<noteq> -1 \<and> reg_inv (registrants s) (regs s)"

text \<open>A constructed registrant that is not registered, with room for it in the vector.\<close>

definition unregistered :: "('n, 'os, 'act, 'm) loop_state_scheme \<Rightarrow> addr \<Rightarrow> bool" where
  "unregistered s r \<longleftrightarrow> (\<exists>x. regs s r = Some x \<and> registered_index x = SIZE_MAX)
     \<and> length (registrants s) < SIZE_MAX"

lemma register_for_epoll_spec:
  assumes wf: "loop_wf s" and r: "unregistered s r"
  shows "\<exists>res s'. register_for_epoll sys r fd io s = Inr (res, s') \<and> loop_wf s'
    \<and> (case res of
         Inl _ \<Rightarrow> registrants s' = registrants s \<and> regs s' = regs s
       | Inr _ \<Rightarrow> registrants s' = registrants s @ [r] \<and> r \<notin> set (registrants s)
           \<and> (\<forall>a. a \<noteq> r \<longrightarrow> regs s' a = regs s a) \<and> regs s' r \<noteq> None)"
proof -
  obtain x where x: "regs s r = Some x" "registered_index x = SIZE_MAX"
      and room: "length (registrants s) < SIZE_MAX"
    using r by (auto simp: unregistered_def)
  have wf': "epoll_fd s \<noteq> -1" "reg_inv (registrants s) (regs s)"
    using wf by (auto simp: loop_wf_def)
  obtain res k where k: "sys_epoll_add sys (epoll_fd s) fd (or (or EPOLLIN EPOLLOUT) EPOLLET) r (os s) = (res, k)"
    by fastforce
  show ?thesis
  proof (cases res)
    case (Inl e)
    with wf' x k show ?thesis
      by (simp add: register_for_epoll_def fd_has_value_def loop_wf_def)
  next
    case (Inr u)
    let ?x = "x\<lparr>loop_ptr := Some (), registered_index := length (registrants s)\<rparr>"
    have "register_for_epoll sys r fd io s = Inr (Inr (), s\<lparr>os := k,
        regs := (regs s)(r \<mapsto> ?x), registrants := registrants s @ [r]\<rparr>)"
      using Inr wf' x k by (simp add: register_for_epoll_def fd_has_value_def)
    with wf' reg_inv_add [OF wf'(2) x room] reg_inv_free [OF wf'(2) x] show ?thesis
      by (simp add: loop_wf_def)
  qed
qed

lemma unregister_for_epoll_spec:
  assumes wf: "loop_wf s" and r: "r \<in> set (registrants s)"
  shows "\<exists>res s'. unregister_for_epoll sys r fd s = Inr (res, s') \<and> loop_wf s'
    \<and> sys_epoll_del sys (epoll_fd s) fd (os s) = (map_sum errsv (\<lambda>_. ()) res, os s')
    \<and> (case res of
         Inl _ \<Rightarrow> registrants s' = registrants s \<and> regs s' = regs s
       | Inr _ \<Rightarrow> set (registrants s') = set (registrants s) - {r}
           \<and> length (registrants s') = length (registrants s) - 1 \<and> unregistered s' r
           \<and> (\<forall>a. regs s' a = None \<longleftrightarrow> regs s a = None))"
proof -
  let ?rs = "registrants s"
  have wf': "epoll_fd s \<noteq> -1" "reg_inv ?rs (regs s)"
    using wf by (auto simp: loop_wf_def)
  obtain i where i: "i < length ?rs" "?rs ! i = r" using r by (auto simp: in_set_conv_nth)
  obtain x where x: "regs s r = Some x" "registered_index x = i" "loop_ptr x = Some ()"
    using reg_inv_at [OF wf'(2) i(1)] i(2) by auto
  have iM: "i \<noteq> SIZE_MAX" using i reg_inv_length [OF wf'(2)] by auto
  have ne: "?rs \<noteq> []" using i by auto
  have "length ?rs - 1 < length ?rs" using ne by simp
  from reg_inv_at [OF wf'(2) this] obtain y where y: "regs s (last ?rs) = Some y"
    using last_conv_nth [OF ne] by metis
  obtain res k where k: "sys_epoll_del sys (epoll_fd s) fd (os s) = (res, k)" by fastforce
  show ?thesis
  proof (cases res)
    case (Inl e)
    with wf' x k iM show ?thesis
      by (simp add: unregister_for_epoll_def fd_has_value_def loop_wf_def mk_error_def)
  next
    case (Inr u)
    let ?x = "x\<lparr>registered_index := SIZE_MAX, loop_ptr := None\<rparr>"
    let ?R = "((regs s)(last ?rs \<mapsto> y\<lparr>registered_index := i\<rparr>))(r \<mapsto> ?x)"
    let ?s' = "s\<lparr>os := k, registrants := butlast (?rs[i := last ?rs]), regs := ?R\<rparr>"
    have "unregister_for_epoll sys r fd s = Inr (Inr (), ?s')"
    proof (cases "last ?rs = r")
      case True
      with y x have "y = x" by simp
      with True Inr wf' x k iM i ne show ?thesis
        by (simp add: unregister_for_epoll_def fd_has_value_def Let_def)
    next
      case False
      with y Inr wf' x k iM i ne show ?thesis
        by (simp add: unregister_for_epoll_def fd_has_value_def Let_def)
    qed
    moreover have "reg_inv (registrants ?s') (regs ?s')"
      using reg_inv_remove [OF wf'(2) x(1,2) iM y] by simp
    moreover have "set (registrants ?s') = set ?rs - {r}"
      using set_swap_remove [OF reg_inv_distinct [OF wf'(2)] i(1)] i(2) by simp
    moreover have "length (registrants ?s') < SIZE_MAX"
      using i(1) reg_inv_length [OF wf'(2)] by simp
    ultimately show ?thesis
      using wf' x y i(1) k Inr by (auto simp: loop_wf_def unregistered_def)
  qed
qed

section \<open>The interface a registrant uses\<close>

text \<open>
  What \<open>EpollRegistrantWithFd\<close> relies on. \<open>members\<close> are the registered objects; an operation that
  reports an error has changed nothing.
\<close>

locale registry =
  fixes wf :: "'s \<Rightarrow> bool" and members :: "'s \<Rightarrow> 'r set" and outside :: "'s \<Rightarrow> 'r \<Rightarrow> bool"
    and add :: "'r \<Rightarrow> int \<Rightarrow> ('s, 'e + unit) M" and del :: "'r \<Rightarrow> int \<Rightarrow> ('s, 'e + unit) M"
  assumes add_law: "wf s \<Longrightarrow> outside s r \<Longrightarrow> \<exists>res s'. add r fd s = Inr (res, s') \<and> wf s'
      \<and> r \<notin> members s \<and> members s' = (case res of Inl _ \<Rightarrow> members s | Inr _ \<Rightarrow> insert r (members s))"
    and del_law: "wf s \<Longrightarrow> r \<in> members s \<Longrightarrow> \<exists>res s'. del r fd s = Inr (res, s') \<and> wf s'
      \<and> (case res of Inl _ \<Rightarrow> members s' = members s
         | Inr _ \<Rightarrow> members s' = members s - {r} \<and> outside s' r)"
begin

text \<open>Registering and then unregistering gives the members back, and never faults.\<close>

lemma add_then_del:
  assumes "wf s" and "outside s r" and "add r fd s = Inr (Inr u, s1)"
  shows "\<exists>res s2. del r fd s1 = Inr (res, s2) \<and> wf s2
    \<and> (case res of Inl _ \<Rightarrow> members s2 = insert r (members s) | Inr _ \<Rightarrow> members s2 = members s)"
proof -
  have 1: "wf s1" "r \<notin> members s" "members s1 = insert r (members s)"
    using add_law [OF assms(1,2), of fd] assms(3) by auto
  from del_law [OF 1(1), of r fd] 1 obtain res s2 where
    "del r fd s1 = Inr (res, s2)" "wf s2"
    "case res of Inl _ \<Rightarrow> members s2 = members s1 | Inr _ \<Rightarrow> members s2 = members s1 - {r} \<and> outside s2 r"
    by auto
  with 1 show ?thesis by (cases res) auto
qed

text \<open>Members can be taken out in any order; each removal leaves exactly the others.\<close>

lemma del_all:
  assumes ok: "\<And>r s. wf s \<Longrightarrow> r \<in> members s \<Longrightarrow> \<exists>s'. del r (fd_of r) s = Inr (Inr (), s')"
  shows "wf s \<Longrightarrow> distinct rs \<Longrightarrow> set rs \<subseteq> members s \<Longrightarrow>
    \<exists>s'. mapM (\<lambda>r. bindM (del r (fd_of r)) (\<lambda>_. ret ())) rs s = Inr ((), s') \<and> wf s'
      \<and> members s' = members s - set rs"
proof (induction rs arbitrary: s)
  case Nil
  then show ?case by simp
next
  case (Cons r rs)
  then obtain s1 where s1: "del r (fd_of r) s = Inr (Inr (), s1)" using ok by force
  with del_law [OF Cons.prems(1), of r "fd_of r"] Cons.prems(3)
  have "wf s1" "members s1 = members s - {r}" by auto
  moreover have "members s - {r} - set rs = members s - set (r # rs)" by auto
  moreover have "set rs \<subseteq> members s - {r}" using Cons.prems by auto
  ultimately show ?case using Cons.IH [of s1] Cons.prems(2) s1 by auto
qed

end

interpretation loop_reg: registry loop_wf "\<lambda>s. set (registrants s)" unregistered
  "\<lambda>r fd. register_for_epoll sys r fd io" "unregister_for_epoll sys" for sys :: "'os syscalls" and io
proof
  fix s :: "('n, 'os, 'act, 'm) loop_state_scheme" and r fd
  assume a: "loop_wf s" "unregistered s r"
  then have "r \<notin> set (registrants s)"
    using reg_inv_free by (fastforce simp: loop_wf_def unregistered_def)
  with register_for_epoll_spec [OF a, of sys fd io]
  show "\<exists>res s'. register_for_epoll sys r fd io s = Inr (res, s') \<and> loop_wf s'
      \<and> r \<notin> set (registrants s)
      \<and> set (registrants s') = (case res of Inl _ \<Rightarrow> set (registrants s)
          | Inr _ \<Rightarrow> insert r (set (registrants s)))"
    by (force split: sum.splits)
next
  fix s :: "('n, 'os, 'act, 'm) loop_state_scheme" and r fd
  assume a: "loop_wf s" "r \<in> set (registrants s)"
  from unregister_for_epoll_spec [OF a, of sys fd]
  show "\<exists>res s'. unregister_for_epoll sys r fd s = Inr (res, s') \<and> loop_wf s'
      \<and> (case res of Inl _ \<Rightarrow> set (registrants s') = set (registrants s)
         | Inr _ \<Rightarrow> set (registrants s') = set (registrants s) - {r} \<and> unregistered s' r)"
    by (force split: sum.splits)
qed

section \<open>One step of the loop\<close>

text \<open>
  What the handlers and actions do is described by \<open>J s es as\<close>: what holds once the events \<open>es\<close>
  have been delivered and the actions \<open>as\<close> have run; each may schedule further actions.
\<close>

definition handler_ok where
  "handler_ok upd sched J evs \<longleftrightarrow>
     (\<forall>s es p e rest. J s es [] \<longrightarrow> es @ (p, e) # rest = evs \<longrightarrow> regs s p \<noteq> None \<and>
       (\<exists>s'. upd p e s = Inr ((), s') \<and> J s' (es @ [(p, e)]) []
         \<and> spare_actions_buf s' = spare_actions_buf s
         \<and> enqueued_actions s' = enqueued_actions s @ sched (p, e)))"

definition action_ok where
  "action_ok run resched J evs \<longleftrightarrow>
     (\<forall>s as a. J s evs as \<longrightarrow>
       (\<exists>s'. run a s = Inr ((), s') \<and> J s' evs (as @ [a])
         \<and> spare_actions_buf s' = spare_actions_buf s
         \<and> enqueued_actions s' = enqueued_actions s @ resched a))"

text \<open>\<open>J\<close> does not depend on the loop's own bookkeeping.\<close>

definition bookkeeping_free where
  "bookkeeping_free J \<longleftrightarrow> (\<forall>s es as k b q sp. J s es as \<longrightarrow>
     J (s\<lparr>os := k\<rparr>) es as \<and> J (s\<lparr>mid_step := b\<rparr>) es as
     \<and> J (s\<lparr>enqueued_actions := q, spare_actions_buf := sp\<rparr>) es as
     \<and> J (s\<lparr>spare_actions_buf := sp\<rparr>) es as)"

lemma deliver_all:
  assumes ok: "handler_ok upd sched J evs"
  shows "J s es [] \<Longrightarrow> es @ todo = evs \<Longrightarrow>
    \<exists>s'. mapM (deliver upd) todo s = Inr ((), s') \<and> J s' evs []
      \<and> spare_actions_buf s' = spare_actions_buf s
      \<and> enqueued_actions s' = enqueued_actions s @ concat (map sched todo)"
proof (induction todo arbitrary: s es)
  case Nil
  then show ?case by simp
next
  case (Cons ev todo)
  obtain p e where ev: "ev = (p, e)" by fastforce
  from ok Cons.prems ev obtain x s1 where s1: "regs s p = Some x" "upd p e s = Inr ((), s1)"
      "J s1 (es @ [ev]) []" "spare_actions_buf s1 = spare_actions_buf s"
      "enqueued_actions s1 = enqueued_actions s @ sched ev"
    unfolding handler_ok_def by blast
  from Cons.IH [OF s1(3)] Cons.prems(2) s1 ev show ?case
    by (auto simp: deliver_def)
qed

lemma run_spare_all:
  assumes ok: "action_ok run resched J evs" and book: "bookkeeping_free J"
  shows "J s evs as \<Longrightarrow> spare_actions_buf s = replicate i None @ map Some todo \<Longrightarrow>
    \<exists>s'. run_spare run i (length todo) s = Inr ((), s') \<and> J s' evs (as @ todo)
      \<and> spare_actions_buf s' = replicate (i + length todo) None
      \<and> enqueued_actions s' = enqueued_actions s @ concat (map resched todo)"
proof (induction todo arbitrary: s i as)
  case Nil
  then show ?case by simp
next
  case (Cons a todo)
  let ?buf = "spare_actions_buf s"
  let ?s0 = "s\<lparr>spare_actions_buf := ?buf[i := None]\<rparr>"
  have buf: "i < length ?buf" "?buf ! i = Some a"
      "?buf[i := None] = replicate (Suc i) None @ map Some todo"
    using Cons.prems(2)
    by (simp_all add: nth_append list_update_append replicate_append_same)
  have "J ?s0 evs as" using book Cons.prems(1) by (auto simp: bookkeeping_free_def)
  with ok obtain s1 where s1: "run a ?s0 = Inr ((), s1)" "J s1 evs (as @ [a])"
      "spare_actions_buf s1 = replicate (Suc i) None @ map Some todo"
      "enqueued_actions s1 = enqueued_actions s @ resched a"
    unfolding action_ok_def using buf(3) by fastforce
  from Cons.IH [OF s1(2,3)] s1 buf show ?case by auto
qed

lemma full_step_run:
  assumes start: "\<not> mid_step s" "spare_actions_buf s = []" "epoll_fd s \<noteq> -1"
    and wait: "retry_eintr (sys_epoll_wait sys (epoll_fd s) 2048 (enqueued_actions s = [])) (os s)
        = Some (Inr evs, k)"
    and ok: "handler_ok upd sched J evs" "action_ok run resched J evs" "bookkeeping_free J"
    and J: "J s [] []"
  shows "\<exists>s'. full_step sys upd run s = Inr (Inr (), s')
    \<and> J s' evs (enqueued_actions s @ concat (map sched evs))
    \<and> enqueued_actions s' = concat (map resched (enqueued_actions s @ concat (map sched evs)))
    \<and> \<not> mid_step s' \<and> spare_actions_buf s' = []"
proof -
  let ?s1 = "s\<lparr>mid_step := True, os := k\<rparr>"
  have "J ?s1 [] []" using ok(3) J by (auto simp: bookkeeping_free_def)
  from deliver_all [OF ok(1) this] obtain s2 where s2:
      "mapM (deliver upd) evs ?s1 = Inr ((), s2)" "J s2 evs []" "spare_actions_buf s2 = []"
      "enqueued_actions s2 = enqueued_actions s @ concat (map sched evs)"
    using start(2) by auto
  let ?as = "enqueued_actions s2"
  let ?s3 = "s2\<lparr>spare_actions_buf := map Some ?as, enqueued_actions := []\<rparr>"
  have "?s3 = s2\<lparr>enqueued_actions := [], spare_actions_buf := map Some ?as\<rparr>" by simp
  then have "J ?s3 evs []" using ok(3) s2(2) unfolding bookkeeping_free_def by metis
  from run_spare_all [OF ok(2,3) this, of 0 ?as] obtain s4 where s4:
      "run_spare run 0 (length ?as) ?s3 = Inr ((), s4)" "J s4 evs ?as"
      "enqueued_actions s4 = concat (map resched ?as)"
    by auto
  let ?s5 = "s4\<lparr>spare_actions_buf := [], mid_step := False\<rparr>"
  have "handle_wakeups sys upd (enqueued_actions s = []) (s\<lparr>mid_step := True\<rparr>) = Inr (Inr (), s2)"
    using start(3) wait s2(1) by (simp add: handle_wakeups_def fd_has_value_def)
  then have "full_step sys upd run s = Inr (Inr (), ?s5)"
    using start(1) s2(3) s4(1) by (simp add: full_step_def)
  moreover have "J ?s5 evs ?as" using ok(3) s4(2) unfolding bookkeeping_free_def by auto
  ultimately show ?thesis using s2(4) s4(3) by auto
qed

section \<open>Formatting event sets\<close>

definition all_flags :: u32 where
  "all_flags = foldr or (map fst epoll_flags) 0"

definition present :: "u32 \<Rightarrow> (u32 \<times> string) list \<Rightarrow> string list" where
  "present events fl = map snd (filter (\<lambda>(f, n). and events f \<noteq> 0) fl)"

fun join_bar :: "string list \<Rightarrow> string" where
  "join_bar [] = []"
| "join_bar [n] = n"
| "join_bar (n # ns) = n @ ''|'' @ join_bar ns"

lemma fold_note_names:
  "fst (foldl (\<lambda>st (flag, name). note_ev events flag name st) st fl)
   = fst st @ concat (map (\<lambda>n. n @ ''|'') (present events fl))"
  by (induction fl arbitrary: st) (auto simp: note_ev_def present_def)

lemma chop_bar:
  "(let b = concat (map (\<lambda>n. n @ ''|'') ns) in take (max (length b) 1 - 1) b) = join_bar ns"
proof (induction ns rule: join_bar.induct)
  case (3 n m ns)
  let ?b = "concat (map (\<lambda>n. n @ ''|'') (m # ns))"
  have "length ?b \<ge> 1" by simp
  with 3 show ?case by (simp add: Let_def max_def split: if_splits)
qed (simp_all add: Let_def)

lemma and_single_bit: "(if and e (2 ^ n) \<noteq> 0 then 2 ^ n else 0) = and e (2 ^ n :: u32)"
proof (cases "bit e n")
  case True
  then have "and e (2 ^ n) = 2 ^ n"
    by (intro bit_word_eqI) (auto simp: bit_and_iff bit_exp_iff)
  then show ?thesis by simp
next
  case False
  then show ?thesis by (simp add: and_exp_eq_0_iff_not_bit)
qed

lemma fold_note_flags:
  assumes "\<And>f. f \<in> fst ` set fl \<Longrightarrow> \<exists>k. f = 2 ^ k"
  shows "snd (foldl (\<lambda>st (flag, name). note_ev events flag name st) st fl)
    = or (snd st) (and events (foldr or (map fst fl) 0))"
  using assms
proof (induction fl arbitrary: st)
  case Nil
  show ?case by simp
next
  case (Cons x fl)
  obtain f n where x: "x = (f, n)" by fastforce
  with Cons.prems obtain k where "f = 2 ^ k" by auto
  then have "snd (note_ev events f n st) = or (snd st) (and events f)"
    using and_single_bit [of events k] by (auto simp: note_ev_def split: if_splits)
  with Cons x show ?case by (simp add: bit.conj_disj_distrib or.assoc)
qed

lemma epoll_flags_single: "f \<in> fst ` set epoll_flags \<Longrightarrow> \<exists>k. f = 2 ^ k"
proof -
  assume "f \<in> fst ` set epoll_flags"
  then have "f \<in> {2 ^ 0, 2 ^ 1, 2 ^ 2, 2 ^ 3, 2 ^ 4, 2 ^ 13, 2 ^ 28, 2 ^ 29, 2 ^ 30, 2 ^ 31}"
    by (auto simp: epoll_flags_def epoll_flag_defs)
  then show ?thesis by blast
qed

section \<open>Properties\<close>

text \<open>Concrete states for the witnesses: two constructed registrants, a loop with one action.\<close>

definition ex_loop :: "(nat, unit, nat, (addr \<times> u32) list \<times> nat list) loop_state_scheme" where
  "ex_loop = \<lparr>lnodes = Map.empty, os = (), epoll_fd = 3, mid_step = False, registrants = [],
     enqueued_actions = [1], spare_actions_buf = [],
     regs = [Addr 5 \<mapsto> new_registrant, Addr 6 \<mapsto> new_registrant], \<dots> = ([], [])\<rparr>"

definition ex_sys :: "unit syscalls" where
  "ex_sys = idle_sys\<lparr>sys_epoll_wait := \<lambda>_ _ _ k. (Inr [(Addr 5, EPOLLIN), (Addr 6, EPOLLOUT)], k)\<rparr>"

lemma ex_loop_wf: "loop_wf ex_loop"
  by (auto simp: loop_wf_def ex_loop_def reg_inv_def new_registrant_def SIZE_MAX_def split: if_splits)

datatype reg_op = Register addr int u32 | Unregister addr int

fun reg_exec :: "'os syscalls \<Rightarrow> reg_op \<Rightarrow> (('n, 'os, 'act, 'm) loop_state_scheme, epoll_ctl_error + unit) M" where
  "reg_exec sys (Register r fd io) = register_for_epoll sys r fd io"
| "reg_exec sys (Unregister r fd) = unregister_for_epoll sys r fd"

fun reg_guard :: "reg_op \<Rightarrow> ('n, 'os, 'act, 'm) loop_state_scheme \<Rightarrow> bool" where
  "reg_guard (Register r fd io) s \<longleftrightarrow> unregistered s r"
| "reg_guard (Unregister r fd) s \<longleftrightarrow> r \<in> set (registrants s)"

fun reg_effect :: "reg_op \<Rightarrow> addr set \<Rightarrow> addr set" where
  "reg_effect (Register r fd io) A = insert r A"
| "reg_effect (Unregister r fd) A = A - {r}"

text \<open>A run of the registry, with the set of registrants its successful calls should leave.\<close>

inductive reg_run ::
  "'os syscalls \<Rightarrow> ('n, 'os, 'act, 'm) loop_state_scheme \<Rightarrow> ('n, 'os, 'act, 'm) loop_state_scheme \<Rightarrow> addr set \<Rightarrow> bool"
  for sys s0 where
  start: "reg_run sys s0 s0 (set (registrants s0))"
| ok: "reg_run sys s0 s A \<Longrightarrow> reg_guard op s \<Longrightarrow> reg_exec sys op s = Inr (Inr (), s') \<Longrightarrow>
    reg_run sys s0 s' (reg_effect op A)"
| failed: "reg_run sys s0 s A \<Longrightarrow> reg_guard op s \<Longrightarrow> reg_exec sys op s = Inr (Inl e, s') \<Longrightarrow>
    reg_run sys s0 s' A"

lemma reg_exec_law:
  assumes "loop_wf s" and "reg_guard op s"
  shows "\<exists>res s'. reg_exec sys op s = Inr (res, s') \<and> loop_wf s' \<and>
    set (registrants s') = (case res of Inl _ \<Rightarrow> set (registrants s)
      | Inr _ \<Rightarrow> reg_effect op (set (registrants s)))"
proof (cases op)
  case (Register r fd io)
  with assms loop_reg.add_law [where s = s and r = r and sys = sys and io = io and fd = fd]
  show ?thesis by (fastforce split: sum.splits)
next
  case (Unregister r fd)
  with assms loop_reg.del_law [where s = s and r = r and sys = sys and fd = fd] show ?thesis by (fastforce split: sum.splits)
qed

lemma reg_run_wf:
  assumes "reg_run sys s0 s A" and "loop_wf s0"
  shows "loop_wf s \<and> set (registrants s) = A"
  using assms(1)
proof (induction rule: reg_run.induct)
  case start
  show ?case using assms(2) by simp
next
  case (ok s A op s')
  then show ?case using reg_exec_law [of s op sys] by auto
next
  case (failed s A op e s')
  then show ?case using reg_exec_law [of s op sys] by auto
qed

text \<open>
  C7. The registry of the loop: through any run of registrations and deregistrations (an
  \<open>epoll_ctl\<close> that fails included), the vector \<open>registrants_\<close> holds exactly the registered objects,
  each once, each one's \<open>registered_index_\<close> is its position in spite of the swap with the last
  element, and the next permitted call neither fails an assertion nor leaves the vector's bounds.
\<close>

theorem loop_registry:
  assumes "reg_run sys s0 s A" and "loop_wf s0"
  shows "set (registrants s) = A \<and> distinct (registrants s)
    \<and> (\<forall>i < length (registrants s). \<exists>x. regs s (registrants s ! i) = Some x \<and> registered_index x = i)
    \<and> (\<forall>op. reg_guard op s \<longrightarrow> (\<exists>r. reg_exec sys op s = Inr r))"
proof -
  have wf: "loop_wf s" "set (registrants s) = A" using reg_run_wf [OF assms] by auto
  then have inv: "reg_inv (registrants s) (regs s)" by (simp add: loop_wf_def)
  moreover have "\<exists>r. reg_exec sys op s = Inr r" if "reg_guard op s" for op
    using reg_exec_law [OF wf(1) that] by blast
  ultimately show ?thesis
    using wf(2) reg_inv_distinct [OF inv] by (auto simp: reg_inv_def)
qed

theorem loop_registry_witness:
  "\<exists>s. reg_run ex_sys ex_loop s {Addr 6} \<and> set (registrants s) = {Addr 6} \<and> distinct (registrants s)"
proof -
  have r0: "reg_run ex_sys ex_loop ex_loop {}"
    using reg_run.start [of ex_sys ex_loop] by (simp add: ex_loop_def)
  have u0: "reg_guard (Register (Addr 5) 9 0) ex_loop"
    by (simp add: unregistered_def ex_loop_def new_registrant_def SIZE_MAX_def)
  obtain s1 where s1: "reg_exec ex_sys (Register (Addr 5) 9 0) ex_loop = Inr (Inr (), s1)"
      "regs s1 (Addr 6) = Some new_registrant" "registrants s1 = [Addr 5]"
    by (simp add: ex_loop_def register_for_epoll_def fd_has_value_def new_registrant_def
        ex_sys_def idle_sys_def)
  have r1: "reg_run ex_sys ex_loop s1 {Addr 5}" using reg_run.ok [OF r0 u0 s1(1)] by simp
  have wf1: "loop_wf s1" using reg_run_wf [OF r1 ex_loop_wf] by simp
  have u1: "reg_guard (Register (Addr 6) 10 0) s1"
    using s1 by (simp add: unregistered_def new_registrant_def SIZE_MAX_def)
  obtain s2 where s2: "reg_exec ex_sys (Register (Addr 6) 10 0) s1 = Inr (Inr (), s2)"
    using s1 wf1 by (simp add: register_for_epoll_def fd_has_value_def new_registrant_def
        ex_sys_def idle_sys_def loop_wf_def)
  have r2: "reg_run ex_sys ex_loop s2 {Addr 5, Addr 6}" using reg_run.ok [OF r1 u1 s2] by (simp add: insert_commute)
  have wf2: "loop_wf s2" "set (registrants s2) = {Addr 5, Addr 6}" using reg_run_wf [OF r2 ex_loop_wf] by simp_all
  then obtain res s3 where s3: "reg_exec ex_sys (Unregister (Addr 5) 9) s2 = Inr (res, s3)"
    using reg_exec_law [OF wf2(1), of "Unregister (Addr 5) 9" ex_sys] by auto
  have "\<exists>u. res = Inr u"
    using s3 by (auto simp: unregister_for_epoll_def bindM_eq_Inr thenM_eq_Inr ex_sys_def idle_sys_def
        syscall_def Let_def split: sum.splits if_splits)
  then have "reg_run ex_sys ex_loop s3 (reg_effect (Unregister (Addr 5) 9) {Addr 5, Addr 6})"
    using s3 wf2(2) by (intro reg_run.ok [OF r2]) auto
  then have r3: "reg_run ex_sys ex_loop s3 {Addr 6}" by simp
  from loop_registry [OF r3 ex_loop_wf] r3 show ?thesis by blast
qed

text \<open>
  C6. One step of the loop: when \<open>epoll_wait\<close> gives a batch of events (after any number of
  interruptions; it blocks exactly if no action is scheduled), each event is delivered once, in
  order, then every action scheduled before the step or by a handler of this step runs exactly
  once, first come first served, and what those actions schedule is left, in order, for the next
  step. The step ends outside \<open>mid_step_\<close> with the spare vector empty, so it can be repeated.
\<close>

theorem full_step_in_order:
  assumes "\<not> mid_step s" and "spare_actions_buf s = []" and "epoll_fd s \<noteq> -1"
    and "interrupted (sys_epoll_wait sys (epoll_fd s) 2048 (enqueued_actions s = [])) n (os s) (Inr evs) k"
    and "handler_ok upd sched J evs" and "action_ok run resched J evs" and "bookkeeping_free J"
    and "J s [] []"
  shows "\<exists>s'. full_step sys upd run s = Inr (Inr (), s')
    \<and> J s' evs (enqueued_actions s @ concat (map sched evs))
    \<and> enqueued_actions s' = concat (map resched (enqueued_actions s @ concat (map sched evs)))
    \<and> \<not> mid_step s' \<and> spare_actions_buf s' = []"
  by (rule full_step_run [OF assms(1-3) retry_eintr_interrupted [OF assms(4)] assms(5-8)])

theorem full_step_in_order_witness:
  "\<exists>s'. full_step ex_sys (\<lambda>p e. modM (loop_state.more_update (\<lambda>(es, as). (es @ [(p, e)], as))))
       (\<lambda>a. thenM (modM (loop_state.more_update (\<lambda>(es, as). (es, as @ [a])))) (schedule (a + 1))) ex_loop
       = Inr (Inr (), s')
     \<and> loop_state.more s' = ([(Addr 5, EPOLLIN), (Addr 6, EPOLLOUT)], [1]) \<and> enqueued_actions s' = [2]"
proof -
  let ?J = "\<lambda>(s :: (nat, unit, nat, (addr \<times> u32) list \<times> nat list) loop_state_scheme) es as.
    loop_state.more s = (es, as) \<and> regs s (Addr 5) \<noteq> None \<and> regs s (Addr 6) \<noteq> None"
  let ?evs = "[(Addr 5, EPOLLIN), (Addr 6, EPOLLOUT)]"
  have "\<exists>s'. full_step ex_sys (\<lambda>p e. modM (loop_state.more_update (\<lambda>(es, as). (es @ [(p, e)], as))))
       (\<lambda>a. thenM (modM (loop_state.more_update (\<lambda>(es, as). (es, as @ [a])))) (schedule (a + 1))) ex_loop
       = Inr (Inr (), s')
     \<and> ?J s' ?evs (enqueued_actions ex_loop @ concat (map (\<lambda>_. []) ?evs))
     \<and> enqueued_actions s' = concat (map (\<lambda>a. [a + 1]) (enqueued_actions ex_loop @ concat (map (\<lambda>_. []) ?evs)))
     \<and> \<not> mid_step s' \<and> spare_actions_buf s' = []"
  proof (rule full_step_in_order [where n = 0 and k = "()"])
    show "interrupted (sys_epoll_wait ex_sys (epoll_fd ex_loop) 2048 (enqueued_actions ex_loop = [])) 0
        (os ex_loop) (Inr ?evs) ()"
      by (simp add: ex_sys_def)
    show "handler_ok (\<lambda>p e. modM (loop_state.more_update (\<lambda>(es, as). (es @ [(p, e)], as)))) (\<lambda>_. []) ?J ?evs"
      unfolding handler_ok_def by (auto simp: append_eq_Cons_conv)
    show "action_ok (\<lambda>a. thenM (modM (loop_state.more_update (\<lambda>(es, as). (es, as @ [a]))))
        (schedule (a + 1))) (\<lambda>a. [a + 1]) ?J ?evs"
      unfolding action_ok_def by (auto simp: schedule_def)
    show "bookkeeping_free ?J" unfolding bookkeeping_free_def by auto
  qed (simp_all add: ex_loop_def)
  then show ?thesis by (auto simp: ex_loop_def)
qed

text \<open>
  C14. The hazard noted in \<open>handle_wakeups\<close>: if a batch names two registrants and the handler of
  the first destroys the second, the step dereferences the destroyed object; no part of the loop
  removes the remaining events of a destroyed registrant.
\<close>

theorem full_step_stale_event:
  assumes "\<not> mid_step s" and "epoll_fd s \<noteq> -1"
    and "retry_eintr (sys_epoll_wait sys (epoll_fd s) 2048 (enqueued_actions s = [])) (os s)
        = Some (Inr ((p, e) # mid @ (q, e') # rest), k)"
    and "regs s p \<noteq> None"
    and "thenM (upd p e) (mapM (deliver upd) mid) (s\<lparr>mid_step := True, os := k\<rparr>) = Inr ((), s1)"
    and "regs s1 q = None"
  shows "full_step sys upd run s = Inl (UseAfterFree ''EpollRegistrant'')"
proof -
  from assms(4) obtain x where x: "regs s p = Some x" by auto
  let ?s0 = "s\<lparr>mid_step := True, os := k\<rparr>"
  obtain s2 where s2: "upd p e ?s0 = Inr ((), s2)" "mapM (deliver upd) mid s2 = Inr ((), s1)"
    using assms(5) by (auto simp: thenM_eq_Inr)
  have "deliver upd (q, e') s1 = Inl (UseAfterFree ''EpollRegistrant'')"
    using assms(6) by (simp add: deliver_def get_reg_def bindM_def)
  with s2 x have "mapM (deliver upd) ((p, e) # mid @ (q, e') # rest) ?s0
      = Inl (UseAfterFree ''EpollRegistrant'')"
    by (simp add: deliver_def mapM_append)
  with assms(1-3) show ?thesis
    by (simp add: full_step_def handle_wakeups_def fd_has_value_def)
qed

theorem full_step_stale_event_witness:
  "full_step ex_sys (\<lambda>p e. if p = Addr 5 then modM (\<lambda>s. s\<lparr>regs := (regs s)(Addr 6 := None)\<rparr>) else ret ()) schedule ex_loop
   = Inl (UseAfterFree ''EpollRegistrant'')"
  by (rule full_step_stale_event [where p = "Addr 5" and e = EPOLLIN and mid = "[]" and q = "Addr 6"
        and e' = EPOLLOUT and rest = "[]" and k = "()"
        and ?s1.0 = "ex_loop\<lparr>mid_step := True, regs := (regs ex_loop)(Addr 6 := None)\<rparr>"])
    (simp_all add: ex_loop_def ex_sys_def)

text \<open>
  C19. An \<open>epoll_wait\<close> that fails (other than by interruption) is reported with its errno and runs
  no action, but leaves \<open>mid_step_\<close> set: asking the loop again whether it has work aborts, so the
  caller must leave its loop on that error, as \<open>main\<close> does.
\<close>

theorem full_step_wait_error:
  assumes "\<not> mid_step s" and "epoll_fd s \<noteq> -1"
    and "retry_eintr (sys_epoll_wait sys (epoll_fd s) 2048 (enqueued_actions s = [])) (os s)
        = Some (Inl e, k)"
  shows "\<exists>s'. full_step sys upd run s = Inr (Inl (mk_error ''epoll_wait'' e), s')
    \<and> enqueued_actions s' = enqueued_actions s \<and> e \<noteq> EINTR
    \<and> has_stuff_to_do s' = Inl (Abort ''!mid_step_'')"
  using assms retry_eintr_not_EINTR [OF assms(3)]
  by (simp add: full_step_def handle_wakeups_def fd_has_value_def has_stuff_to_do_def)

theorem full_step_wait_error_witness:
  "\<exists>s'. full_step (idle_sys\<lparr>sys_epoll_wait := \<lambda>_ _ _ k. (Inl 9, k)\<rparr>) (\<lambda>p e. ret ()) schedule ex_loop
      = Inr (Inl (mk_error ''epoll_wait'' 9), s')
    \<and> has_stuff_to_do s' = Inl (Abort ''!mid_step_'')"
  using full_step_wait_error [of ex_loop "idle_sys\<lparr>sys_epoll_wait := \<lambda>_ _ _ k. (Inl 9, k)\<rparr>" 9 "()"
      "\<lambda>p e. ret ()" schedule]
  by (auto simp: ex_loop_def EINTR_def)

text \<open>
  C20. \<open>format_epoll_events\<close> prints the names of the event bits that are set, in the fixed order,
  separated by bars, and the whole number in decimal after a bar exactly when some bit has no name.
\<close>

theorem format_epoll_events_reference:
  "format_epoll_events events = join_bar (present events epoll_flags)
     @ (if and events all_flags = events then [] else ''|'' @ to_string (unat events))"
proof -
  let ?f = "foldl (\<lambda>st (flag, name). note_ev events flag name st) ([], 0) epoll_flags"
  obtain b r where br: "?f = (b, r)" by fastforce
  have b: "b = concat (map (\<lambda>n. n @ ''|'') (present events epoll_flags))"
    using fold_note_names [of events "([], 0)" epoll_flags] br by simp
  have r: "r = and events all_flags"
    using fold_note_flags [where fl = epoll_flags and events = events and st = "([], 0)"] br
      epoll_flags_single by (simp add: all_flags_def)
  have t: "take (max (length b) 1 - 1) b = join_bar (present events epoll_flags)"
    using chop_bar [of "present events epoll_flags"] unfolding b Let_def .
  have "format_epoll_events events = (if r \<noteq> events
      then take (max (length b) 1 - 1) b @ ''|'' @ to_string (unat events)
      else take (max (length b) 1 - 1) b)"
    unfolding format_epoll_events_def br Let_def prod.case ..
  then show ?thesis unfolding t r by (cases "and events all_flags = events") simp_all
qed

end
