(* ===== verification/FdRegistrant.thy ===== *)
theory FdRegistrant
  imports EventLoop
begin

text \<open>
  The base class \<open>EpollRegistrantWithFd\<close> of src/el/fd_registrant.hpp and src/el/fd_registrant.cpp:
  an object that owns a descriptor and is registered with the loop for as long as it does. The
  registrant's loop pointer and index are in \<open>regs\<close>, its member \<open>fd_\<close> in \<open>reg_fd\<close>. \<open>strerror\<close> is the
  C library's function, used in the messages of thrown exceptions.
\<close>

section \<open>The class\<close>

record ('n, 'os, 'act) fdreg_state = "('n, 'os, 'act) loop_state" +
  reg_fd :: "addr \<Rightarrow> Fd option"

definition get_reg_fd :: "addr \<Rightarrow> (('n, 'os, 'act, 'm) fdreg_state_scheme, Fd) M" where
  "get_reg_fd this = (\<lambda>s. case reg_fd s this of
     None \<Rightarrow> Inl (UseAfterFree ''EpollRegistrantWithFd'') | Some fd \<Rightarrow> Inr (fd, s))"

definition set_reg_fd :: "addr \<Rightarrow> Fd option \<Rightarrow> (('n, 'os, 'act, 'm) fdreg_state_scheme, unit) M" where
  "set_reg_fd this fd = modM (\<lambda>s. s\<lparr>reg_fd := (reg_fd s)(this := fd)\<rparr>)"

text \<open>The constructor; when it throws, the member \<open>fd_\<close> is destroyed, which closes the descriptor.\<close>

definition registrant_new ::
  "'os syscalls \<Rightarrow> (int \<Rightarrow> string) \<Rightarrow> addr \<Rightarrow> int \<Rightarrow> u32 \<Rightarrow> (('n, 'os, 'act, 'm) fdreg_state_scheme, unit) M" where
  "registrant_new sys strerror this fd read_write =
     thenM (modM (\<lambda>s. s\<lparr>regs := (regs s)(this \<mapsto> new_registrant)\<rparr>))
     (thenM (set_reg_fd this (Some fd))
     (bindM (register_for_epoll sys this fd read_write) (\<lambda>result.
      case result of
        Inl e \<Rightarrow> thenM (fd_destroy sys fd) (failM (Thrown (make_msg strerror e)))
      | Inr _ \<Rightarrow> ret ())))"

definition deregister_and_close ::
  "'os syscalls \<Rightarrow> addr \<Rightarrow> (('n, 'os, 'act, 'm) fdreg_state_scheme, epoll_ctl_error + close_errsv) M" where
  "deregister_and_close sys this =
     bindM (get_reg_fd this) (\<lambda>x. case fd_release x of (fd, x') \<Rightarrow>
     thenM (set_reg_fd this (Some x'))
     (bindM (unregister_for_epoll sys this fd) (\<lambda>result.
      case result of
        Inr _ \<Rightarrow> bindM (syscall (sys_close sys fd)) (\<lambda>res.
          let errsv = (case res of Inr _ \<Rightarrow> 0 | Inl errno \<Rightarrow> errno)
          in ret (Inr \<lparr>close_errno = errsv\<rparr>))
      | Inl e \<Rightarrow> ret (Inl e))))"

definition registrant_destroy ::
  "'os syscalls \<Rightarrow> (int \<Rightarrow> string) \<Rightarrow> addr \<Rightarrow> (('n, 'os, 'act, 'm) fdreg_state_scheme, unit) M" where
  "registrant_destroy sys strerror this =
     bindM (get_reg_fd this) (\<lambda>fd.
     thenM (if fd_has_value fd
        then bindM (deregister_and_close sys this) (\<lambda>result. case result of
               Inl e \<Rightarrow> failM (Thrown (make_msg strerror e))
             | Inr _ \<Rightarrow> ret ())
        else ret ())
     (bindM (get_reg_fd this) (\<lambda>fd'.
      thenM (fd_destroy sys fd')
      (modM (\<lambda>s. s\<lparr>regs := (regs s)(this := None), reg_fd := (reg_fd s)(this := None)\<rparr>)))))"

section \<open>Lemmas\<close>

lemma get_reg_fd_run [simp]: "reg_fd s r = Some fd \<Longrightarrow> get_reg_fd r s = Inr (fd, s)"
  by (simp add: get_reg_fd_def)

text \<open>The operations of the base classes do not touch \<open>reg_fd\<close>, nor those on the registry the
  descriptor table.\<close>

lemma register_frame [preserve_intros]:
  "(\<And>s k. f (s\<lparr>os := k\<rparr>) = f s) \<Longrightarrow> (\<And>s R. f (s\<lparr>regs := R\<rparr>) = f s)
   \<Longrightarrow> (\<And>s rs. f (s\<lparr>registrants := rs\<rparr>) = f s) \<Longrightarrow> preserves f (register_for_epoll sys r fd io)"
  unfolding register_for_epoll_def by (intro preserve_intros) simp_all

lemma unregister_frame [preserve_intros]:
  "(\<And>s k. f (s\<lparr>os := k\<rparr>) = f s) \<Longrightarrow> (\<And>s R. f (s\<lparr>regs := R\<rparr>) = f s)
   \<Longrightarrow> (\<And>s rs. f (s\<lparr>registrants := rs\<rparr>) = f s) \<Longrightarrow> preserves f (unregister_for_epoll sys r fd)"
  unfolding unregister_for_epoll_def by (intro preserve_intros) simp_all

lemma registry_keeps_reg_fd:
  "preserves reg_fd (register_for_epoll sys r fd io)" "preserves reg_fd (unregister_for_epoll sys r fd)"
  by (intro preserve_intros; simp)+

lemma reg_inv_new:
  assumes "reg_inv rs R" and "R a = None"
  shows "reg_inv rs (R(a \<mapsto> new_registrant))" and "a \<notin> set rs"
proof -
  show a: "a \<notin> set rs"
  proof
    assume "a \<in> set rs"
    then obtain i where i: "i < length rs" "rs ! i = a" by (auto simp: in_set_conv_nth)
    with reg_inv_at [OF assms(1) i(1)] assms(2) show False by auto
  qed
  show "reg_inv rs (R(a \<mapsto> new_registrant))"
    unfolding reg_inv_def
  proof (intro conjI allI impI)
    show "length rs \<le> SIZE_MAX" using assms(1) by (rule reg_inv_length)
  next
    fix i assume i: "i < length rs"
    then have "rs ! i \<noteq> a" using a by auto
    with reg_inv_at [OF assms(1) i]
    show "\<exists>x. (R(a \<mapsto> new_registrant)) (rs ! i) = Some x \<and> registered_index x = i" by auto
  next
    fix b x assume "(R(a \<mapsto> new_registrant)) b = Some x"
    then show "if registered_index x = SIZE_MAX then loop_ptr x = None
      else loop_ptr x = Some () \<and> registered_index x < length rs \<and> rs ! registered_index x = b"
      using reg_inv_claim [OF assms(1), of b x] reg_inv_loop_ptr [OF assms(1), of b x]
      by (cases "b = a") (auto simp: new_registrant_def)
  qed
qed

text \<open>A registrant object in service: registered, and owner of a descriptor.\<close>

definition in_service :: "('n, 'os, 'act, 'm) fdreg_state_scheme \<Rightarrow> addr \<Rightarrow> int \<Rightarrow> bool" where
  "in_service s r fd \<longleftrightarrow> r \<in> set (registrants s) \<and> reg_fd s r = Some fd \<and> fd \<noteq> -1"

lemma registrant_new_spec:
  assumes wf: "loop_wf s" and fresh: "regs s this = None" and room: "length (registrants s) < SIZE_MAX"
    and fd: "fd \<noteq> -1"
    and new: "registrant_new sys strerror this fd io s = Inr ((), s')"
  shows "loop_wf s' \<and> in_service s' this fd
    \<and> set (registrants s') = insert this (set (registrants s)) \<and> this \<notin> set (registrants s)"
proof -
  let ?s0 = "s\<lparr>regs := (regs s)(this \<mapsto> new_registrant), reg_fd := (reg_fd s)(this \<mapsto> fd)\<rparr>"
  have notin: "this \<notin> set (registrants s)"
    and "reg_inv (registrants s) ((regs s)(this \<mapsto> new_registrant))"
    using reg_inv_new [of "registrants s" "regs s" this] wf fresh by (auto simp: loop_wf_def)
  then have wf0: "loop_wf ?s0" and un0: "unregistered ?s0 this"
    using wf room by (auto simp: loop_wf_def unregistered_def new_registrant_def)
  obtain result s1 where res: "register_for_epoll sys this fd io ?s0 = Inr (result, s1)"
    using loop_reg.add_law [OF wf0 un0, where sys = sys and io = io and fd = fd] by blast
  have r: "register_for_epoll sys this fd io ?s0 = Inr (Inr (), s')"
    using new res by (cases result) (auto simp: registrant_new_def set_reg_fd_def thenM_eq_Inr)
  from loop_reg.add_law [OF wf0 un0, where sys = sys and io = io and fd = fd] r
  have "loop_wf s'" "set (registrants s') = insert this (set (registrants s))" by auto
  moreover have "reg_fd s' this = Some fd" using preservesD [OF registry_keeps_reg_fd(1) r] by simp
  ultimately show ?thesis using fd notin by (auto simp: in_service_def)
qed

text \<open>Taking a registrant out of service, in both outcomes of \<open>EPOLL_CTL_DEL\<close>.\<close>

lemma deregister_and_close_spec:
  assumes wf: "loop_wf s" and srv: "in_service s this fd"
  shows "\<exists>res s'. deregister_and_close sys this s = Inr (res, s') \<and> loop_wf s'
    \<and> reg_fd s' this = Some (-1)
    \<and> (case res of
         Inl _ \<Rightarrow> set (registrants s') = set (registrants s)
           \<and> sys_epoll_del sys (epoll_fd s) fd (os s) = (Inl (errsv (projl res)), os s')
       | Inr c \<Rightarrow> set (registrants s') = set (registrants s) - {this} \<and> unregistered s' this
           \<and> (\<exists>k r. sys_epoll_del sys (epoll_fd s) fd (os s) = (Inr (), k)
               \<and> sys_close sys fd k = (r, os s') \<and> close_errno c = (case r of Inl e \<Rightarrow> e | Inr _ \<Rightarrow> 0)))"
proof -
  let ?s0 = "s\<lparr>reg_fd := (reg_fd s)(this \<mapsto> -1)\<rparr>"
  have wf0: "loop_wf ?s0" and mem: "this \<in> set (registrants ?s0)" and fd: "reg_fd s this = Some fd"
    using wf srv by (auto simp: loop_wf_def in_service_def)
  from unregister_for_epoll_spec [OF wf0 mem, of sys fd] obtain res s1 where
    u: "unregister_for_epoll sys this fd ?s0 = Inr (res, s1)" "loop_wf s1"
      "sys_epoll_del sys (epoll_fd ?s0) fd (os ?s0) = (map_sum errsv (\<lambda>_. ()) res, os s1)"
      "case res of Inl _ \<Rightarrow> registrants s1 = registrants ?s0 \<and> regs s1 = regs ?s0
       | Inr _ \<Rightarrow> set (registrants s1) = set (registrants ?s0) - {this}
           \<and> length (registrants s1) = length (registrants ?s0) - 1 \<and> unregistered s1 this
           \<and> (\<forall>a. regs s1 a = None \<longleftrightarrow> regs ?s0 a = None)" by blast
  have f1: "reg_fd s1 this = Some (-1)" using preservesD [OF registry_keeps_reg_fd(2) u(1)] by simp
  show ?thesis
  proof (cases res)
    case (Inl e)
    with u fd f1 show ?thesis
      by (simp add: deregister_and_close_def fd_release_def set_reg_fd_def)
  next
    case (Inr v)
    obtain r k where r: "sys_close sys fd (os s1) = (r, k)" by fastforce
    let ?s2 = "s1\<lparr>os := k\<rparr>"
    have "deregister_and_close sys this s
        = Inr (Inr \<lparr>close_errno = (case r of Inr _ \<Rightarrow> 0 | Inl e \<Rightarrow> e)\<rparr>, ?s2)"
      using Inr u fd r by (simp add: deregister_and_close_def fd_release_def set_reg_fd_def)
    moreover have "loop_wf ?s2" using u(2) by (simp add: loop_wf_def)
    moreover have "unregistered ?s2 this" using u(4) Inr by (simp add: unregistered_def)
    moreover have "(case r of Inr _ \<Rightarrow> 0 | Inl e \<Rightarrow> e) = (case r of Inl e \<Rightarrow> e | Inr _ \<Rightarrow> (0 :: int))"
      by (cases r) simp_all
    ultimately show ?thesis using u(3,4) Inr f1 r by auto
  qed
qed

text \<open>Destroying an object in service, when the deregistration succeeds.\<close>

lemma reg_inv_drop:
  assumes "reg_inv rs R" and "r \<notin> set rs"
  shows "reg_inv rs (R(r := None))"
proof -
  have "rs ! i \<noteq> r" if "i < length rs" for i using assms(2) nth_mem [OF that] by metis
  then show ?thesis using assms(1) by (auto simp: reg_inv_def)
qed

lemma registrant_destroy_spec:
  assumes wf: "loop_wf s" and srv: "in_service s this fd"
    and del: "sys_epoll_del sys (epoll_fd s) fd (os s) = (Inr (), k)"
  shows "\<exists>s'. registrant_destroy sys strerror this s = Inr ((), s') \<and> loop_wf s'
    \<and> set (registrants s') = set (registrants s) - {this} \<and> regs s' this = None
    \<and> reg_fd s' this = None \<and> os s' = snd (sys_close sys fd k)"
proof -
  from deregister_and_close_spec [OF wf srv, of sys] obtain res s1 where
    0: "deregister_and_close sys this s = Inr (res, s1)" "loop_wf s1" "reg_fd s1 this = Some (-1)"
      "case res of
         Inl _ \<Rightarrow> set (registrants s1) = set (registrants s)
           \<and> sys_epoll_del sys (epoll_fd s) fd (os s) = (Inl (errsv (projl res)), os s1)
       | Inr c \<Rightarrow> set (registrants s1) = set (registrants s) - {this} \<and> unregistered s1 this
           \<and> (\<exists>k r. sys_epoll_del sys (epoll_fd s) fd (os s) = (Inr (), k)
               \<and> sys_close sys fd k = (r, os s1) \<and> close_errno c = (case r of Inl e \<Rightarrow> e | Inr _ \<Rightarrow> 0))"
    by blast
  obtain c where c: "res = Inr c" using del 0(4) by (cases res) auto
  have 1: "set (registrants s1) = set (registrants s) - {this}" "os s1 = snd (sys_close sys fd k)"
    using 0(4) del unfolding c sum.case by (simp_all add: case_prod_beta) (metis snd_conv)
  let ?s2 = "s1\<lparr>regs := (regs s1)(this := None), reg_fd := (reg_fd s1)(this := None)\<rparr>"
  have fd: "reg_fd s this = Some fd" "fd \<noteq> -1" using srv by (auto simp: in_service_def)
  have "registrant_destroy sys strerror this s = Inr ((), ?s2)"
    using fd 0 c by (simp add: registrant_destroy_def fd_has_value_def fd_destroy_def)
  moreover have "loop_wf ?s2"
    using 0(2) 1 reg_inv_drop [of "registrants s1" "regs s1" this] by (auto simp: loop_wf_def)
  ultimately show ?thesis using 1 by auto
qed

section \<open>Properties\<close>

text \<open>Example states: the loop of \<open>ex_loop\<close> extended with the descriptors of registrants.\<close>

definition ex_fdreg :: "(nat, int list, nat, unit) fdreg_state_scheme" where
  "ex_fdreg = \<lparr>lnodes = Map.empty, os = [], epoll_fd = 3, mid_step = False, registrants = [],
     enqueued_actions = [], spare_actions_buf = [], regs = Map.empty, reg_fd = Map.empty\<rparr>"

text \<open>A kernel whose state is the log of the descriptors closed.\<close>

definition closing_sys :: "int list syscalls" where
  "closing_sys = idle_sys\<lparr>sys_close := \<lambda>fd k. (Inr (), k @ [fd])\<rparr>"

text \<open>
  C8. The life of a registrant: once its constructor has returned, the object is in service (it is
  in the loop's vector exactly once more than before and owns the descriptor); and whatever else
  has been registered or deregistered meanwhile, destroying it takes exactly it out of the vector
  and calls \<open>close\<close> exactly once on the descriptor, after the deregistration.
\<close>

theorem registrant_lifecycle:
  assumes "loop_wf s" and "regs s this = None" and "length (registrants s) < SIZE_MAX"
    and "fd \<noteq> -1" and "registrant_new sys strerror this fd io s = Inr ((), s1)"
    and "loop_wf s2" and "in_service s1 this fd \<longrightarrow> in_service s2 this fd"
    and "sys_epoll_del sys (epoll_fd s2) fd (os s2) = (Inr (), k)"
  shows "this \<notin> set (registrants s) \<and> set (registrants s1) = insert this (set (registrants s))
    \<and> loop_wf s1
    \<and> (\<exists>s3. registrant_destroy sys strerror this s2 = Inr ((), s3) \<and> loop_wf s3
        \<and> set (registrants s3) = set (registrants s2) - {this}
        \<and> regs s3 this = None \<and> reg_fd s3 this = None \<and> os s3 = snd (sys_close sys fd k))"
proof -
  note new = registrant_new_spec [OF assms(1-5)]
  then have "in_service s2 this fd" using assms(7) by simp
  from new registrant_destroy_spec [OF assms(6) this assms(8)] show ?thesis by blast
qed

lemma ex_fdreg_wf: "loop_wf ex_fdreg"
  by (simp add: loop_wf_def ex_fdreg_def reg_inv_def)

theorem registrant_lifecycle_witness:
  "\<exists>s1 s3. registrant_new closing_sys (\<lambda>_. []) (Addr 5) 9 EpollInOut_in ex_fdreg = Inr ((), s1)
    \<and> registrant_destroy closing_sys (\<lambda>_. []) (Addr 5) s1 = Inr ((), s3)
    \<and> set (registrants s1) = {Addr 5} \<and> set (registrants s3) = set (registrants s1) - {Addr 5} \<and> os s3 = [9]"
proof -
  obtain s1 where s1: "registrant_new closing_sys (\<lambda>_. []) (Addr 5) 9 EpollInOut_in ex_fdreg = Inr ((), s1)"
      "os s1 = []"
    by (simp add: registrant_new_def ex_fdreg_def set_reg_fd_def register_for_epoll_def
        fd_has_value_def closing_sys_def idle_sys_def new_registrant_def)
  have wf1: "loop_wf s1"
    using registrant_new_spec [OF ex_fdreg_wf _ _ _ s1(1)] by (simp add: ex_fdreg_def SIZE_MAX_def)
  have del: "sys_epoll_del closing_sys (epoll_fd s1) 9 (os s1) = (Inr (), [])"
    using s1(2) by (simp add: closing_sys_def idle_sys_def)
  have "Addr 5 \<notin> set (registrants ex_fdreg) \<and> set (registrants s1) = insert (Addr 5) (set (registrants ex_fdreg))
    \<and> loop_wf s1
    \<and> (\<exists>s3. registrant_destroy closing_sys (\<lambda>_. []) (Addr 5) s1 = Inr ((), s3) \<and> loop_wf s3
        \<and> set (registrants s3) = set (registrants s1) - {Addr 5}
        \<and> regs s3 (Addr 5) = None \<and> reg_fd s3 (Addr 5) = None \<and> os s3 = snd (sys_close closing_sys 9 []))"
    by (rule registrant_lifecycle [OF ex_fdreg_wf _ _ _ s1(1) wf1 _ del])
      (simp_all add: ex_fdreg_def SIZE_MAX_def)
  then show ?thesis using s1(1) by (auto simp: ex_fdreg_def closing_sys_def)
qed

text \<open>
  C15. When \<open>EPOLL_CTL_DEL\<close> fails, \<open>deregister_and_close\<close> reports the errno, but the descriptor has
  left the object and is never closed, and the object stays in the loop's vector; destroying the
  object then leaves a pointer to a dead registrant there, so the registry is no longer
  well-formed and the loop believes it has work for ever.
\<close>

theorem deregister_failure_dangles:
  assumes "loop_wf s" and "in_service s this fd" and "\<not> mid_step s"
    and "sys_epoll_del sys (epoll_fd s) fd (os s) = (Inl e, k)"
  shows "\<exists>s1 s2. deregister_and_close sys this s = Inr (Inl (mk_error ''EPOLL_CTL_DEL'' e), s1)
    \<and> os s1 = k \<and> reg_fd s1 this = Some (-1)
    \<and> registrant_destroy sys strerror this s1 = Inr ((), s2) \<and> os s2 = k
    \<and> this \<in> set (registrants s2) \<and> regs s2 this = None \<and> \<not> loop_wf s2
    \<and> has_stuff_to_do s2 = Inr (True, s2)"
proof -
  let ?s0 = "s\<lparr>reg_fd := (reg_fd s)(this \<mapsto> -1)\<rparr>" and ?s1 = "s\<lparr>os := k, reg_fd := (reg_fd s)(this \<mapsto> -1)\<rparr>"
  let ?s2 = "?s1\<lparr>regs := (regs s)(this := None), reg_fd := (reg_fd s)(this := None)\<rparr>"
  have wf0: "loop_wf ?s0" and mem: "this \<in> set (registrants ?s0)" and fd: "reg_fd s this = Some fd"
    using assms(1,2) by (auto simp: loop_wf_def in_service_def)
  then obtain i where i: "i < length (registrants s)" "registrants s ! i = this"
    by (auto simp: in_set_conv_nth)
  from assms(1) have inv: "reg_inv (registrants s) (regs s)" "epoll_fd s \<noteq> -1" by (auto simp: loop_wf_def)
  obtain x where x: "regs s this = Some x" "registered_index x = i" "loop_ptr x = Some ()"
    using reg_inv_at [OF inv(1) i(1)] i(2) by auto
  have "i \<noteq> SIZE_MAX" using i reg_inv_length [OF inv(1)] by auto
  then have "unregister_for_epoll sys this fd ?s0 = Inr (Inl (mk_error ''EPOLL_CTL_DEL'' e), ?s1)"
    using assms(4) x inv(2) by (simp add: unregister_for_epoll_def fd_has_value_def)
  then have 1: "deregister_and_close sys this s = Inr (Inl (mk_error ''EPOLL_CTL_DEL'' e), ?s1)"
    using fd by (simp add: deregister_and_close_def fd_release_def set_reg_fd_def)
  have 2: "registrant_destroy sys strerror this ?s1 = Inr ((), ?s2)"
    by (simp add: registrant_destroy_def fd_has_value_def fd_destroy_def)
  have "\<not> reg_inv (registrants s) ((regs s)(this := None))"
    using i by (auto simp: reg_inv_def)
  then have 3: "\<not> loop_wf ?s2" by (simp add: loop_wf_def)
  have 4: "has_stuff_to_do ?s2 = Inr (True, ?s2)" using assms(3) mem by (auto simp: has_stuff_to_do_def)
  show ?thesis by (intro exI [of _ ?s1] exI [of _ ?s2]) (use 1 2 3 4 mem in auto)
qed

theorem deregister_failure_dangles_witness:
  "\<exists>s s1 s2. registrant_new closing_sys (\<lambda>_. []) (Addr 5) 9 EpollInOut_in ex_fdreg = Inr ((), s)
    \<and> deregister_and_close (closing_sys\<lparr>sys_epoll_del := \<lambda>_ _ k. (Inl 12, k)\<rparr>) (Addr 5) s
        = Inr (Inl (mk_error ''EPOLL_CTL_DEL'' 12), s1)
    \<and> registrant_destroy (closing_sys\<lparr>sys_epoll_del := \<lambda>_ _ k. (Inl 12, k)\<rparr>) (\<lambda>_. []) (Addr 5) s1 = Inr ((), s2)
    \<and> os s2 = [] \<and> Addr 5 \<in> set (registrants s2)"
proof -
  let ?sys = "closing_sys\<lparr>sys_epoll_del := \<lambda>_ _ k. (Inl 12, k)\<rparr>"
  obtain s where s: "registrant_new closing_sys (\<lambda>_. []) (Addr 5) 9 EpollInOut_in ex_fdreg = Inr ((), s)"
      "os s = []" "\<not> mid_step s"
    by (simp add: registrant_new_def ex_fdreg_def set_reg_fd_def register_for_epoll_def
        fd_has_value_def closing_sys_def idle_sys_def new_registrant_def)
  have wf: "loop_wf s \<and> in_service s (Addr 5) 9"
    using registrant_new_spec [OF ex_fdreg_wf _ _ _ s(1)] by (simp add: ex_fdreg_def SIZE_MAX_def)
  have "\<exists>s1 s2. deregister_and_close ?sys (Addr 5) s = Inr (Inl (mk_error ''EPOLL_CTL_DEL'' 12), s1)
    \<and> os s1 = [] \<and> reg_fd s1 (Addr 5) = Some (-1)
    \<and> registrant_destroy ?sys (\<lambda>_. []) (Addr 5) s1 = Inr ((), s2) \<and> os s2 = []
    \<and> Addr 5 \<in> set (registrants s2) \<and> regs s2 (Addr 5) = None \<and> \<not> loop_wf s2
    \<and> has_stuff_to_do s2 = Inr (True, s2)"
    using deregister_failure_dangles [of s "Addr 5" 9 ?sys 12 "[]" "\<lambda>_. []"] wf s(2,3) by simp
  with s(1) show ?thesis by blast
qed

end
