(* ===== verification/Future.thy ===== *)
theory Future
  imports FdRegistrant
begin

text \<open>
  Futures and promises: src/el/future.hpp. A future and its promise point at each other; a value
  supplied to a promise goes to its future, which completes the registered waiters, or to the
  callback that \<open>then\<close> or \<open>wait_with_callback\<close> attached instead of the future. The templates are
  modelled at one type \<open>'v\<close> of values. Objects have addresses, which are never used twice; the
  lambdas of \<open>then_f\<close> and \<open>cancellable_then_f\<close> are the constructors \<open>ThenCb\<close> and \<open>CThenCb\<close> with what
  they capture: the address of the promise inside the lambda and the user's function, a closure of
  type \<open>'u\<close>. What closures, waiters and derived promise classes do is in the record of hooks.
\<close>

section \<open>Objects\<close>

text \<open>Addresses of list nodes: the list in a promise, the local list of
  \<open>notify_and_detach_completions\<close>, and the \<open>i\<close>-th waiter of an array in an object.\<close>

datatype naddr = ListOf addr | LocalList addr | NotifyOf addr nat

record 'v future =
  matching_promise :: "addr option"
  fut_value :: "'v option"

datatype 'u callback =
    ThenCb addr 'u
  | CThenCb addr 'u
  | UserCb 'u

datatype 'k promise_class =
    PlainPromise
  | DefaultCancellable
  | CancellableThenF
  | OtherCancellable 'k

record ('u, 'k) promise =
  pclass :: "'k promise_class"
  matching_future :: "addr option"
  attached_callback :: "'u callback option"
  attached_promise_ptr :: "addr option"
  backwards_pointed_promise :: "addr option"

text \<open>What is scheduled on the loop: a closure with the value it will get, or a task.\<close>

datatype ('u, 'v) action = Deferred 'u 'v | Task 'u

record ('os, 'u, 'v, 'k) fut_state = "(naddr, 'os, ('u, 'v) action) fdreg_state" +
  futures :: "addr \<Rightarrow> 'v future option"
  promises :: "addr \<Rightarrow> ('u, 'k) promise option"
  next_addr :: nat

text \<open>
  Code that is called through function objects and virtual functions: \<open>run_fn u v r\<close> calls a
  closure that returns a future, which it constructs at \<open>r\<close>, and destroys the closure; \<open>run_cb\<close>
  calls one that returns nothing; \<open>drop_fn\<close> destroys a closure that was not called; \<open>completed\<close> is
  \<open>future_completed\<close>, \<open>cancel_other\<close> the \<open>cancel\<close> of a promise class of another file.
\<close>

record ('s, 'u, 'v, 'k) hooks =
  run_fn :: "'u \<Rightarrow> 'v \<Rightarrow> addr \<Rightarrow> ('s, unit) M"
  run_cb :: "'u \<Rightarrow> 'v \<Rightarrow> ('s, unit) M"
  drop_fn :: "'u \<Rightarrow> ('s, unit) M"
  completed :: "naddr \<Rightarrow> ('s, unit) M"
  cancel_other :: "'k \<Rightarrow> addr \<Rightarrow> ('s, unit) M"

section \<open>Access to the objects\<close>

definition alloc :: "(('os, 'u, 'v, 'k, 'm) fut_state_scheme, addr) M" where
  "alloc = bindM (getM next_addr) (\<lambda>a.
     thenM (modM (\<lambda>s. s\<lparr>next_addr := Suc (next_addr s)\<rparr>)) (ret (Addr a)))"

definition get_fut :: "addr \<Rightarrow> (('os, 'u, 'v, 'k, 'm) fut_state_scheme, 'v future) M" where
  "get_fut f = (\<lambda>s. case futures s f of
     None \<Rightarrow> Inl (UseAfterFree ''future'') | Some F \<Rightarrow> Inr (F, s))"

definition put_fut :: "addr \<Rightarrow> 'v future option \<Rightarrow> (('os, 'u, 'v, 'k, 'm) fut_state_scheme, unit) M" where
  "put_fut f F = modM (\<lambda>s. s\<lparr>futures := (futures s)(f := F)\<rparr>)"

definition upd_fut ::
  "addr \<Rightarrow> ('v future \<Rightarrow> 'v future) \<Rightarrow> (('os, 'u, 'v, 'k, 'm) fut_state_scheme, unit) M" where
  "upd_fut f g = bindM (get_fut f) (\<lambda>F. put_fut f (Some (g F)))"

definition get_prom :: "addr \<Rightarrow> (('os, 'u, 'v, 'k, 'm) fut_state_scheme, ('u, 'k) promise) M" where
  "get_prom p = (\<lambda>s. case promises s p of
     None \<Rightarrow> Inl (UseAfterFree ''promise'') | Some P \<Rightarrow> Inr (P, s))"

definition put_prom ::
  "addr \<Rightarrow> ('u, 'k) promise option \<Rightarrow> (('os, 'u, 'v, 'k, 'm) fut_state_scheme, unit) M" where
  "put_prom p P = modM (\<lambda>s. s\<lparr>promises := (promises s)(p := P)\<rparr>)"

definition upd_prom ::
  "addr \<Rightarrow> (('u, 'k) promise \<Rightarrow> ('u, 'k) promise) \<Rightarrow> (('os, 'u, 'v, 'k, 'm) fut_state_scheme, unit) M" where
  "upd_prom p g = bindM (get_prom p) (\<lambda>P. put_prom p (Some (g P)))"

section \<open>Class \<open>future\<close>: constructors, assignment, destructor\<close>

definition fut_default :: "'v future \<Rightarrow> bool" where
  "fut_default F \<longleftrightarrow> matching_promise F = None \<and> fut_value F = None"

definition fut_is_active :: "'v future \<Rightarrow> bool" where
  "fut_is_active F \<longleftrightarrow> matching_promise F \<noteq> None"

definition fut_has_value :: "'v future \<Rightarrow> bool" where
  "fut_has_value F \<longleftrightarrow> fut_value F \<noteq> None"

definition future_of_promise :: "addr \<Rightarrow> addr \<Rightarrow> (('os, 'u, 'v, 'k, 'm) fut_state_scheme, unit) M" where
  "future_of_promise this prom =
     thenM (put_fut this (Some \<lparr>matching_promise = Some prom, fut_value = None\<rparr>))
     (bindM (get_prom prom) (\<lambda>P.
      thenM (tpf_assert ''prom->matching_future_ == nullptr'' (matching_future P = None))
      (upd_prom prom (matching_future_update (\<lambda>_. Some this)))))"

definition future_new :: "addr \<Rightarrow> (('os, 'u, 'v, 'k, 'm) fut_state_scheme, unit) M" where
  "future_new this = put_fut this (Some \<lparr>matching_promise = None, fut_value = None\<rparr>)"

definition future_of_value :: "addr \<Rightarrow> 'v \<Rightarrow> (('os, 'u, 'v, 'k, 'm) fut_state_scheme, unit) M" where
  "future_of_value this v = put_fut this (Some \<lparr>matching_promise = None, fut_value = Some v\<rparr>)"

definition future_move :: "addr \<Rightarrow> addr \<Rightarrow> (('os, 'u, 'v, 'k, 'm) fut_state_scheme, unit) M" where
  "future_move this other =
     bindM (get_fut other) (\<lambda>F.
     thenM (put_fut this (Some \<lparr>matching_promise = matching_promise F, fut_value = fut_value F\<rparr>))
     (thenM (upd_fut other (fut_value_update (\<lambda>_. None)))
     (thenM (upd_fut other (matching_promise_update (\<lambda>_. None)))
     (case matching_promise F of
        None \<Rightarrow> ret ()
      | Some p \<Rightarrow> upd_prom p (matching_future_update (\<lambda>_. Some this))))))"

definition future_assign :: "addr \<Rightarrow> addr \<Rightarrow> (('os, 'u, 'v, 'k, 'm) fut_state_scheme, unit) M" where
  "future_assign this other =
     bindM (get_fut this) (\<lambda>T.
     thenM (tpf_assert ''is_default_constructed()'' (fut_default T))
     (bindM (get_fut other) (\<lambda>F.
      thenM (upd_fut this (fut_value_update (\<lambda>_. fut_value F)))
      (thenM (upd_fut other (fut_value_update (\<lambda>_. fut_value T)))
      (bindM (get_fut other) (\<lambda>F'.
       thenM (upd_fut this (matching_promise_update (\<lambda>_. matching_promise F')))
       (thenM (upd_fut other (matching_promise_update (\<lambda>_. None)))
       (bindM (get_fut this) (\<lambda>T'.
        case matching_promise T' of
          None \<Rightarrow> ret ()
        | Some p \<Rightarrow> upd_prom p (matching_future_update (\<lambda>_. Some this)))))))))))"

text \<open>The destructor of a future is the implicit one: it does not look at the promise.\<close>

definition future_destroy :: "addr \<Rightarrow> (('os, 'u, 'v, 'k, 'm) fut_state_scheme, unit) M" where
  "future_destroy this = bindM (get_fut this) (\<lambda>_. put_fut this None)"

section \<open>Promises: constructors, assignment, destructor\<close>

definition default_but_completions :: "('u, 'k) promise \<Rightarrow> bool" where
  "default_but_completions P \<longleftrightarrow> matching_future P = None \<and> attached_callback P = None"

definition completions_empty :: "addr \<Rightarrow> (('os, 'u, 'v, 'k, 'm) fut_state_scheme, bool) M" where
  "completions_empty p = list_empty (ListOf p)"

definition prom_default_constructed :: "addr \<Rightarrow> (('os, 'u, 'v, 'k, 'm) fut_state_scheme, bool) M" where
  "prom_default_constructed p = bindM (get_prom p) (\<lambda>P.
     if default_but_completions P then completions_empty p else ret False)"

definition prom_is_active :: "('u, 'k) promise \<Rightarrow> bool" where
  "prom_is_active P \<longleftrightarrow> \<not> default_but_completions P"

definition prom_new :: "'k promise_class \<Rightarrow> addr \<Rightarrow> (('os, 'u, 'v, 'k, 'm) fut_state_scheme, unit) M" where
  "prom_new cls p = thenM (list_init (ListOf p))
     (put_prom p (Some \<lparr>pclass = cls, matching_future = None, attached_callback = None,
        attached_promise_ptr = None, backwards_pointed_promise = None\<rparr>))"

text \<open>The move constructors, base class by base class.\<close>

definition base_promise_move :: "addr \<Rightarrow> addr \<Rightarrow> (('os, 'u, 'v, 'k, 'm) fut_state_scheme, unit) M" where
  "base_promise_move this other =
     bindM (get_prom other) (\<lambda>Oth.
     thenM (upd_prom this (matching_future_update (\<lambda>_. matching_future Oth)))
     (thenM (list_move (ListOf this) (ListOf other))
     (case swap_out (attached_callback Oth) of (cb, left) \<Rightarrow>
      thenM (upd_prom this (attached_callback_update (\<lambda>_. cb)))
     (thenM (upd_prom other (attached_callback_update (\<lambda>_. left)))
     (thenM (case matching_future Oth of
          None \<Rightarrow> ret ()
        | Some f \<Rightarrow> upd_fut f (matching_promise_update (\<lambda>_. Some this)))
     (upd_prom other (matching_future_update (\<lambda>_. None))))))))"

text \<open>\<open>cancellable_promise\<close>: the pair \<open>attached_promise_ptr_\<close>, \<open>backwards_pointed_promise_\<close>.\<close>

definition attached_ptr_move :: "addr \<Rightarrow> addr \<Rightarrow> (('os, 'u, 'v, 'k, 'm) fut_state_scheme, unit) M" where
  "attached_ptr_move this other =
     bindM (get_prom other) (\<lambda>Oth.
     thenM (upd_prom this (attached_promise_ptr_update (\<lambda>_. attached_promise_ptr Oth)))
     (case attached_promise_ptr Oth of
        None \<Rightarrow> ret ()
      | Some a \<Rightarrow> bindM (get_prom a) (\<lambda>At.
          thenM (tpf_assert ''attached_promise_ptr_->backwards_pointed_promise_ == &other''
                   (backwards_pointed_promise At = Some other))
          (thenM (upd_prom a (backwards_pointed_promise_update (\<lambda>_. Some this)))
          (upd_prom other (attached_promise_ptr_update (\<lambda>_. None)))))))"

definition then_f_base_move :: "addr \<Rightarrow> addr \<Rightarrow> (('os, 'u, 'v, 'k, 'm) fut_state_scheme, unit) M" where
  "then_f_base_move this other =
     bindM (get_prom other) (\<lambda>Oth.
     thenM (upd_prom this (backwards_pointed_promise_update (\<lambda>_. backwards_pointed_promise Oth)))
     (case backwards_pointed_promise Oth of
        None \<Rightarrow> ret ()
      | Some b \<Rightarrow> bindM (get_prom b) (\<lambda>B.
          thenM (tpf_assert ''backwards_pointed_promise_->attached_promise_ptr_ == &other''
                   (attached_promise_ptr B = Some other))
          (thenM (upd_prom b (attached_promise_ptr_update (\<lambda>_. Some this)))
          (upd_prom other (backwards_pointed_promise_update (\<lambda>_. None)))))))"

definition is_plain :: "'k promise_class \<Rightarrow> bool" where
  "is_plain c \<longleftrightarrow> (case c of PlainPromise \<Rightarrow> True | _ \<Rightarrow> False)"

definition is_then_f :: "'k promise_class \<Rightarrow> bool" where
  "is_then_f c \<longleftrightarrow> (case c of CancellableThenF \<Rightarrow> True | _ \<Rightarrow> False)"

definition prom_move :: "addr \<Rightarrow> addr \<Rightarrow> (('os, 'u, 'v, 'k, 'm) fut_state_scheme, unit) M" where
  "prom_move this other =
     bindM (get_prom other) (\<lambda>Oth.
     thenM (put_prom this (Some \<lparr>pclass = pclass Oth, matching_future = None, attached_callback = None,
        attached_promise_ptr = None, backwards_pointed_promise = None\<rparr>))
     (thenM (whenM (is_then_f (pclass Oth)) (then_f_base_move this other))
     (thenM (base_promise_move this other)
     (whenM (\<not> is_plain (pclass Oth)) (attached_ptr_move this other)))))"

text \<open>The assignment operators: each asserts that its part of the target is default-constructed.\<close>

definition base_promise_assign :: "addr \<Rightarrow> addr \<Rightarrow> (('os, 'u, 'v, 'k, 'm) fut_state_scheme, unit) M" where
  "base_promise_assign this other =
     bindM (get_prom this) (\<lambda>T.
     thenM (tpf_assert ''matching_future_ == nullptr && !attached_callback_'' (default_but_completions T))
     (bindM (completions_empty this) (\<lambda>e.
      thenM (tpf_assert ''completion_notifies_.empty()'' e)
      (bindM (get_prom other) (\<lambda>Oth.
       thenM (upd_prom this (matching_future_update (\<lambda>_. matching_future Oth)))
       (thenM (upd_prom other (matching_future_update (\<lambda>_. None)))
       (thenM (upd_prom this (attached_callback_update (\<lambda>_. attached_callback Oth)))
       (thenM (upd_prom other (attached_callback_update (\<lambda>_. attached_callback T)))
       (bindM (get_prom this) (\<lambda>T'.
        thenM (case matching_future T' of
            None \<Rightarrow> ret ()
          | Some f \<Rightarrow> upd_fut f (matching_promise_update (\<lambda>_. Some this)))
        (list_swap (ListOf this) (ListOf other))))))))))))"

definition attached_ptr_assign :: "addr \<Rightarrow> addr \<Rightarrow> (('os, 'u, 'v, 'k, 'm) fut_state_scheme, unit) M" where
  "attached_ptr_assign this other =
     bindM (get_prom this) (\<lambda>T.
     thenM (tpf_assert ''attached_promise_ptr_ == nullptr'' (attached_promise_ptr T = None))
     (attached_ptr_move this other))"

definition then_f_base_assign :: "addr \<Rightarrow> addr \<Rightarrow> (('os, 'u, 'v, 'k, 'm) fut_state_scheme, unit) M" where
  "then_f_base_assign this other =
     bindM (get_prom this) (\<lambda>T.
     thenM (tpf_assert ''backwards_pointed_promise_ == nullptr'' (backwards_pointed_promise T = None))
     (then_f_base_move this other))"

definition prom_assign :: "addr \<Rightarrow> addr \<Rightarrow> (('os, 'u, 'v, 'k, 'm) fut_state_scheme, unit) M" where
  "prom_assign this other =
     bindM (get_prom this) (\<lambda>T.
     thenM (whenM (is_then_f (pclass T)) (then_f_base_assign this other))
     (thenM (base_promise_assign this other)
     (whenM (\<not> is_plain (pclass T)) (attached_ptr_assign this other))))"

text \<open>The destructors: \<open>~base_promise\<close> asserts, the list asserts that it is empty, and nothing looks
  at the pair of pointers of a cancellable promise.\<close>

definition prom_destroy :: "addr \<Rightarrow> (('os, 'u, 'v, 'k, 'm) fut_state_scheme, unit) M" where
  "prom_destroy p =
     bindM (get_prom p) (\<lambda>P.
     thenM (tpf_assert ''matching_future_ == nullptr'' (matching_future P = None))
     (thenM (tpf_assert ''!attached_callback_'' (attached_callback P = None))
     (thenM (list_destroy (ListOf p)) (put_prom p None))))"

section \<open>Waiters and values\<close>

definition prom_register_notify :: "addr \<Rightarrow> naddr \<Rightarrow> (('os, 'u, 'v, 'k, 'm) fut_state_scheme, unit) M" where
  "prom_register_notify p notify =
     bindM (is_detached notify) (\<lambda>d.
     thenM (tpf_assert ''notify->is_detached()'' d)
     (bindM (get_prom p) (\<lambda>P.
      thenM (tpf_assert ''matching_future_ != nullptr'' (matching_future P \<noteq> None))
      (thenM (tpf_assert ''!attached_callback_'' (attached_callback P = None))
      (list_push (ListOf p) notify)))))"

definition register_notify :: "addr \<Rightarrow> naddr \<Rightarrow> (('os, 'u, 'v, 'k, 'm) fut_state_scheme, unit) M" where
  "register_notify this notify =
     bindM (get_fut this) (\<lambda>F.
     bindM (deref ''matching_promise_'' (matching_promise F)) (\<lambda>p. prom_register_notify p notify))"

text \<open>\<open>future_notify::unregister_self\<close>.\<close>

definition unregister_self :: "naddr \<Rightarrow> (('os, 'u, 'v, 'k, 'm) fut_state_scheme, unit) M" where
  "unregister_self n = bindM (is_detached n) (\<lambda>d. whenM (\<not> d) (detach n))"

text \<open>The fuel bounds the waiters that are completed.\<close>

definition notify_and_detach_completions ::
  "(('os, 'u, 'v, 'k, 'm) fut_state_scheme, 'u, 'v, 'k) hooks \<Rightarrow> nat \<Rightarrow> addr
     \<Rightarrow> (('os, 'u, 'v, 'k, 'm) fut_state_scheme, unit) M" where
  "notify_and_detach_completions H n p =
     bindM alloc (\<lambda>a.
     thenM (list_move (LocalList a) (ListOf p))
     (thenM (drain (first_waiter (LocalList a)) detach (completed H) n)
     (list_destroy (LocalList a))))"

text \<open>
  The lambda of \<open>then_f\<close> and of \<open>cancellable_then_f\<close> (their bodies are the same): \<open>q\<close> is its promise,
  \<open>supply\<close> the call of \<open>supply_value_and_detach\<close> in it.
\<close>

definition splice_future :: "addr \<Rightarrow> addr \<Rightarrow> addr \<Rightarrow> addr \<Rightarrow> (('os, 'u, 'v, 'k, 'm) fut_state_scheme, unit) M" where
  "splice_future res res_promise q prom_fut =
     bindM (get_fut prom_fut) (\<lambda>PF.
     thenM (tpf_assert ''prom_fut->matching_promise_ == &prom'' (matching_promise PF = Some q))
     (thenM (upd_fut prom_fut (matching_promise_update (\<lambda>_. None)))
     (thenM (upd_prom q (matching_future_update (\<lambda>_. None)))
     (thenM (upd_fut prom_fut (matching_promise_update (\<lambda>_. Some res_promise)))
     (thenM (upd_fut res (matching_promise_update (\<lambda>_. None)))
     (upd_prom res_promise (matching_future_update (\<lambda>_. Some prom_fut))))))))"

definition splice_callback :: "addr \<Rightarrow> addr \<Rightarrow> addr \<Rightarrow> (('os, 'u, 'v, 'k, 'm) fut_state_scheme, unit) M" where
  "splice_callback res res_promise q =
     bindM (get_prom q) (\<lambda>Q.
     thenM (tpf_assert ''prom.attached_callback_'' (attached_callback Q \<noteq> None))
     (bindM (get_prom res_promise) (\<lambda>RP.
      thenM (tpf_assert ''!res_promise->attached_callback_'' (attached_callback RP = None))
      (bindM (completions_empty res_promise) (\<lambda>e.
       thenM (tpf_assert ''res_promise->completion_notifies_.empty()'' e)
       (thenM (upd_prom res_promise (attached_callback_update (\<lambda>_. attached_callback Q)))
       (thenM (upd_prom q (attached_callback_update (\<lambda>_. attached_callback RP)))
       (thenM (upd_prom res_promise (matching_future_update (\<lambda>_. None)))
       (upd_fut res (matching_promise_update (\<lambda>_. None)))))))))))"

definition then_lambda ::
  "(('os, 'u, 'v, 'k, 'm) fut_state_scheme, 'u, 'v, 'k) hooks
     \<Rightarrow> (addr \<Rightarrow> 'v \<Rightarrow> (('os, 'u, 'v, 'k, 'm) fut_state_scheme, unit) M)
     \<Rightarrow> addr \<Rightarrow> 'u \<Rightarrow> 'v \<Rightarrow> (('os, 'u, 'v, 'k, 'm) fut_state_scheme, unit) M" where
  "then_lambda H supply q fn value =
     bindM alloc (\<lambda>res.
     thenM (run_fn H fn value res)
     (bindM (get_fut res) (\<lambda>R.
      thenM (case fut_value R of
          Some w \<Rightarrow>
            thenM (tpf_assert ''res.matching_promise_ == nullptr'' (matching_promise R = None))
            (thenM (supply q w)
            (upd_fut res (fut_value_update (\<lambda>_. None))))
        | None \<Rightarrow>
            thenM (tpf_assert ''res.matching_promise_ != nullptr'' (matching_promise R \<noteq> None))
            (bindM (deref ''res.matching_promise_'' (matching_promise R)) (\<lambda>res_promise.
             bindM (get_prom res_promise) (\<lambda>RP.
             thenM (tpf_assert ''res_promise->matching_future_ == &res'' (matching_future RP = Some res))
             (bindM (get_prom q) (\<lambda>Q.
              case matching_future Q of
                Some prom_fut \<Rightarrow> splice_future res res_promise q prom_fut
              | None \<Rightarrow> splice_callback res res_promise q)))))
      )
      (future_destroy res))))"

definition call_callback ::
  "(('os, 'u, 'v, 'k, 'm) fut_state_scheme, 'u, 'v, 'k) hooks
     \<Rightarrow> (addr \<Rightarrow> 'v \<Rightarrow> (('os, 'u, 'v, 'k, 'm) fut_state_scheme, unit) M)
     \<Rightarrow> 'u callback \<Rightarrow> 'v \<Rightarrow> (('os, 'u, 'v, 'k, 'm) fut_state_scheme, unit) M" where
  "call_callback H supply cb v = (case cb of
     ThenCb q fn \<Rightarrow> then_lambda H supply q fn v
   | CThenCb q fn \<Rightarrow> then_lambda H supply q fn v
   | UserCb fn \<Rightarrow> run_cb H fn v)"

text \<open>The destructor of the function object: after a call (the closure in it is gone already), and
  without one.\<close>

definition destroy_called :: "'u callback \<Rightarrow> (('os, 'u, 'v, 'k, 'm) fut_state_scheme, unit) M" where
  "destroy_called cb = (case cb of
     ThenCb q fn \<Rightarrow> prom_destroy q | CThenCb q fn \<Rightarrow> prom_destroy q | UserCb fn \<Rightarrow> ret ())"

definition destroy_callback ::
  "(('os, 'u, 'v, 'k, 'm) fut_state_scheme, 'u, 'v, 'k) hooks \<Rightarrow> 'u callback
     \<Rightarrow> (('os, 'u, 'v, 'k, 'm) fut_state_scheme, unit) M" where
  "destroy_callback H cb = (case cb of
     ThenCb q fn \<Rightarrow> thenM (drop_fn H fn) (prom_destroy q)
   | CThenCb q fn \<Rightarrow> thenM (drop_fn H fn) (prom_destroy q)
   | UserCb fn \<Rightarrow> drop_fn H fn)"

text \<open>\<open>supply_value_and_detach\<close>: the fuel bounds the depth of callbacks that supply the next promise
  (the recursion that the code's comment fears for the stack).\<close>

primrec supply_value_and_detach ::
  "(('os, 'u, 'v, 'k, 'm) fut_state_scheme, 'u, 'v, 'k) hooks \<Rightarrow> nat \<Rightarrow> addr \<Rightarrow> 'v
     \<Rightarrow> (('os, 'u, 'v, 'k, 'm) fut_state_scheme, unit) M" where
  "supply_value_and_detach H 0 = (\<lambda>p v. failM OutOfFuel)"
| "supply_value_and_detach H (Suc n) = (\<lambda>p v.
     bindM (get_prom p) (\<lambda>P.
     case matching_future P of
       Some fut \<Rightarrow>
         thenM (upd_fut fut (fut_value_update (\<lambda>_. Some v)))
         (thenM (upd_fut fut (matching_promise_update (\<lambda>_. None)))
         (thenM (upd_prom p (matching_future_update (\<lambda>_. None)))
         (bindM (get_prom p) (\<lambda>P'.
          thenM (tpf_assert ''is_default_constructed_but_for_completions()'' (default_but_completions P'))
          (notify_and_detach_completions H n p)))))
     | None \<Rightarrow>
         thenM (tpf_assert ''attached_callback_'' (attached_callback P \<noteq> None))
         (bindM (deref ''attached_callback_'' (attached_callback P)) (\<lambda>cb.
          thenM (upd_prom p (attached_callback_update (\<lambda>_. None)))
          (bindM (prom_default_constructed p) (\<lambda>d.
           thenM (tpf_assert ''is_default_constructed()'' d)
           (thenM (call_callback H (supply_value_and_detach H n) cb v)
           (destroy_called cb))))))))"

section \<open>Attaching\<close>

definition wait_with_callback ::
  "(('os, 'u, 'v, 'k, 'm) fut_state_scheme, 'u, 'v, 'k) hooks \<Rightarrow> addr \<Rightarrow> 'u
     \<Rightarrow> (('os, 'u, 'v, 'k, 'm) fut_state_scheme, unit) M" where
  "wait_with_callback H this fn =
     bindM (get_fut this) (\<lambda>F.
     thenM (tpf_assert ''!is_default_constructed()'' (\<not> fut_default F))
     (case fut_value F of
        Some v \<Rightarrow> thenM (upd_fut this (fut_value_update (\<lambda>_. None))) (run_cb H fn v)
      | None \<Rightarrow>
          bindM (deref ''matching_promise_'' (matching_promise F)) (\<lambda>our_prom.
          bindM (get_prom our_prom) (\<lambda>P.
          thenM (tpf_assert ''!our_prom->attached_callback_'' (attached_callback P = None))
          (thenM (upd_prom our_prom (attached_callback_update (\<lambda>_. Some (UserCb fn))))
          (thenM (upd_prom our_prom (matching_future_update (\<lambda>_. None)))
          (thenM (upd_fut this (matching_promise_update (\<lambda>_. None)))
          (bindM (get_fut this) (\<lambda>F'. tpf_assert ''is_default_constructed()'' (fut_default F'))))))))))"

definition wait_with_callback_schedule_if_immediate ::
  "addr \<Rightarrow> 'u \<Rightarrow> (('os, 'u, 'v, 'k, 'm) fut_state_scheme, unit) M" where
  "wait_with_callback_schedule_if_immediate this fn =
     bindM (get_fut this) (\<lambda>F.
     thenM (tpf_assert ''!is_default_constructed()'' (\<not> fut_default F))
     (case fut_value F of
        Some v \<Rightarrow> thenM (upd_fut this (fut_value_update (\<lambda>_. None))) (schedule (Deferred fn v))
      | None \<Rightarrow>
          bindM (deref ''matching_promise_'' (matching_promise F)) (\<lambda>our_prom.
          bindM (get_prom our_prom) (\<lambda>P.
          thenM (tpf_assert ''!our_prom->attached_callback_'' (attached_callback P = None))
          (thenM (upd_prom our_prom (attached_callback_update (\<lambda>_. Some (UserCb fn))))
          (thenM (upd_prom our_prom (matching_future_update (\<lambda>_. None)))
          (thenM (upd_fut this (matching_promise_update (\<lambda>_. None)))
          (bindM (get_fut this) (\<lambda>F'. tpf_assert ''is_default_constructed()'' (fut_default F'))))))))))"

text \<open>\<open>then_f\<close>; the future it returns is constructed at \<open>fut\<close>. The local promise moves into the
  lambda and is destroyed at the end.\<close>

definition then_f ::
  "(('os, 'u, 'v, 'k, 'm) fut_state_scheme, 'u, 'v, 'k) hooks \<Rightarrow> addr \<Rightarrow> 'u \<Rightarrow> addr
     \<Rightarrow> (('os, 'u, 'v, 'k, 'm) fut_state_scheme, unit) M" where
  "then_f H this fn fut =
     bindM (get_fut this) (\<lambda>F.
     thenM (tpf_assert ''!is_default_constructed()'' (\<not> fut_default F))
     (case fut_value F of
        Some v \<Rightarrow> thenM (upd_fut this (fut_value_update (\<lambda>_. None))) (run_fn H fn v fut)
      | None \<Rightarrow>
          thenM (tpf_assert ''matching_promise_ != nullptr'' (matching_promise F \<noteq> None))
          (bindM alloc (\<lambda>prom.
           thenM (prom_new PlainPromise prom)
           (thenM (future_of_promise fut prom)
           (bindM (deref ''matching_promise_'' (matching_promise F)) (\<lambda>our_prom.
            bindM (get_prom our_prom) (\<lambda>P.
            thenM (tpf_assert ''our_prom->matching_future_ == this'' (matching_future P = Some this))
            (thenM (tpf_assert ''!our_prom->attached_callback_'' (attached_callback P = None))
            (bindM alloc (\<lambda>q.
             thenM (prom_move q prom)
             (thenM (upd_prom our_prom (attached_callback_update (\<lambda>_. Some (ThenCb q fn))))
             (thenM (upd_prom our_prom (matching_future_update (\<lambda>_. None)))
             (thenM (upd_fut this (matching_promise_update (\<lambda>_. None)))
             (bindM (get_fut this) (\<lambda>F'.
              thenM (tpf_assert ''is_default_constructed()'' (fut_default F'))
              (prom_destroy prom)))))))))))))))))"

section \<open>Cancellation\<close>

text \<open>\<open>cancellable_then_f_promise_base::attach\<close>.\<close>

definition attach :: "addr \<Rightarrow> addr \<Rightarrow> (('os, 'u, 'v, 'k, 'm) fut_state_scheme, unit) M" where
  "attach this prom =
     bindM (get_prom prom) (\<lambda>P.
     thenM (tpf_assert ''prom->attached_promise_ptr_ == nullptr'' (attached_promise_ptr P = None))
     (thenM (upd_prom this (backwards_pointed_promise_update (\<lambda>_. Some prom)))
     (upd_prom prom (attached_promise_ptr_update (\<lambda>_. Some this)))))"

text \<open>\<open>cancellable_future::matching_promise\<close> casts down to \<open>cancellable_promise\<close>.\<close>

definition cancellable_then_f ::
  "(('os, 'u, 'v, 'k, 'm) fut_state_scheme, 'u, 'v, 'k) hooks \<Rightarrow> addr \<Rightarrow> 'u \<Rightarrow> addr
     \<Rightarrow> (('os, 'u, 'v, 'k, 'm) fut_state_scheme, unit) M" where
  "cancellable_then_f H this fn fut =
     bindM (get_fut this) (\<lambda>F.
     thenM (tpf_assert ''!is_default_constructed()'' (\<not> fut_default F))
     (case fut_value F of
        Some v \<Rightarrow> thenM (upd_fut this (fut_value_update (\<lambda>_. None))) (run_fn H fn v fut)
      | None \<Rightarrow>
          thenM (tpf_assert ''matching_promise_ != nullptr'' (matching_promise F \<noteq> None))
          (bindM alloc (\<lambda>prom.
           thenM (prom_new CancellableThenF prom)
           (thenM (future_of_promise fut prom)
           (bindM (deref ''matching_promise_'' (matching_promise F)) (\<lambda>our_prom.
            bindM (get_prom our_prom) (\<lambda>P.
            if is_plain (pclass P) then failM (BadCast ''cancellable_promise'') else
            thenM (tpf_assert ''our_prom->matching_future_ == this'' (matching_future P = Some this))
            (thenM (attach prom our_prom)
            (thenM (tpf_assert ''!our_prom->attached_callback_'' (attached_callback P = None))
            (bindM alloc (\<lambda>q.
             thenM (prom_move q prom)
             (thenM (upd_prom our_prom (attached_callback_update (\<lambda>_. Some (CThenCb q fn))))
             (thenM (upd_prom our_prom (matching_future_update (\<lambda>_. None)))
             (thenM (upd_fut this (matching_promise_update (\<lambda>_. None)))
             (bindM (get_fut this) (\<lambda>F'.
              thenM (tpf_assert ''is_default_constructed()'' (fut_default F'))
              (prom_destroy prom))))))))))))))))))"

text \<open>The virtual \<open>cancel\<close> of a promise; the fuel bounds the length of the chain of attached
  promises.\<close>

primrec prom_cancel ::
  "(('os, 'u, 'v, 'k, 'm) fut_state_scheme, 'u, 'v, 'k) hooks \<Rightarrow> nat \<Rightarrow> addr
     \<Rightarrow> (('os, 'u, 'v, 'k, 'm) fut_state_scheme, unit) M" where
  "prom_cancel H 0 = (\<lambda>this. failM OutOfFuel)"
| "prom_cancel H (Suc n) = (\<lambda>this.
     bindM (get_prom this) (\<lambda>T.
     case pclass T of
       PlainPromise \<Rightarrow> failM (BadCast ''cancellable_promise'')
     | DefaultCancellable \<Rightarrow> bindM (prom_default_constructed this) (\<lambda>d.
         tpf_assert ''is_default_constructed()'' d)
     | OtherCancellable k \<Rightarrow> cancel_other H k this
     | CancellableThenF \<Rightarrow> (case backwards_pointed_promise T of
         None \<Rightarrow> ret ()
       | Some b \<Rightarrow>
           bindM (get_prom b) (\<lambda>B.
           thenM (tpf_assert ''backwards_pointed_promise->attached_promise_ptr_ == this''
                    (attached_promise_ptr B = Some this))
           (thenM (tpf_assert ''backwards_pointed_promise->matching_future_ == nullptr''
                    (matching_future B = None))
           (thenM (tpf_assert ''backwards_pointed_promise->attached_callback_''
                    (attached_callback B \<noteq> None))
           (thenM (upd_prom b (attached_promise_ptr_update (\<lambda>_. None)))
           (thenM (upd_prom this (backwards_pointed_promise_update (\<lambda>_. None)))
           (bindM (deref ''attached_callback_'' (attached_callback B)) (\<lambda>cb.
            thenM (upd_prom b (attached_callback_update (\<lambda>_. None)))
            (thenM (destroy_callback H cb)
            (prom_cancel H n b))))))))))))"

definition future_cancel ::
  "(('os, 'u, 'v, 'k, 'm) fut_state_scheme, 'u, 'v, 'k) hooks \<Rightarrow> nat \<Rightarrow> addr
     \<Rightarrow> (('os, 'u, 'v, 'k, 'm) fut_state_scheme, unit) M" where
  "future_cancel H n this =
     bindM (get_fut this) (\<lambda>F.
     if fut_value F \<noteq> None then
       thenM (tpf_assert ''matching_promise_ == nullptr'' (matching_promise F = None))
       (thenM (upd_fut this (fut_value_update (\<lambda>_. None)))
       (bindM (get_fut this) (\<lambda>F'. tpf_assert ''is_default_constructed()'' (fut_default F'))))
     else
       thenM (tpf_assert ''matching_promise_ != nullptr'' (matching_promise F \<noteq> None))
       (bindM (deref ''matching_promise_'' (matching_promise F)) (\<lambda>prom.
        bindM (completions_empty prom) (\<lambda>e.
        thenM (tpf_assert ''matching_promise_->completion_notifies_.empty()'' e)
        (bindM (get_prom prom) (\<lambda>P.
         thenM (tpf_assert ''prom->matching_future_ == this'' (matching_future P = Some this))
         (thenM (upd_prom prom (matching_future_update (\<lambda>_. None)))
         (thenM (upd_fut this (matching_promise_update (\<lambda>_. None)))
         (thenM (prom_cancel H n prom)
         (bindM (get_fut this) (\<lambda>F'. tpf_assert ''is_default_constructed()'' (fut_default F'))))))))))))"

text \<open>The destructor of \<open>self_cancellable_future\<close>.\<close>

definition self_cancellable_destroy ::
  "(('os, 'u, 'v, 'k, 'm) fut_state_scheme, 'u, 'v, 'k) hooks \<Rightarrow> nat \<Rightarrow> addr
     \<Rightarrow> (('os, 'u, 'v, 'k, 'm) fut_state_scheme, unit) M" where
  "self_cancellable_destroy H n this =
     bindM (get_fut this) (\<lambda>F.
     thenM (whenM (\<not> fut_default F) (future_cancel H n this))
     (future_destroy this))"

section \<open>Characteristic equations\<close>

lemma alloc_run [simp]: "alloc s = Inr (Addr (next_addr s), s\<lparr>next_addr := Suc (next_addr s)\<rparr>)"
  by (simp add: alloc_def)

lemma get_fut_run [simp]: "futures s f = Some F \<Longrightarrow> get_fut f s = Inr (F, s)"
  by (simp add: get_fut_def)

lemma put_fut_run [simp]: "put_fut f F s = Inr ((), s\<lparr>futures := (futures s)(f := F)\<rparr>)"
  by (simp add: put_fut_def)

lemma upd_fut_run [simp]:
  "futures s f = Some F \<Longrightarrow> upd_fut f g s = Inr ((), s\<lparr>futures := (futures s)(f \<mapsto> g F)\<rparr>)"
  by (simp add: upd_fut_def)

lemma get_prom_run [simp]: "promises s p = Some P \<Longrightarrow> get_prom p s = Inr (P, s)"
  by (simp add: get_prom_def)

lemma put_prom_run [simp]: "put_prom p P s = Inr ((), s\<lparr>promises := (promises s)(p := P)\<rparr>)"
  by (simp add: put_prom_def)

lemma upd_prom_run [simp]:
  "promises s p = Some P \<Longrightarrow> upd_prom p g s = Inr ((), s\<lparr>promises := (promises s)(p \<mapsto> g P)\<rparr>)"
  by (simp add: upd_prom_def)

text \<open>The list of a promise without waiters is one node that points at itself.\<close>

definition self_node :: "'n \<Rightarrow> 'n lnode" where
  "self_node l = \<lparr>next_ptr = Some l, prev_ptr = Some l\<rparr>"

lemma clist_self: "clist h l [] \<longleftrightarrow> h l = Some (self_node l)"
  by (cases "h l") (auto simp: clist_Nil nextp_def prevp_def self_node_def)

lemma list_init_run [simp]:
  "list_init l s = Inr ((), s\<lparr>lnodes := (lnodes s)(l \<mapsto> self_node l)\<rparr>)"
  by (simp add: list_init_def node_init_def upd_next_def upd_prev_def self_node_def)

lemma list_empty_run [simp]: "lnodes s l = Some (self_node l) \<Longrightarrow> list_empty l s = Inr (True, s)"
  using list_empty_spec [of s l "[]"] by (simp add: clist_self)

lemma list_destroy_run [simp]:
  "lnodes s l = Some (self_node l) \<Longrightarrow> list_destroy l s = Inr ((), s\<lparr>lnodes := (lnodes s)(l := None)\<rparr>)"
  using list_destroy_spec [of s l "[]"] by (simp add: clist_self)

lemma list_move_run [simp]:
  assumes "lnodes s other = Some (self_node other)" and "this \<noteq> other"
  shows "list_move this other s = Inr ((), s\<lparr>lnodes := (lnodes s)(this \<mapsto> self_node this)\<rparr>)"
proof -
  from list_move_spec [of s other "[]" this] assms obtain h' where
    h': "list_move this other s = Inr ((), s\<lparr>lnodes := h'\<rparr>)" "clist h' this []" "clist h' other []"
      "\<forall>a. a \<noteq> this \<and> a \<noteq> other \<longrightarrow> h' a = lnodes s a"
    by (auto simp: clist_self)
  then have "h' = (lnodes s)(this \<mapsto> self_node this)"
    using assms by (auto simp: fun_eq_iff clist_self)
  with h'(1) show ?thesis by simp
qed

lemma first_waiter_run [simp]:
  "lnodes s l = Some (self_node l) \<Longrightarrow> first_waiter l s = Inr (None, s)"
  using first_waiter_spec [of s l "[]"] by (simp add: clist_self)

lemma completions_empty_run [simp]:
  "lnodes s (ListOf p) = Some (self_node (ListOf p)) \<Longrightarrow> completions_empty p s = Inr (True, s)"
  by (simp add: completions_empty_def)

lemma drain_none [simp]:
  "first s = Inr (None, s) \<Longrightarrow> 0 < n \<Longrightarrow> drain first remove visit n s = Inr ((), s)"
  by (cases n) simp_all

section \<open>States with unused addresses\<close>

text \<open>Nothing lives at the addresses that \<open>alloc\<close> has not given out.\<close>

definition unused :: "('os, 'u, 'v, 'k, 'm) fut_state_scheme \<Rightarrow> addr \<Rightarrow> bool" where
  "unused s a \<longleftrightarrow> futures s a = None \<and> promises s a = None \<and> lnodes s (ListOf a) = None
     \<and> lnodes s (LocalList a) = None"

definition fresh_ok :: "('os, 'u, 'v, 'k, 'm) fut_state_scheme \<Rightarrow> bool" where
  "fresh_ok s \<longleftrightarrow> (\<forall>n \<ge> next_addr s. unused s (Addr n))"

definition quiet :: "('os, 'u, 'v, 'k, 'm) fut_state_scheme \<Rightarrow> addr \<Rightarrow> bool" where
  "quiet s p \<longleftrightarrow> lnodes s (ListOf p) = Some (self_node (ListOf p))"

lemma fresh_okD: "fresh_ok s \<Longrightarrow> next_addr s \<le> n \<Longrightarrow> futures s (Addr n) = None"
  "fresh_ok s \<Longrightarrow> next_addr s \<le> n \<Longrightarrow> promises s (Addr n) = None"
  "fresh_ok s \<Longrightarrow> next_addr s \<le> n \<Longrightarrow> lnodes s (ListOf (Addr n)) = None"
  "fresh_ok s \<Longrightarrow> next_addr s \<le> n \<Longrightarrow> lnodes s (LocalList (Addr n)) = None"
  by (auto simp: fresh_ok_def unused_def)

lemma fresh_ok_neq:
  assumes "fresh_ok s" and "next_addr s \<le> n"
  shows "futures s a = Some F \<Longrightarrow> a \<noteq> Addr n \<and> Addr n \<noteq> a"
    "promises s a = Some P \<Longrightarrow> a \<noteq> Addr n \<and> Addr n \<noteq> a"
    "quiet s a \<Longrightarrow> a \<noteq> Addr n \<and> Addr n \<noteq> a"
  using fresh_okD [OF assms] by (auto simp: quiet_def)

lemma fun_upd_None [simp]: "m a = None \<Longrightarrow> m(a := None) = m"
  by (rule fun_upd_idem)

lemma fun_upd_drop [simp]: "m a = None \<Longrightarrow> (m(a \<mapsto> x))(a := None) = m"
  by (simp add: fun_upd_idem)

lemma prom_new_run [simp]:
  "prom_new cls p s = Inr ((), s\<lparr>lnodes := (lnodes s)(ListOf p \<mapsto> self_node (ListOf p)),
     promises := (promises s)(p \<mapsto> \<lparr>pclass = cls, matching_future = None, attached_callback = None,
        attached_promise_ptr = None, backwards_pointed_promise = None\<rparr>)\<rparr>)"
  by (simp add: prom_new_def)

lemma prom_destroy_run [simp]:
  assumes "promises s p = Some P" and "matching_future P = None" and "attached_callback P = None"
    and "lnodes s (ListOf p) = Some (self_node (ListOf p))"
  shows "prom_destroy p s = Inr ((), s\<lparr>lnodes := (lnodes s)(ListOf p := None),
     promises := (promises s)(p := None)\<rparr>)"
  using assms by (simp add: prom_destroy_def)

text \<open>The local promise of \<open>then_f\<close> moves into the lambda and is destroyed.\<close>

lemma move_into_lambda:
  assumes "promises s p = Some \<lparr>pclass = PlainPromise, matching_future = Some f, attached_callback = None,
        attached_promise_ptr = None, backwards_pointed_promise = None\<rparr>"
    and "futures s f = Some F" and "quiet s p" and "q \<noteq> p" and "p \<noteq> q"
  shows "prom_move q p s = Inr ((), s\<lparr>lnodes := (lnodes s)(ListOf q \<mapsto> self_node (ListOf q)),
     futures := (futures s)(f \<mapsto> F\<lparr>matching_promise := Some q\<rparr>),
     promises := (promises s)(q \<mapsto> \<lparr>pclass = PlainPromise, matching_future = Some f, attached_callback = None,
        attached_promise_ptr = None, backwards_pointed_promise = None\<rparr>,
       p \<mapsto> \<lparr>pclass = PlainPromise, matching_future = None, attached_callback = None,
        attached_promise_ptr = None, backwards_pointed_promise = None\<rparr>)\<rparr>)"
  using assms by (simp add: prom_move_def is_then_f_def is_plain_def base_promise_move_def quiet_def)

section \<open>\<open>then\<close> on a pending future\<close>

text \<open>A promise in the state that \<open>then_f\<close> leaves it in: nothing but its future.\<close>

abbreviation linked_promise :: "'k promise_class \<Rightarrow> addr \<Rightarrow> ('u, 'k) promise" where
  "linked_promise c f \<equiv> \<lparr>pclass = c, matching_future = Some f, attached_callback = None,
     attached_promise_ptr = None, backwards_pointed_promise = None\<rparr>"

abbreviation pending_future :: "addr \<Rightarrow> 'v future" where
  "pending_future p \<equiv> \<lparr>matching_promise = Some p, fut_value = None\<rparr>"

abbreviation empty_future :: "'v future" where
  "empty_future \<equiv> \<lparr>matching_promise = None, fut_value = None\<rparr>"

abbreviation ready_future :: "'v \<Rightarrow> 'v future" where
  "ready_future v \<equiv> \<lparr>matching_promise = None, fut_value = Some v\<rparr>"

lemma then_f_pending:
  assumes f: "futures s f = Some (pending_future p)"
    and p: "promises s p = Some P" "matching_future P = Some f" "attached_callback P = None"
    and fresh: "fresh_ok s" and r: "r \<noteq> f" "f \<noteq> r" and q: "q = Addr (Suc (next_addr s))"
  shows "then_f H f fn r s = Inr ((), s\<lparr>
      next_addr := Suc (Suc (next_addr s)),
      futures := (futures s)(r \<mapsto> pending_future q, f \<mapsto> empty_future),
      lnodes := (lnodes s)(ListOf q \<mapsto> self_node (ListOf q)),
      promises := (promises s)(q \<mapsto> linked_promise PlainPromise r,
         p \<mapsto> P\<lparr>attached_callback := Some (ThenCb q fn), matching_future := None\<rparr>)\<rparr>)"
proof -
  let ?a = "Addr (next_addr s)"
  have ne: "p \<noteq> ?a" "?a \<noteq> p" "p \<noteq> q" "q \<noteq> p"
    using fresh_ok_neq(2) [OF fresh _ p(1)] q by auto
  have new: "lnodes s (ListOf ?a) = None" "promises s ?a = None"
    using fresh_okD [OF fresh] by simp_all
  show ?thesis
    by (simp add: then_f_def fut_default_def future_of_promise_def move_into_lambda quiet_def
      f p ne ne [unfolded q] new r q)
qed

text \<open>The promise of \<open>cancellable_then_f\<close> moves with its back pointer.\<close>

lemma move_then_f_promise:
  assumes "promises s p = Some ((linked_promise CancellableThenF f)\<lparr>backwards_pointed_promise := Some b\<rparr>)"
    and "promises s b = Some B" "attached_promise_ptr B = Some p"
    and "futures s f = Some F" and "lnodes s (ListOf p) = Some (self_node (ListOf p))"
    and "q \<noteq> p" "p \<noteq> q" "p \<noteq> b" "b \<noteq> p" "q \<noteq> b" "b \<noteq> q"
  shows "prom_move q p s = Inr ((), s\<lparr>lnodes := (lnodes s)(ListOf q \<mapsto> self_node (ListOf q)),
     futures := (futures s)(f \<mapsto> F\<lparr>matching_promise := Some q\<rparr>),
     promises := (promises s)(b \<mapsto> B\<lparr>attached_promise_ptr := Some q\<rparr>,
       p \<mapsto> (linked_promise CancellableThenF f)\<lparr>matching_future := None\<rparr>,
       q \<mapsto> (linked_promise CancellableThenF f)\<lparr>backwards_pointed_promise := Some b\<rparr>)\<rparr>)"
  by (simp add: prom_move_def is_then_f_def is_plain_def then_f_base_move_def base_promise_move_def
      attached_ptr_move_def assms)

lemma cancellable_then_f_pending:
  assumes f: "futures s f = Some (pending_future p)"
    and p: "promises s p = Some P" "matching_future P = Some f" "attached_callback P = None"
      "attached_promise_ptr P = None" "\<not> is_plain (pclass P)"
    and fresh: "fresh_ok s" and r: "r \<noteq> f" "f \<noteq> r" and q: "q = Addr (Suc (next_addr s))"
  shows "cancellable_then_f H f fn r s = Inr ((), s\<lparr>
      next_addr := Suc (Suc (next_addr s)),
      futures := (futures s)(r \<mapsto> pending_future q, f \<mapsto> empty_future),
      lnodes := (lnodes s)(ListOf q \<mapsto> self_node (ListOf q)),
      promises := (promises s)(q \<mapsto> (linked_promise CancellableThenF r)\<lparr>backwards_pointed_promise := Some p\<rparr>,
         p \<mapsto> P\<lparr>attached_promise_ptr := Some q, attached_callback := Some (CThenCb q fn),
            matching_future := None\<rparr>)\<rparr>)"
proof -
  let ?a = "Addr (next_addr s)"
  have ne: "p \<noteq> ?a" "?a \<noteq> p" "p \<noteq> q" "q \<noteq> p"
    using fresh_ok_neq(2) [OF fresh _ p(1)] q by auto
  have new: "lnodes s (ListOf ?a) = None" "promises s ?a = None"
    using fresh_okD [OF fresh] by simp_all
  show ?thesis
    by (simp add: cancellable_then_f_def fut_default_def future_of_promise_def move_then_f_promise attach_def
      f p ne ne [unfolded q] new r q)
qed

end
