(* ===== verification/FutureChain.thy ===== *)
theory FutureChain
  imports Future
begin

text \<open>
  Chains of continuations over src/el/future.hpp: what \<open>then\<close> and \<open>cancellable_then\<close> build on a
  pending future, what supplying the first promise or cancelling the last future does to all of it,
  and the theorems that a value may arrive before, between or after the continuations are attached.
\<close>

section \<open>Chains of \<open>then\<close>\<close>

text \<open>
  \<open>chain s p qs r\<close>: promise \<open>p\<close> has an attached callback whose promise is the first of \<open>qs\<close>, and so
  on; the last promise is paired with the future \<open>r\<close>. Each \<open>(q, u)\<close> is the promise of a lambda and
  the closure it runs.
\<close>

fun chain :: "('os, 'u, 'v, 'k, 'm) fut_state_scheme \<Rightarrow> addr \<Rightarrow> (addr \<times> 'u) list \<Rightarrow> addr \<Rightarrow> bool" where
  "chain s p [] r \<longleftrightarrow> quiet s p \<and> futures s r = Some (pending_future p)
     \<and> (\<exists>P. promises s p = Some P \<and> matching_future P = Some r \<and> attached_callback P = None)"
| "chain s p (qu # qs) r \<longleftrightarrow> quiet s p
     \<and> (\<exists>P. promises s p = Some P \<and> matching_future P = None
         \<and> (attached_callback P = Some (ThenCb (fst qu) (snd qu))
            \<or> attached_callback P = Some (CThenCb (fst qu) (snd qu))))
     \<and> chain s (fst qu) qs r"

lemma chain_cong:
  assumes "\<And>a. a \<in> insert p (fst ` set qs) \<Longrightarrow> promises s' a = promises s a"
    and "\<And>a. a \<in> insert p (fst ` set qs) \<Longrightarrow> lnodes s' (ListOf a) = lnodes s (ListOf a)"
    and "futures s' r = futures s r"
  shows "chain s' p qs r = chain s p qs r"
  using assms by (induction qs arbitrary: p) (simp_all add: quiet_def)

lemma chain_head: "chain s p qs r \<Longrightarrow> quiet s p \<and> promises s p \<noteq> None"
  by (cases qs) auto

lemma chain_members: "chain s p qs r \<Longrightarrow> a \<in> insert p (fst ` set qs) \<Longrightarrow> quiet s a \<and> promises s a \<noteq> None"
  by (induction qs arbitrary: p) auto

lemma chain_end: "chain s p qs r \<Longrightarrow> \<exists>q. futures s r = Some (pending_future q)"
  by (induction qs arbitrary: p) auto

text \<open>What closures may do in these theorems: any effect on the kernel, on the loop and on the rest
  of the program's state; they return a completed future.\<close>

definition world where
  "world s = (os s, enqueued_actions s, registrants s, regs s, reg_fd s, fut_state.more s)"

definition returns_ready where
  "returns_ready H G E u \<longleftrightarrow> (\<forall>s v r. futures s r = None \<longrightarrow>
     (\<exists>s'. run_fn H u v r s = Inr ((), s') \<and> futures s' = (futures s)(r \<mapsto> ready_future (G u v))
        \<and> promises s' = promises s \<and> lnodes s' = lnodes s \<and> next_addr s \<le> next_addr s'
        \<and> world s' = E u v (world s)))"

fun chain_value :: "('u \<Rightarrow> 'v \<Rightarrow> 'v) \<Rightarrow> 'u list \<Rightarrow> 'v \<Rightarrow> 'v" where
  "chain_value G [] v = v"
| "chain_value G (u # us) v = chain_value G us (G u v)"

fun chain_effect :: "('u \<Rightarrow> 'v \<Rightarrow> 'v) \<Rightarrow> ('u \<Rightarrow> 'v \<Rightarrow> 'w \<Rightarrow> 'w) \<Rightarrow> 'u list \<Rightarrow> 'v \<Rightarrow> 'w \<Rightarrow> 'w" where
  "chain_effect G E [] v w = w"
| "chain_effect G E (u # us) v w = chain_effect G E us (G u v) (E u v w)"

lemma chain_value_append: "chain_value G (us @ us') v = chain_value G us' (chain_value G us v)"
  by (induction us arbitrary: v) simp_all

lemma chain_effect_append:
  "chain_effect G E (us @ us') v w = chain_effect G E us' (chain_value G us v) (chain_effect G E us v w)"
  by (induction us arbitrary: v w) simp_all

definition cleared :: "('u, 'k) promise \<Rightarrow> ('u, 'k) promise" where
  "cleared P = P\<lparr>matching_future := None, attached_callback := None\<rparr>"

text \<open>What a supplied chain leaves of the promises and of their lists.\<close>

definition spent :: "addr \<Rightarrow> addr set \<Rightarrow> (addr \<Rightarrow> ('u, 'k) promise option) \<Rightarrow> addr \<Rightarrow> ('u, 'k) promise option" where
  "spent p Q prs a = (if a = p then map_option cleared (prs a) else if a \<in> Q then None else prs a)"

definition dropped :: "addr set \<Rightarrow> (naddr \<Rightarrow> naddr lnode option) \<Rightarrow> naddr \<Rightarrow> naddr lnode option" where
  "dropped Q h n = (if n \<in> ListOf ` Q then None else h n)"

lemma notify_quiet:
  assumes "lnodes s (ListOf p) = Some (self_node (ListOf p))" and "0 < n"
    and "lnodes s (LocalList (Addr (next_addr s))) = None"
  shows "notify_and_detach_completions H n p s = Inr ((), s\<lparr>next_addr := Suc (next_addr s)\<rparr>)"
  using assms by (simp add: notify_and_detach_completions_def)

lemma supply_paired:
  assumes P: "promises s p = Some P" "matching_future P = Some r" "attached_callback P = None"
    and r: "futures s r = Some (pending_future p)"
    and q: "quiet s p" and fresh: "fresh_ok s" and n: "0 < n"
  shows "supply_value_and_detach H (Suc n) p v s = Inr ((), s\<lparr>
     futures := (futures s)(r \<mapsto> ready_future v), promises := (promises s)(p \<mapsto> cleared P),
     next_addr := Suc (next_addr s)\<rparr>)"
proof -
  have "lnodes s (LocalList (Addr (next_addr s))) = None" using fresh_okD [OF fresh] by simp
  moreover have "cleared P = P\<lparr>matching_future := None\<rparr>"
    using P(3) by (cases P) (simp add: cleared_def)
  ultimately show ?thesis
    using q by (simp add: P r n default_but_completions_def quiet_def notify_quiet)
qed

text \<open>Supplying a promise with a callback of \<open>then\<close> runs the lambda and then destroys it.\<close>

lemma supply_to_lambda:
  assumes P: "promises s p = Some P" "matching_future P = None"
      "attached_callback P = Some (ThenCb q u) \<or> attached_callback P = Some (CThenCb q u)"
    and quiet: "quiet s p"
  shows "supply_value_and_detach H (Suc n) p v s =
      thenM (then_lambda H (supply_value_and_detach H n) q u v) (prom_destroy q)
        (s\<lparr>promises := (promises s)(p \<mapsto> cleared P)\<rparr>)"
proof -
  have cl: "cleared P = P\<lparr>attached_callback := None\<rparr>"
    using P(2) by (cases P) (simp add: cleared_def)
  show ?thesis unfolding cl using P(3) quiet
    by (auto simp: P(1,2) quiet_def prom_default_constructed_def default_but_completions_def
        call_callback_def destroy_called_def)
qed

text \<open>One link: the callback of \<open>p\<close> runs its closure, which is ready, and supplies the promise of the
  lambda; \<open>s2\<close> is the state in which that happens.\<close>

lemma supply_link:
  assumes P: "promises s p = Some P" "matching_future P = None"
      "attached_callback P = Some (ThenCb q u) \<or> attached_callback P = Some (CThenCb q u)"
    and quiet: "quiet s p" and fresh: "fresh_ok s"
    and ready: "returns_ready H G E u"
  shows "\<exists>s2. futures s2 = (futures s)(Addr (next_addr s) \<mapsto> ready_future (G u v))
     \<and> promises s2 = (promises s)(p \<mapsto> cleared P) \<and> lnodes s2 = lnodes s
     \<and> next_addr s < next_addr s2 \<and> world s2 = E u v (world s)
     \<and> supply_value_and_detach H (Suc n) p v s =
         thenM (supply_value_and_detach H n q (G u v))
           (thenM (upd_fut (Addr (next_addr s)) (fut_value_update (\<lambda>_. None)))
           (thenM (future_destroy (Addr (next_addr s))) (prom_destroy q))) s2"
proof -
  let ?res = "Addr (next_addr s)"
  let ?s1 = "s\<lparr>promises := (promises s)(p \<mapsto> cleared P), next_addr := Suc (next_addr s)\<rparr>"
  have "futures ?s1 ?res = None" using fresh_okD [OF fresh] by simp
  from ready [unfolded returns_ready_def, rule_format, OF this, of v] obtain s2 where s2: "run_fn H u v ?res ?s1 = Inr ((), s2)"
      "futures s2 = (futures s)(?res \<mapsto> ready_future (G u v))"
      "promises s2 = (promises s)(p \<mapsto> cleared P)" "lnodes s2 = lnodes s"
      "Suc (next_addr s) \<le> next_addr s2" "world s2 = E u v (world s)"
    by (auto simp: world_def)
  have "then_lambda H (supply_value_and_detach H n) q u v (s\<lparr>promises := (promises s)(p \<mapsto> cleared P)\<rparr>)
    = thenM (supply_value_and_detach H n q (G u v))
        (thenM (upd_fut ?res (fut_value_update (\<lambda>_. None))) (future_destroy ?res)) s2"
    using s2(1,2) by (simp add: then_lambda_def thenM_def bindM_assoc)
  then have "supply_value_and_detach H (Suc n) p v s = thenM (supply_value_and_detach H n q (G u v))
           (thenM (upd_fut ?res (fut_value_update (\<lambda>_. None)))
           (thenM (future_destroy ?res) (prom_destroy q))) s2"
    unfolding supply_to_lambda [OF P quiet] by (simp add: thenM_def bindM_def split: sum.splits prod.splits)
  then show ?thesis using s2 by (intro exI [of _ s2]) simp
qed

lemma supply_chain:
  assumes "chain s p qs r" and "distinct (p # map fst qs)" and "fresh_ok s"
    and "\<And>u. u \<in> snd ` set qs \<Longrightarrow> returns_ready H G E u" and "length qs + 2 \<le> n"
  shows "\<exists>s'. supply_value_and_detach H n p v s = Inr ((), s')
     \<and> futures s' = (futures s)(r \<mapsto> ready_future (chain_value G (map snd qs) v))
     \<and> promises s' = spent p (fst ` set qs) (promises s)
     \<and> lnodes s' = dropped (fst ` set qs) (lnodes s)
     \<and> next_addr s \<le> next_addr s'
     \<and> world s' = chain_effect G E (map snd qs) v (world s)"
  using assms
proof (induction qs arbitrary: s p v n)
  case Nil
  then obtain P m where P: "promises s p = Some P" "matching_future P = Some r" "attached_callback P = None"
    and r: "futures s r = Some (pending_future p)" and q: "quiet s p" and n: "n = Suc m" "0 < m"
    by (cases n) auto
  have "(promises s)(p \<mapsto> cleared P) = spent p {} (promises s)" "dropped {} (lnodes s) = lnodes s"
    using P by (auto simp: spent_def dropped_def fun_eq_iff)
  with supply_paired [OF P r q Nil.prems(3) n(2), of H v] n(1) show ?case
    by (intro exI [of _ "s\<lparr>futures := (futures s)(r \<mapsto> ready_future v),
      promises := (promises s)(p \<mapsto> cleared P), next_addr := Suc (next_addr s)\<rparr>"])
      (simp add: world_def del: fun_upd_apply)
next
  case (Cons qu qs)
  obtain q u where qu: "qu = (q, u)" by fastforce
  let ?res = "Addr (next_addr s)"
  obtain m where m: "n = Suc m" using Cons.prems(5) by (cases n) auto
  from Cons.prems(1) qu obtain P where P: "promises s p = Some P" "matching_future P = None"
      "attached_callback P = Some (ThenCb q u) \<or> attached_callback P = Some (CThenCb q u)"
    and qp: "quiet s p" and ch: "chain s q qs r" by auto
  have "returns_ready H G E u" using Cons.prems(4) qu by simp
  from supply_link [OF P qp Cons.prems(3) this, of v m] obtain s2 where
    s2: "futures s2 = (futures s)(?res \<mapsto> ready_future (G u v))"
      "promises s2 = (promises s)(p \<mapsto> cleared P)" "lnodes s2 = lnodes s"
      "next_addr s < next_addr s2" "world s2 = E u v (world s)" and
    run: "supply_value_and_detach H n p v s = thenM (supply_value_and_detach H m q (G u v))
           (thenM (upd_fut ?res (fut_value_update (\<lambda>_. None)))
           (thenM (future_destroy ?res) (prom_destroy q))) s2"
    unfolding m by blast
  have dist: "p \<noteq> q" "q \<notin> fst ` set qs" "p \<notin> fst ` set qs" "distinct (q # map fst qs)"
    using Cons.prems(2) qu by auto
  have rres: "r \<noteq> ?res" using chain_end [OF ch] fresh_okD [OF Cons.prems(3)] by auto
  have "chain s2 q qs r = chain s q qs r"
    using dist rres s2 by (intro chain_cong) auto
  with ch have c2: "chain s2 q qs r" by simp
  have fresh2: "fresh_ok s2"
    using Cons.prems(3) s2 P(1) by (auto simp: fresh_ok_def unused_def)
  have ready: "\<And>u. u \<in> snd ` set qs \<Longrightarrow> returns_ready H G E u" using Cons.prems(4) by auto
  have "length qs + 2 \<le> m" using Cons.prems(5) m by simp
  from Cons.IH [OF c2 dist(4) fresh2 ready this, of "G u v"] obtain s3 where
    s3: "supply_value_and_detach H m q (G u v) s2 = Inr ((), s3)"
      "futures s3 = (futures s2)(r \<mapsto> ready_future (chain_value G (map snd qs) (G u v)))"
      "promises s3 = spent q (fst ` set qs) (promises s2)"
      "lnodes s3 = dropped (fst ` set qs) (lnodes s2)" "next_addr s2 \<le> next_addr s3"
      "world s3 = chain_effect G E (map snd qs) (G u v) (world s2)" by blast
  obtain Q where Q: "promises s q = Some Q" "quiet s q" using chain_head [OF ch] by auto
  let ?s4 = "s3\<lparr>futures := (futures s3)(?res := None), lnodes := (lnodes s3)(ListOf q := None),
    promises := (promises s3)(q := None)\<rparr>"
  have qs3: "promises s3 q = Some (cleared Q)" "lnodes s3 (ListOf q) = Some (self_node (ListOf q))"
      "futures s3 ?res = Some (ready_future (G u v))"
    using s3 s2 Q dist rres by (auto simp: spent_def dropped_def quiet_def)
  have fin: "supply_value_and_detach H n p v s = Inr ((), ?s4)"
    unfolding run using s3(1) qs3 by (simp add: future_destroy_def cleared_def)
  have f4: "futures ?s4 = (futures s)(r \<mapsto> ready_future (chain_value G (map snd (qu # qs)) v))"
    using s3(2) s2(1) qu rres fresh_okD(1) [OF Cons.prems(3)] by (auto simp: fun_eq_iff)
  have p4: "promises ?s4 = spent p (fst ` set (qu # qs)) (promises s)"
    using s3(3) s2(2) qu dist P(1) by (auto simp: fun_eq_iff spent_def)
  have l4: "lnodes ?s4 = dropped (fst ` set (qu # qs)) (lnodes s)"
    using s3(4) s2(3) qu by (auto simp: fun_eq_iff dropped_def)
  show ?case
    by (intro exI [of _ ?s4]) (use fin f4 p4 l4 s3(5,6) s2(4,5) qu in \<open>simp add: world_def\<close>)
qed

section \<open>Building chains\<close>

lemma chain_last:
  "chain s p qs r \<Longrightarrow> futures s r = Some (pending_future (last (p # map fst qs)))
     \<and> quiet s (last (p # map fst qs))
     \<and> (\<exists>P. promises s (last (p # map fst qs)) = Some P \<and> matching_future P = Some r
          \<and> attached_callback P = None)"
  by (induction qs arbitrary: p) auto

lemma chain_snoc:
  assumes "chain s p qs r" and "distinct (p # map fst qs)"
    and q: "q \<notin> insert p (fst ` set qs)" "l = last (p # map fst qs)"
    and pr: "\<And>a. a \<in> insert p (fst ` set qs) \<Longrightarrow> a \<noteq> l \<Longrightarrow> promises s' a = promises s a"
    and ln: "\<And>a. a \<in> insert p (fst ` set qs) \<Longrightarrow> lnodes s' (ListOf a) = lnodes s (ListOf a)"
    and l: "promises s' l = Some L" "matching_future L = None"
      "attached_callback L = Some (ThenCb q u) \<or> attached_callback L = Some (CThenCb q u)"
    and new: "quiet s' q" "promises s' q = Some Q" "matching_future Q = Some r'" "attached_callback Q = None"
      "futures s' r' = Some (pending_future q)"
  shows "chain s' p (qs @ [(q, u)]) r'"
  using assms(1,2) q pr ln
proof (induction qs arbitrary: p)
  case Nil
  then show ?case using l new by (auto simp: quiet_def)
next
  case (Cons qu qs)
  have "chain s' (fst qu) (qs @ [(q, u)]) r'"
    using Cons.prems by (intro Cons.IH) auto
  moreover have "l \<in> set (map fst (qu # qs))" 
    using Cons.prems(4) last_in_set [of "map fst (qu # qs)"] by (auto split: if_splits)
  then have "p \<noteq> l" using Cons.prems(2) by auto
  ultimately show ?case using Cons.prems by (auto simp: quiet_def)
qed

lemma chain_then_f:
  assumes ch: "chain s p qs r" and dist: "distinct (p # map fst qs)" and fresh: "fresh_ok s"
    and r': "r' \<noteq> r" "\<And>n. next_addr s \<le> n \<Longrightarrow> r' \<noteq> Addr n"
  shows "\<exists>s' q. then_f H r u r' s = Inr ((), s') \<and> chain s' p (qs @ [(q, u)]) r'
     \<and> distinct (p # map fst (qs @ [(q, u)])) \<and> fresh_ok s' \<and> world s' = world s
     \<and> promises s q = None \<and> lnodes s (ListOf q) = None
     \<and> (\<forall>a. a \<notin> {last (p # map fst qs), q} \<longrightarrow> promises s' a = promises s a)
     \<and> map_option cleared (promises s' (last (p # map fst qs)))
         = map_option cleared (promises s (last (p # map fst qs)))
     \<and> (\<forall>n. n \<noteq> ListOf q \<longrightarrow> lnodes s' n = lnodes s n) \<and> next_addr s \<le> next_addr s'"
proof -
  let ?l = "last (p # map fst qs)" and ?q = "Addr (Suc (next_addr s))"
  from chain_last [OF ch] obtain P where P: "futures s r = Some (pending_future ?l)" "quiet s ?l"
    "promises s ?l = Some P" "matching_future P = Some r" "attached_callback P = None" by blast
  let ?L = "P\<lparr>attached_callback := Some (ThenCb ?q u), matching_future := None\<rparr>"
  let ?s' = "s\<lparr>next_addr := Suc (Suc (next_addr s)),
      futures := (futures s)(r' \<mapsto> pending_future ?q, r \<mapsto> empty_future),
      lnodes := (lnodes s)(ListOf ?q \<mapsto> self_node (ListOf ?q)),
      promises := (promises s)(?q \<mapsto> linked_promise PlainPromise r', ?l \<mapsto> ?L)\<rparr>"
  note run = then_f_pending [OF P(1,3,4,5) fresh r'(1) r'(1) [symmetric] refl, of H u]
  have qn: "?q \<noteq> a" if "a \<in> insert p (fst ` set qs)" for a
    using chain_members [OF ch that] fresh_okD [OF fresh] by auto
  then have q: "?q \<notin> insert p (fst ` set qs)" by blast
  have "?l \<in> set (p # map fst qs)" by (rule last_in_set) simp
  then have "?l \<in> insert p (fst ` set qs)" by simp
  with q have ql: "?q \<noteq> ?l" by metis
  have "chain ?s' p (qs @ [(?q, u)]) r'"
    by (rule chain_snoc [OF ch dist q refl, where L = ?L and Q = "linked_promise PlainPromise r'"])
      (use qn ql r'(1) in \<open>auto simp: quiet_def\<close>)
  moreover have "fresh_ok ?s'"
    unfolding fresh_ok_def
  proof (intro allI impI)
    fix n assume "next_addr ?s' \<le> n"
    then have n: "next_addr s \<le> n" "Addr n \<noteq> ?q" by auto
    have "Addr n \<noteq> ?l" "Addr n \<noteq> r" using fresh_okD [OF fresh n(1)] P(1,3) by auto
    moreover have "Addr n \<noteq> r'" using r'(2) [OF n(1)] by simp
    ultimately show "unused ?s' (Addr n)"
      using n fresh_okD [OF fresh n(1)] by (simp add: unused_def)
  qed
  moreover have "world ?s' = world s" by (simp add: world_def)
  moreover have "promises s ?q = None" "lnodes s (ListOf ?q) = None" using fresh_okD [OF fresh] by simp_all
  moreover have "map_option cleared (promises ?s' ?l) = map_option cleared (promises s ?l)"
    using P(3) by (cases P) (simp add: cleared_def)
  moreover have "distinct (p # map fst (qs @ [(?q, u)]))" using dist q by auto
  ultimately show ?thesis using ql by (intro exI [of _ ?s'] exI [of _ ?q]) (simp add: run)
qed

text \<open>\<open>f.then(u1).then(u2)...\<close>, with the address of the last future.\<close>

fun then_all ::
  "(('os, 'u, 'v, 'k, 'm) fut_state_scheme, 'u, 'v, 'k) hooks \<Rightarrow> addr \<Rightarrow> 'u list
     \<Rightarrow> (('os, 'u, 'v, 'k, 'm) fut_state_scheme, addr) M" where
  "then_all H f [] = ret f"
| "then_all H f (u # us) = bindM alloc (\<lambda>r. thenM (then_f H f u r) (then_all H r us))"

lemma fresh_ok_alloc: "fresh_ok s \<Longrightarrow> fresh_ok (s\<lparr>next_addr := Suc (next_addr s)\<rparr>)"
  by (simp add: fresh_ok_def unused_def)

lemma chain_alloc [simp]: "chain (s\<lparr>next_addr := n\<rparr>) p qs r = chain s p qs r"
  by (rule chain_cong) simp_all

lemma then_all_pending:
  assumes "chain s p qs r" and "distinct (p # map fst qs)" and "fresh_ok s"
  shows "\<exists>s' r' qs'. then_all H r us s = Inr (r', s') \<and> chain s' p (qs @ qs') r' \<and> map snd qs' = us
     \<and> distinct (p # map fst (qs @ qs')) \<and> fresh_ok s' \<and> world s' = world s
     \<and> (\<forall>q \<in> fst ` set qs'. promises s q = None \<and> lnodes s (ListOf q) = None)
     \<and> (\<forall>a. a \<notin> insert (last (p # map fst qs)) (fst ` set qs') \<longrightarrow> promises s' a = promises s a)
     \<and> map_option cleared (promises s' (last (p # map fst qs)))
         = map_option cleared (promises s (last (p # map fst qs)))
     \<and> (\<forall>n. n \<notin> ListOf ` fst ` set qs' \<longrightarrow> lnodes s' n = lnodes s n)"
  using assms
proof (induction us arbitrary: s qs r)
  case Nil
  then show ?case by (intro exI [of _ s] exI [of _ r] exI [of _ "[]"]) simp
next
  case (Cons u us)
  let ?l = "last (p # map fst qs)" and ?r = "Addr (next_addr s)"
  let ?s0 = "s\<lparr>next_addr := Suc (next_addr s)\<rparr>"
  have ch0: "chain ?s0 p qs r" using Cons.prems(1) by simp
  note fr0 = fresh_ok_alloc [OF Cons.prems(3)]
  have rr: "?r \<noteq> r" using chain_end [OF Cons.prems(1)] fresh_okD [OF Cons.prems(3)] by auto
  have rn: "?r \<noteq> Addr n" if "next_addr ?s0 \<le> n" for n using that by auto
  from chain_then_f [OF ch0 Cons.prems(2) fr0 rr rn, of H u] obtain s1 q where
    s1: "then_f H r u ?r ?s0 = Inr ((), s1)" "chain s1 p (qs @ [(q, u)]) ?r"
      "distinct (p # map fst (qs @ [(q, u)]))" "fresh_ok s1" "world s1 = world ?s0"
      "promises ?s0 q = None" "lnodes ?s0 (ListOf q) = None"
      "\<forall>a. a \<notin> {?l, q} \<longrightarrow> promises s1 a = promises ?s0 a"
      "map_option cleared (promises s1 ?l) = map_option cleared (promises ?s0 ?l)"
      "\<forall>n. n \<noteq> ListOf q \<longrightarrow> lnodes s1 n = lnodes ?s0 n" by blast
  from Cons.IH [OF s1(2,3,4)] obtain s2 r2 qs2 where
    s2: "then_all H ?r us s1 = Inr (r2, s2)" "chain s2 p ((qs @ [(q, u)]) @ qs2) r2"
      "map snd qs2 = us" "distinct (p # map fst ((qs @ [(q, u)]) @ qs2))" "fresh_ok s2"
      "world s2 = world s1"
      "\<forall>q \<in> fst ` set qs2. promises s1 q = None \<and> lnodes s1 (ListOf q) = None"
      "\<forall>a. a \<notin> insert (last (p # map fst (qs @ [(q, u)]))) (fst ` set qs2) \<longrightarrow> promises s2 a = promises s1 a"
      "\<forall>n. n \<notin> ListOf ` fst ` set qs2 \<longrightarrow> lnodes s2 n = lnodes s1 n" by metis
  have lq: "last (p # map fst (qs @ [(q, u)])) = q" by simp
  have dl: "?l \<noteq> q" "?l \<notin> fst ` set qs2" "q \<notin> fst ` set qs2"
    using s2(4) last_in_set [of "p # map fst qs"] by (auto split: if_splits)
  show ?case
  proof (intro exI conjI)
    show "then_all H r (u # us) s = Inr (r2, s2)" using s1(1) s2(1) by simp
    show "chain s2 p (qs @ (q, u) # qs2) r2" using s2(2) by simp
    show "map snd ((q, u) # qs2) = u # us" using s2(3) by simp
    show "distinct (p # map fst (qs @ (q, u) # qs2))" using s2(4) by simp
    show "fresh_ok s2" by (rule s2(5))
    show "world s2 = world s" using s2(6) s1(5) by (simp add: world_def)
    show "\<forall>q \<in> fst ` set ((q, u) # qs2). promises s q = None \<and> lnodes s (ListOf q) = None"
    proof
      fix a assume a: "a \<in> fst ` set ((q, u) # qs2)"
      show "promises s a = None \<and> lnodes s (ListOf a) = None"
      proof (cases "a = q")
        case True
        then show ?thesis using s1(6,7) by simp
      next
        case False
        with a have a2: "a \<in> fst ` set qs2" by simp
        with dl(2) have "a \<noteq> ?l" by metis
        with s1(8,10) False have "promises s1 a = promises s a" "lnodes s1 (ListOf a) = lnodes s (ListOf a)"
          by simp_all
        with s2(7) a2 show ?thesis by metis
      qed
    qed
    show "\<forall>a. a \<notin> insert ?l (fst ` set ((q, u) # qs2)) \<longrightarrow> promises s2 a = promises s a"
      using s2(8) s1(8) unfolding lq by simp
    show "map_option cleared (promises s2 ?l) = map_option cleared (promises s ?l)"
      using s2(8) s1(9) dl unfolding lq by simp
    show "\<forall>n. n \<notin> ListOf ` fst ` set ((q, u) # qs2) \<longrightarrow> lnodes s2 n = lnodes s n"
      using s2(9) s1(10) by simp
  qed
qed

text \<open>On a completed future every continuation runs at once.\<close>

lemma then_all_ready:
  assumes "futures s f = Some (ready_future v)" and "fresh_ok s"
    and "\<And>u. u \<in> set us \<Longrightarrow> returns_ready H G E u"
  shows "\<exists>s' r. then_all H f us s = Inr (r, s') \<and> futures s' r = Some (ready_future (chain_value G us v))
     \<and> promises s' = promises s \<and> lnodes s' = lnodes s \<and> world s' = chain_effect G E us v (world s)"
  using assms
proof (induction us arbitrary: s f v)
  case Nil
  then show ?case by auto
next
  case (Cons u us)
  let ?r = "Addr (next_addr s)"
  let ?s0 = "s\<lparr>next_addr := Suc (next_addr s), futures := (futures s)(f \<mapsto> empty_future)\<rparr>"
  have fr: "f \<noteq> ?r" using Cons.prems(1) fresh_okD [OF Cons.prems(2)] by auto
  have "futures ?s0 ?r = None" using fr fresh_okD [OF Cons.prems(2)] by simp
  with Cons.prems(3) [of u] obtain s1 where s1: "run_fn H u v ?r ?s0 = Inr ((), s1)"
      "futures s1 = (futures ?s0)(?r \<mapsto> ready_future (G u v))" "promises s1 = promises ?s0"
      "lnodes s1 = lnodes ?s0" "next_addr ?s0 \<le> next_addr s1" "world s1 = E u v (world ?s0)"
    unfolding returns_ready_def by (meson list.set_intros(1))
  have run: "then_f H f u ?r (s\<lparr>next_addr := Suc (next_addr s)\<rparr>) = Inr ((), s1)"
    using Cons.prems(1) s1(1) by (simp add: then_f_def fut_default_def)
  have fresh1: "fresh_ok s1"
    unfolding fresh_ok_def
  proof (intro allI impI)
    fix n assume "next_addr s1 \<le> n"
    then have n: "next_addr s \<le> n" "Addr n \<noteq> ?r" using s1(5) by auto
    then have "Addr n \<noteq> f" using Cons.prems(1) fresh_okD [OF Cons.prems(2)] by auto
    with n show "unused s1 (Addr n)"
      using fresh_okD [OF Cons.prems(2) n(1)] s1(2-4) by (simp add: unused_def)
  qed
  have "futures s1 ?r = Some (ready_future (G u v))" using s1(2) by simp
  from Cons.IH [OF this fresh1 Cons.prems(3)] obtain s' r where
    "then_all H ?r us s1 = Inr (r, s')" "futures s' r = Some (ready_future (chain_value G us (G u v)))"
    "promises s' = promises s1" "lnodes s' = lnodes s1" "world s' = chain_effect G E us (G u v) (world s1)"
    by auto
  with run s1 show ?case by (intro exI [of _ s'] exI [of _ r]) (simp add: world_def)
qed

section \<open>When a value arrives does not matter\<close>

text \<open>A future that waits for its promise, with nothing attached and no waiters.\<close>

definition waiting :: "('os, 'u, 'v, 'k, 'm) fut_state_scheme \<Rightarrow> addr \<Rightarrow> addr \<Rightarrow> bool" where
  "waiting s f p \<longleftrightarrow> chain s p [] f"

lemma fresh_ok_supplied:
  assumes "fresh_ok s" and "futures s r = Some F" and "futures s' = (futures s)(r \<mapsto> F')"
    and "promises s' = spent p Q (promises s)" and "lnodes s' = dropped Q (lnodes s)"
    and "next_addr s \<le> next_addr s'"
  shows "fresh_ok s'"
  unfolding fresh_ok_def
proof (intro allI impI)
  fix n assume "next_addr s' \<le> n"
  then have n: "next_addr s \<le> n" using assms(6) by simp
  have "Addr n \<noteq> r" using assms(2) fresh_okD [OF assms(1) n] by auto
  then show "unused s' (Addr n)"
    using fresh_okD [OF assms(1) n] assms(3-5) by (auto simp: unused_def spent_def dropped_def)
qed

text \<open>Attaching \<open>us\<close>, then supplying, then attaching \<open>us'\<close>.\<close>

lemma attach_supply_attach:
  assumes w: "waiting s f p" and fresh: "fresh_ok s" and P: "promises s p = Some P"
    and ready: "\<And>u. u \<in> set us \<union> set us' \<Longrightarrow> returns_ready H G E u" and n: "length us + 2 \<le> n"
  shows "\<exists>s' r. bindM (then_all H f us) (\<lambda>r1. thenM (supply_value_and_detach H n p v) (then_all H r1 us')) s
      = Inr (r, s')
    \<and> futures s' r = Some (ready_future (chain_value G (us @ us') v))
    \<and> world s' = chain_effect G E (us @ us') v (world s)
    \<and> promises s' = (promises s)(p \<mapsto> cleared P) \<and> lnodes s' = lnodes s"
proof -
  from w have ch: "chain s p [] f" by (simp add: waiting_def)
  have "distinct (p # map fst [])" by simp
  from then_all_pending [OF ch this fresh, of H us] obtain s1 r1 qs where
    s1: "then_all H f us s = Inr (r1, s1)" "chain s1 p qs r1" "map snd qs = us"
      "distinct (p # map fst qs)" "fresh_ok s1" "world s1 = world s"
      "\<forall>q \<in> fst ` set qs. promises s q = None \<and> lnodes s (ListOf q) = None"
      "\<forall>a. a \<notin> insert p (fst ` set qs) \<longrightarrow> promises s1 a = promises s a"
      "map_option cleared (promises s1 p) = map_option cleared (promises s p)"
      "\<forall>n. n \<notin> ListOf ` fst ` set qs \<longrightarrow> lnodes s1 n = lnodes s n" by auto
  have us: "snd ` set qs = set us" "length qs = length us"
    using s1(3) [symmetric] by (auto simp: image_iff)
  have rd: "returns_ready H G E u" if "u \<in> snd ` set qs" for u using ready that us(1) by auto
  have "length qs + 2 \<le> n" using n us(2) by simp
  from supply_chain [OF s1(2,4,5) rd this, of v] obtain s2 where
    s2: "supply_value_and_detach H n p v s1 = Inr ((), s2)"
      "futures s2 = (futures s1)(r1 \<mapsto> ready_future (chain_value G us v))"
      "promises s2 = spent p (fst ` set qs) (promises s1)"
      "lnodes s2 = dropped (fst ` set qs) (lnodes s1)" "next_addr s1 \<le> next_addr s2"
      "world s2 = chain_effect G E us v (world s1)" using s1(3) by auto
  obtain F where "futures s1 r1 = Some F" using chain_end [OF s1(2)] by auto
  from fresh_ok_supplied [OF s1(5) this s2(2-5)] have fresh2: "fresh_ok s2" .
  have p2: "promises s2 a = ((promises s)(p \<mapsto> cleared P)) a" for a
    using s2(3) s1(7,8,9) P by (auto simp: spent_def)
  have l2: "lnodes s2 m = lnodes s m" for m
    using s2(4) s1(7,10) by (auto simp: dropped_def)
  have f2: "futures s2 r1 = Some (ready_future (chain_value G us v))" using s2(2) by simp
  have "returns_ready H G E u" if "u \<in> set us'" for u using ready that by simp
  from then_all_ready [OF f2 fresh2 this] obtain s3 r where
    "then_all H r1 us' s2 = Inr (r, s3)"
    "futures s3 r = Some (ready_future (chain_value G us' (chain_value G us v)))"
    "promises s3 = promises s2" "lnodes s3 = lnodes s2"
    "world s3 = chain_effect G E us' (chain_value G us v) (world s2)" by blast
  with s1(1,6) s2(1,6) p2 l2 show ?thesis
    by (intro exI [of _ s3] exI [of _ r]) (simp add: chain_value_append chain_effect_append fun_eq_iff)
qed

section \<open>Cancelling a chain\<close>

text \<open>A link of \<open>cancellable_then\<close>: callback and closure as for \<open>then\<close>, and the pair of pointers by
  which the cancellation travels back.\<close>

definition clink :: "('os, 'u, 'v, 'k, 'm) fut_state_scheme \<Rightarrow> addr \<Rightarrow> addr \<Rightarrow> 'u \<Rightarrow> bool" where
  "clink s p q u \<longleftrightarrow> quiet s p \<and> quiet s q
     \<and> (\<exists>P. promises s p = Some P \<and> matching_future P = None
          \<and> attached_callback P = Some (CThenCb q u) \<and> attached_promise_ptr P = Some q)
     \<and> (\<exists>Q. promises s q = Some Q \<and> pclass Q = CancellableThenF \<and> backwards_pointed_promise Q = Some p)"

fun clinks :: "('os, 'u, 'v, 'k, 'm) fut_state_scheme \<Rightarrow> addr \<Rightarrow> (addr \<times> 'u) list \<Rightarrow> bool" where
  "clinks s p [] \<longleftrightarrow> True"
| "clinks s p (qu # qs) \<longleftrightarrow> clink s p (fst qu) (snd qu) \<and> clinks s (fst qu) qs"

text \<open>The promise at the end of a chain.\<close>

definition cend :: "('os, 'u, 'v, 'k, 'm) fut_state_scheme \<Rightarrow> addr \<Rightarrow> addr option \<Rightarrow> bool" where
  "cend s l r \<longleftrightarrow> quiet s l \<and> (\<exists>L. promises s l = Some L \<and> matching_future L = r
     \<and> attached_callback L = None \<and> attached_promise_ptr L = None \<and> \<not> is_plain (pclass L))"

lemma clinks_snoc:
  "clinks s p (qs @ [(q, u)]) \<longleftrightarrow> clinks s p qs \<and> clink s (last (p # map fst qs)) q u"
  by (induction qs arbitrary: p) auto

lemma last_member: "last (p # xs) \<in> insert p (set xs)"
  using last_in_set [of "p # xs"] by auto

text \<open>Links survive a change of the last promise that keeps its class and its back pointer.\<close>

lemma clinks_keep:
  assumes "clinks s p qs" and "distinct (p # map fst qs)" and "l = last (p # map fst qs)"
    and "\<And>a. a \<in> insert p (fst ` set qs) \<Longrightarrow> a \<noteq> l \<Longrightarrow> promises s' a = promises s a"
    and "\<And>a. a \<in> insert p (fst ` set qs) \<Longrightarrow> lnodes s' (ListOf a) = lnodes s (ListOf a)"
    and "promises s l = Some L" and "promises s' l = Some L'"
    and "pclass L' = pclass L" "backwards_pointed_promise L' = backwards_pointed_promise L"
  shows "clinks s' p qs"
  using assms(1-5)
proof (induction qs arbitrary: p)
  case Nil
  then show ?case by simp
next
  case (Cons qu qs)
  let ?q = "fst qu"
  have l: "l = last (?q # map fst qs)" using Cons.prems(3) by simp
  then have "l \<in> insert ?q (fst ` set qs)" using last_member [of ?q "map fst qs"] by simp
  moreover have "p \<notin> insert ?q (fst ` set qs)" using Cons.prems(2) by simp
  ultimately have pl: "p \<noteq> l" by metis
  have "clinks s' ?q qs"
    by (rule Cons.IH [OF _ _ l]) (use Cons.prems in auto)
  moreover have "clink s' p ?q (snd qu)"
  proof -
    have lk: "clink s p ?q (snd qu)" using Cons.prems(1) by simp
    have pp: "promises s' p = promises s p" using Cons.prems(4) pl by simp
    have qq: "quiet s' p = quiet s p" "quiet s' ?q = quiet s ?q"
      using Cons.prems(5) by (simp_all add: quiet_def)
    from lk obtain Q where Q: "promises s ?q = Some Q" "pclass Q = CancellableThenF"
        "backwards_pointed_promise Q = Some p" by (auto simp: clink_def)
    have "\<exists>Q'. promises s' ?q = Some Q' \<and> pclass Q' = CancellableThenF
        \<and> backwards_pointed_promise Q' = Some p"
    proof (cases "?q = l")
      case True
      with Q assms(6-9) show ?thesis by simp
    next
      case False
      with Q Cons.prems(4) show ?thesis by simp
    qed
    with lk pp qq show ?thesis by (simp add: clink_def)
  qed
  ultimately show ?case by simp
qed

definition drops where
  "drops H D u \<longleftrightarrow> (\<forall>s. \<exists>s'. drop_fn H u s = Inr ((), s') \<and> futures s' = futures s
     \<and> promises s' = promises s \<and> lnodes s' = lnodes s \<and> next_addr s \<le> next_addr s'
     \<and> world s' = D u (world s))"

definition freed :: "('u, 'k) promise \<Rightarrow> ('u, 'k) promise" where
  "freed P = P\<lparr>matching_future := None, attached_callback := None, attached_promise_ptr := None\<rparr>"

definition freed_at :: "addr \<Rightarrow> addr set \<Rightarrow> (addr \<Rightarrow> ('u, 'k) promise option) \<Rightarrow> addr \<Rightarrow> ('u, 'k) promise option" where
  "freed_at p Q prs a = (if a = p then map_option freed (prs a) else if a \<in> Q then None else prs a)"

lemma freed_at_member:
  "b \<in> insert p Q \<Longrightarrow> prs b = Some B \<Longrightarrow> freed_at p Q prs b = (if b = p then Some (freed B) else None)"
  by (auto simp: freed_at_def)

lemma freed_idem: "matching_future P = None \<Longrightarrow> attached_callback P = None \<Longrightarrow>
    attached_promise_ptr P = None \<Longrightarrow> freed P = P"
  by (cases P) (simp add: freed_def)

text \<open>One step of the cancellation.\<close>

lemma prom_cancel_link:
  assumes lk: "clink s b q u" and q: "cend s q None" and ne: "b \<noteq> q" "q \<noteq> b" and drop: "drops H D u"
  shows "\<exists>s2 B. promises s b = Some B \<and> prom_cancel H (Suc n) q s = prom_cancel H n b s2
     \<and> futures s2 = futures s
     \<and> promises s2 = (promises s)(b \<mapsto> B\<lparr>attached_promise_ptr := None, attached_callback := None\<rparr>, q := None)
     \<and> lnodes s2 = (lnodes s)(ListOf q := None) \<and> next_addr s \<le> next_addr s2 \<and> world s2 = D u (world s)"
proof -
  from lk obtain B Q where B: "promises s b = Some B" "matching_future B = None"
      "attached_callback B = Some (CThenCb q u)" "attached_promise_ptr B = Some q"
    and Q: "promises s q = Some Q" "pclass Q = CancellableThenF" "backwards_pointed_promise Q = Some b"
    by (auto simp: clink_def)
  from q Q have Qc: "matching_future Q = None" "attached_callback Q = None"
    and qq: "lnodes s (ListOf q) = Some (self_node (ListOf q))" by (auto simp: cend_def quiet_def)
  let ?s1 = "s\<lparr>promises := (promises s)(q \<mapsto> Q\<lparr>backwards_pointed_promise := None\<rparr>,
     b \<mapsto> B\<lparr>attached_promise_ptr := None, attached_callback := None\<rparr>)\<rparr>"
  obtain s1 where s1: "drop_fn H u ?s1 = Inr ((), s1)" "futures s1 = futures ?s1"
      "promises s1 = promises ?s1" "lnodes s1 = lnodes ?s1" "next_addr ?s1 \<le> next_addr s1"
      "world s1 = D u (world ?s1)"
    using drop unfolding drops_def by blast
  let ?s2 = "s1\<lparr>lnodes := (lnodes s)(ListOf q := None), promises := (promises s1)(q := None)\<rparr>"
  have d: "prom_destroy q s1 = Inr ((), ?s2)"
    using s1(3,4) Qc qq ne by simp
  have "prom_cancel H (Suc n) q s = prom_cancel H n b ?s2"
    using d ne by (simp add: Q B s1(1) destroy_callback_def)
  moreover have "futures ?s2 = futures s" "next_addr s \<le> next_addr ?s2" using s1(2,5) by simp_all
  moreover have "promises ?s2
      = (promises s)(b \<mapsto> B\<lparr>attached_promise_ptr := None, attached_callback := None\<rparr>, q := None)"
    using s1(3) ne by (simp add: fun_eq_iff)
  moreover have "world ?s2 = D u (world s)" using s1(6) by (simp add: world_def)
  ultimately show ?thesis using B(1) by (intro exI [of _ ?s2] exI [of _ B] conjI) simp_all
qed

lemma prom_cancel_chain:
  assumes "clinks s p qs" and "distinct (p # map fst qs)"
    and "cend s (last (p # map fst qs)) None"
    and "\<And>P. promises s p = Some P \<Longrightarrow> pclass P = DefaultCancellable"
    and "\<And>u. u \<in> snd ` set qs \<Longrightarrow> drops H D u" and "length qs < n"
  shows "\<exists>s'. prom_cancel H n (last (p # map fst qs)) s = Inr ((), s') \<and> futures s' = futures s
     \<and> promises s' = freed_at p (fst ` set qs) (promises s)
     \<and> lnodes s' = dropped (fst ` set qs) (lnodes s) \<and> next_addr s \<le> next_addr s'
     \<and> world s' = fold D (rev (map snd qs)) (world s)"
  using assms
proof (induction qs arbitrary: s n rule: rev_induct)
  case Nil
  then obtain P m where P: "promises s p = Some P" "matching_future P = None" "attached_callback P = None"
    "attached_promise_ptr P = None" "pclass P = DefaultCancellable" "quiet s p" "n = Suc m"
    by (cases n) (auto simp: cend_def)
  have "promises s = freed_at p {} (promises s)" "dropped {} (lnodes s) = lnodes s"
    using P freed_idem [of P] by (auto simp: freed_at_def dropped_def fun_eq_iff)
  with P show ?case
    by (intro exI [of _ s]) (simp add: prom_default_constructed_def default_but_completions_def quiet_def)
next
  case (snoc qu qs)
  obtain q u where qu: "qu = (q, u)" by fastforce
  let ?b = "last (p # map fst qs)"
  obtain m where m: "n = Suc m" "length qs < m" using snoc.prems(6) by (cases n) auto
  have lk: "clinks s p qs" "clink s ?b q u" using snoc.prems(1) qu by (simp_all add: clinks_snoc)
  have q: "cend s q None" using snoc.prems(3) qu by simp
  have qn: "q \<notin> insert p (fst ` set qs)" and dist: "distinct (p # map fst qs)"
    using snoc.prems(2) qu by auto
  have bm: "?b \<in> insert p (fst ` set qs)" using last_member [of p "map fst qs"] by simp
  with qn have ne: "?b \<noteq> q" "q \<noteq> ?b" by metis+
  have "drops H D u" using snoc.prems(5) qu by simp
  from prom_cancel_link [OF lk(2) q ne this, of m] obtain s2 B where s2: "promises s ?b = Some B"
      "prom_cancel H (Suc m) q s = prom_cancel H m ?b s2" "futures s2 = futures s"
      "promises s2 = (promises s)(?b \<mapsto> B\<lparr>attached_promise_ptr := None, attached_callback := None\<rparr>, q := None)"
      "lnodes s2 = (lnodes s)(ListOf q := None)" "next_addr s \<le> next_addr s2" "world s2 = D u (world s)"
    by blast
  from lk(2) s2(1) have B: "matching_future B = None" "\<not> is_plain (pclass B) \<or> ?b \<noteq> p" "quiet s ?b"
    using snoc.prems(4) [of B] by (auto simp: clink_def is_plain_def)
  have np: "\<not> is_plain (pclass B)"
  proof (cases qs rule: rev_cases)
    case Nil
    with B(2) show ?thesis by simp
  next
    case (snoc qs' q')
    with lk(1) s2(1) show ?thesis by (cases q') (auto simp: clinks_snoc clink_def is_plain_def)
  qed
  let ?B = "B\<lparr>attached_promise_ptr := None, attached_callback := None\<rparr>"
  have b2: "promises s2 ?b = Some ?B" using s2(4) ne by simp
  have same: "promises s2 a = promises s a" if "a \<in> insert p (fst ` set qs)" "a \<noteq> ?b" for a
    using that qn s2(4) by auto
  have "quiet s2 ?b" using B(3) ne s2(5) by (simp add: quiet_def)
  then have e2: "cend s2 ?b None" using b2 B(1) np by (simp add: cend_def)
  have lns: "lnodes s2 (ListOf a) = lnodes s (ListOf a)" if "a \<in> insert p (fst ` set qs)" for a
    using that qn s2(5) by auto
  have c2: "clinks s2 p qs" by (rule clinks_keep [OF lk(1) dist refl same lns s2(1) b2]) simp_all
  have cls: "pclass P = DefaultCancellable" if "promises s2 p = Some P" for P
  proof (cases "p = ?b")
    case True
    with that b2 have "P = ?B" by simp
    with snoc.prems(4) s2(1) True show ?thesis by (metis b2 promise.simps(1) promise.select_convs promise.update_convs(3,4) promise.surjective)
  next
    case False
    then have "promises s2 p = promises s p" by (intro same) simp
    with that snoc.prems(4) show ?thesis by simp
  qed
  have dr: "drops H D u" if "u \<in> snd ` set qs" for u using snoc.prems(5) that by auto
  from snoc.IH [OF c2 dist e2 cls dr m(2)] obtain s3 where
    s3: "prom_cancel H m ?b s2 = Inr ((), s3)" "futures s3 = futures s2"
      "promises s3 = freed_at p (fst ` set qs) (promises s2)"
      "lnodes s3 = dropped (fst ` set qs) (lnodes s2)" "next_addr s2 \<le> next_addr s3"
      "world s3 = fold D (rev (map snd qs)) (world s2)" by blast
  have fB: "freed ?B = freed B" by (cases B) (simp add: freed_def)
  have "promises s3 a = freed_at p (fst ` set (qs @ [qu])) (promises s) a" for a
  proof (cases "a = ?b")
    case True
    have "insert p (fst ` set qs) \<subseteq> insert p (fst ` set (qs @ [qu]))" by auto
    with bm have "?b \<in> insert p (fst ` set (qs @ [qu]))" by (rule rev_subsetD)
    from freed_at_member [of ?b p _ "promises s2", OF bm b2] freed_at_member [of ?b p _ "promises s", OF this s2(1)]
    show ?thesis unfolding s3(3) True fB by (rule trans [OF _ sym])
  next
    case False
    then have "promises s2 a = (if a = q then None else promises s a)" using s2(4) by simp
    with s3(3) qu qn show ?thesis by (auto simp: freed_at_def)
  qed
  moreover have "lnodes s3 a = dropped (fst ` set (qs @ [qu])) (lnodes s) a" for a
    using s3(4) s2(5) qu by (auto simp: dropped_def)
  ultimately show ?case
    using s3 s2 m(1) qu by (intro exI [of _ s3]) (simp add: fun_eq_iff)
qed

text \<open>\<open>f.cancellable_then(u1).cancellable_then(u2)...\<close>, with the address of the last future.\<close>

fun cthen_all ::
  "(('os, 'u, 'v, 'k, 'm) fut_state_scheme, 'u, 'v, 'k) hooks \<Rightarrow> addr \<Rightarrow> 'u list
     \<Rightarrow> (('os, 'u, 'v, 'k, 'm) fut_state_scheme, addr) M" where
  "cthen_all H f [] = ret f"
| "cthen_all H f (u # us) = bindM alloc (\<lambda>r. thenM (cancellable_then_f H f u r) (cthen_all H r us))"

definition cchain :: "('os, 'u, 'v, 'k, 'm) fut_state_scheme \<Rightarrow> addr \<Rightarrow> (addr \<times> 'u) list \<Rightarrow> addr \<Rightarrow> bool" where
  "cchain s p qs r \<longleftrightarrow> clinks s p qs \<and> distinct (p # map fst qs)
     \<and> cend s (last (p # map fst qs)) (Some r)
     \<and> futures s r = Some (pending_future (last (p # map fst qs)))"

lemma clinks_members: "clinks s p qs \<Longrightarrow> a \<in> fst ` set qs \<Longrightarrow> promises s a \<noteq> None"
  by (induction qs arbitrary: p) (auto simp: clink_def)

lemma clinks_head: "clinks s p qs \<Longrightarrow> qs \<noteq> [] \<Longrightarrow> promises s p \<noteq> None"
  by (cases qs) (auto simp: clink_def)

lemma cchain_members: "cchain s p qs r \<Longrightarrow> a \<in> insert p (fst ` set qs) \<Longrightarrow> promises s a \<noteq> None"
  using clinks_members [of s p qs a] clinks_head [of s p qs]
  by (cases "qs = []") (auto simp: cchain_def cend_def)

lemma cchain_then:
  assumes ch: "cchain s p qs r" and fresh: "fresh_ok s"
    and r': "r' \<noteq> r" "\<And>n. next_addr s \<le> n \<Longrightarrow> r' \<noteq> Addr n" and l: "l = last (p # map fst qs)"
  shows "\<exists>s' q. cancellable_then_f H r u r' s = Inr ((), s') \<and> cchain s' p (qs @ [(q, u)]) r'
     \<and> fresh_ok s' \<and> world s' = world s \<and> promises s q = None \<and> lnodes s (ListOf q) = None
     \<and> (\<forall>a. a \<noteq> l \<longrightarrow> a \<noteq> q \<longrightarrow> promises s' a = promises s a)
     \<and> map_option freed (promises s' l) = map_option freed (promises s l)
     \<and> (\<forall>n. n \<noteq> ListOf q \<longrightarrow> lnodes s' n = lnodes s n)"
proof -
  let ?q = "Addr (Suc (next_addr s))"
  from ch l have lk: "clinks s p qs" "distinct (p # map fst qs)" "cend s l (Some r)"
    and f: "futures s r = Some (pending_future l)" by (auto simp: cchain_def)
  from lk(3) obtain L where L: "promises s l = Some L" "matching_future L = Some r"
    "attached_callback L = None" "attached_promise_ptr L = None" "\<not> is_plain (pclass L)" "quiet s l"
    by (auto simp: cend_def)
  let ?L = "L\<lparr>attached_promise_ptr := Some ?q, attached_callback := Some (CThenCb ?q u), matching_future := None\<rparr>"
  let ?Q = "(linked_promise CancellableThenF r')\<lparr>backwards_pointed_promise := Some l\<rparr>"
  let ?s' = "s\<lparr>next_addr := Suc (Suc (next_addr s)),
      futures := (futures s)(r' \<mapsto> pending_future ?q, r \<mapsto> empty_future),
      lnodes := (lnodes s)(ListOf ?q \<mapsto> self_node (ListOf ?q)),
      promises := (promises s)(?q \<mapsto> ?Q, l \<mapsto> ?L)\<rparr>"
  note run = cancellable_then_f_pending [OF f L(1-5) fresh r'(1) r'(1) [symmetric] refl, of H u]
  have q: "?q \<notin> insert p (fst ` set qs)"
    using cchain_members [OF ch, of ?q] fresh_okD [OF fresh, of "Suc (next_addr s)"] by force
  have lm: "l \<in> insert p (fst ` set qs)" using last_member [of p "map fst qs"] l by simp
  with q have ql: "?q \<noteq> l" "l \<noteq> ?q" by metis+
  have "clinks ?s' p qs"
    by (rule clinks_keep [OF lk(1,2) l _ _ L(1), where L' = ?L]) (use q ql in auto)
  moreover have "clink ?s' l ?q u" using L(6) ql by (simp add: clink_def quiet_def)
  ultimately have "clinks ?s' p (qs @ [(?q, u)])" using l by (simp add: clinks_snoc)
  moreover have "cend ?s' ?q (Some r')" using ql by (simp add: cend_def quiet_def is_plain_def)
  ultimately have "cchain ?s' p (qs @ [(?q, u)]) r'"
    using lk(2) q r'(1) by (auto simp: cchain_def)
  moreover have "fresh_ok ?s'"
    unfolding fresh_ok_def
  proof (intro allI impI)
    fix n assume "next_addr ?s' \<le> n"
    then have n: "next_addr s \<le> n" "Addr n \<noteq> ?q" by auto
    have "Addr n \<noteq> l" "Addr n \<noteq> r" using fresh_okD [OF fresh n(1)] L(1) f by auto
    moreover have "Addr n \<noteq> r'" using r'(2) [OF n(1)] by simp
    ultimately show "unused ?s' (Addr n)"
      using n fresh_okD [OF fresh n(1)] by (simp add: unused_def)
  qed
  moreover have "world ?s' = world s" by (simp add: world_def)
  moreover have "promises s ?q = None" "lnodes s (ListOf ?q) = None" using fresh_okD [OF fresh] by simp_all
  moreover have "map_option freed (promises ?s' l) = map_option freed (promises s l)"
    using L(1) by (cases L) (simp add: freed_def)
  ultimately show ?thesis using ql run by (intro exI [of _ ?s'] exI [of _ ?q]) simp
qed

lemma cthen_all_pending:
  assumes "cchain s p qs r" and "fresh_ok s"
  shows "\<exists>s' r' qs'. cthen_all H r us s = Inr (r', s') \<and> cchain s' p (qs @ qs') r' \<and> map snd qs' = us
     \<and> fresh_ok s' \<and> world s' = world s
     \<and> (\<forall>q \<in> fst ` set qs'. promises s q = None \<and> lnodes s (ListOf q) = None)
     \<and> (\<forall>a. a \<notin> insert (last (p # map fst qs)) (fst ` set qs') \<longrightarrow> promises s' a = promises s a)
     \<and> map_option freed (promises s' (last (p # map fst qs)))
         = map_option freed (promises s (last (p # map fst qs)))
     \<and> (\<forall>n. n \<notin> ListOf ` fst ` set qs' \<longrightarrow> lnodes s' n = lnodes s n)"
  using assms
proof (induction us arbitrary: s qs r)
  case Nil
  then show ?case by (intro exI [of _ s] exI [of _ r] exI [of _ "[]"]) simp
next
  case (Cons u us)
  let ?r = "Addr (next_addr s)" and ?s0 = "s\<lparr>next_addr := Suc (next_addr s)\<rparr>"
  define l where "l = last (p # map fst qs)"
  have "clinks ?s0 p qs = clinks s p qs" by (induction qs arbitrary: p) (auto simp: clink_def quiet_def)
  with Cons.prems(1) have ch0: "cchain ?s0 p qs r" by (simp add: cchain_def cend_def quiet_def)
  have "futures s r \<noteq> None" using Cons.prems(1) by (auto simp: cchain_def)
  then have rr: "?r \<noteq> r" using fresh_okD [OF Cons.prems(2)] by auto
  have rn: "?r \<noteq> Addr n" if "next_addr ?s0 \<le> n" for n using that by auto
  from cchain_then [OF ch0 fresh_ok_alloc [OF Cons.prems(2)] rr rn l_def, of H u] obtain s1 q where
    s1: "cancellable_then_f H r u ?r ?s0 = Inr ((), s1)" "cchain s1 p (qs @ [(q, u)]) ?r"
      "fresh_ok s1" "world s1 = world ?s0"
      "promises ?s0 q = None" "lnodes ?s0 (ListOf q) = None"
      "\<forall>a. a \<noteq> l \<longrightarrow> a \<noteq> q \<longrightarrow> promises s1 a = promises ?s0 a"
      "map_option freed (promises s1 l) = map_option freed (promises ?s0 l)"
      "\<forall>n. n \<noteq> ListOf q \<longrightarrow> lnodes s1 n = lnodes ?s0 n" by blast
  have lq: "last (p # map fst (qs @ [(q, u)])) = q" by simp
  from Cons.IH [OF s1(2,3), unfolded lq] obtain s2 r2 qs2 where
    s2: "cthen_all H ?r us s1 = Inr (r2, s2)" "cchain s2 p ((qs @ [(q, u)]) @ qs2) r2"
      "map snd qs2 = us" "fresh_ok s2" "world s2 = world s1"
      "\<forall>q \<in> fst ` set qs2. promises s1 q = None \<and> lnodes s1 (ListOf q) = None"
      "\<forall>a. a \<notin> insert q (fst ` set qs2) \<longrightarrow> promises s2 a = promises s1 a"
      "map_option freed (promises s2 q) = map_option freed (promises s1 q)"
      "\<forall>n. n \<notin> ListOf ` fst ` set qs2 \<longrightarrow> lnodes s2 n = lnodes s1 n"
    by (elim exE conjE) (rule that, assumption+)
  have dist: "distinct (p # map fst ((qs @ [(q, u)]) @ qs2))" using s2(2) by (simp add: cchain_def)
  have "l \<in> insert p (fst ` set qs)" using last_member [of p "map fst qs"] l_def by simp
  then have dl: "l \<noteq> q" "l \<notin> fst ` set qs2" using dist by auto
  have one: "promises s a = None \<and> lnodes s (ListOf a) = None" if "a \<in> fst ` set ((q, u) # qs2)" for a
  proof (cases "a = q")
    case True
    then show ?thesis using s1(5,6) by simp
  next
    case False
    with that have a2: "a \<in> fst ` set qs2" by simp
    with dl(2) have "a \<noteq> l" by metis
    with s1(7,9) False have "promises s1 a = promises s a" "lnodes s1 (ListOf a) = lnodes s (ListOf a)"
      by simp_all
    with s2(6) a2 show ?thesis by metis
  qed
  show ?case
    unfolding l_def [symmetric]
  proof (intro exI conjI)
    show "cthen_all H r (u # us) s = Inr (r2, s2)" using s1(1) s2(1) by simp
    show "cchain s2 p (qs @ (q, u) # qs2) r2" using s2(2) by simp
    show "map snd ((q, u) # qs2) = u # us" using s2(3) by simp
    show "\<forall>a \<in> fst ` set ((q, u) # qs2). promises s a = None \<and> lnodes s (ListOf a) = None"
      by (rule ballI) (rule one)
    show "\<forall>a. a \<notin> insert l (fst ` set ((q, u) # qs2)) \<longrightarrow> promises s2 a = promises s a"
      using s2(7) s1(7) by simp
    show "map_option freed (promises s2 l) = map_option freed (promises s l)"
      using s2(7) s1(8) dl by simp
    show "\<forall>n. n \<notin> ListOf ` fst ` set ((q, u) # qs2) \<longrightarrow> lnodes s2 n = lnodes s n"
      using s2(9) s1(9) by simp
  qed (use s2(4,5) s1(4) in \<open>simp_all add: world_def\<close>)
qed

lemma cancel_chain:
  assumes w: "waiting s f p" and fresh: "fresh_ok s"
    and P: "promises s p = Some P" "pclass P = DefaultCancellable" "attached_promise_ptr P = None"
    and dr: "\<And>u. u \<in> set us \<Longrightarrow> drops H D u" and n: "length us < n"
  shows "\<exists>s' r. bindM (cthen_all H f us) (\<lambda>r. thenM (future_cancel H n r) (ret r)) s = Inr (r, s')
     \<and> futures s' r = Some empty_future
     \<and> promises s' = (promises s)(p \<mapsto> P\<lparr>matching_future := None\<rparr>) \<and> lnodes s' = lnodes s
     \<and> world s' = fold D (rev us) (world s)"
proof -
  from w P have ch: "cchain s p [] f" and Pn: "attached_callback P = None" "quiet s p"
    by (auto simp: waiting_def cchain_def cend_def is_plain_def)
  from cthen_all_pending [OF ch fresh, of H us] obtain s1 r qs where
    s1: "cthen_all H f us s = Inr (r, s1)" "cchain s1 p qs r" "map snd qs = us"
      "fresh_ok s1" "world s1 = world s"
      "\<forall>q \<in> fst ` set qs. promises s q = None \<and> lnodes s (ListOf q) = None"
      "\<forall>a. a \<notin> insert p (fst ` set qs) \<longrightarrow> promises s1 a = promises s a"
      "map_option freed (promises s1 p) = map_option freed (promises s p)"
      "\<forall>n. n \<notin> ListOf ` fst ` set qs \<longrightarrow> lnodes s1 n = lnodes s n" by auto
  define l where "l = last (p # map fst qs)"
  from s1(2) have lk: "clinks s1 p qs" "distinct (p # map fst qs)" "cend s1 l (Some r)"
    and f: "futures s1 r = Some (pending_future l)" by (auto simp: cchain_def l_def)
  from lk(3) obtain L where L: "promises s1 l = Some L" "matching_future L = Some r"
    "attached_callback L = None" "attached_promise_ptr L = None" "\<not> is_plain (pclass L)"
    "lnodes s1 (ListOf l) = Some (self_node (ListOf l))" by (auto simp: cend_def quiet_def)
  let ?L = "L\<lparr>matching_future := None\<rparr>"
  let ?s2 = "s1\<lparr>promises := (promises s1)(l \<mapsto> ?L), futures := (futures s1)(r \<mapsto> empty_future)\<rparr>"
  have c2: "clinks ?s2 p qs"
    by (rule clinks_keep [OF lk(1,2) l_def _ _ L(1), where L' = ?L]) auto
  have e2: "cend ?s2 (last (p # map fst qs)) None"
    using L unfolding l_def [symmetric] by (simp add: cend_def quiet_def)
  obtain P1 where P1: "promises s1 p = Some P1" "freed P1 = freed P" using s1(8) P(1) by auto
  have "pclass (freed P1) = pclass (freed P)" using P1(2) by simp
  then have cls1: "pclass P1 = DefaultCancellable" using P(2) by (simp add: freed_def)
  have cls: "pclass X = DefaultCancellable" if "promises ?s2 p = Some X" for X
    using that cls1 P1(1) L(1) by (auto split: if_splits)
  have us: "snd ` set qs = set us" "length qs = length us"
    using s1(3) [symmetric] by (auto simp: image_iff)
  have drq: "drops H D u" if "u \<in> snd ` set qs" for u using dr that us(1) by auto
  have nq: "length qs < n" using n us(2) by simp
  from prom_cancel_chain [OF c2 lk(2) e2 cls drq nq] obtain s3 where
    s3: "prom_cancel H n l ?s2 = Inr ((), s3)" "futures s3 = futures ?s2"
      "promises s3 = freed_at p (fst ` set qs) (promises ?s2)"
      "lnodes s3 = dropped (fst ` set qs) (lnodes ?s2)"
      "world s3 = fold D (rev (map snd qs)) (world ?s2)" unfolding l_def by blast
  have "future_cancel H n r s1 = Inr ((), s3)"
    using f L s3(1,2) by (simp add: future_cancel_def fut_default_def)
  then have run: "bindM (cthen_all H f us) (\<lambda>r. thenM (future_cancel H n r) (ret r)) s = Inr (r, s3)"
    using s1(1) by simp
  have fL: "freed ?L = freed L" by (cases L) (simp add: freed_def)
  have Pf: "freed P = P\<lparr>matching_future := None\<rparr>" using Pn(1) P(3) by (cases P) (simp add: freed_def)
  have "promises s3 a = ((promises s)(p \<mapsto> P\<lparr>matching_future := None\<rparr>)) a" for a
  proof (cases "a = p")
    case True
    have "map_option freed (promises ?s2 p) = Some (freed P)" using L(1) fL P1 by auto
    with True s3(3) Pf show ?thesis by (simp add: freed_at_def)
  next
    case False
    have "l \<in> insert p (fst ` set qs)" using last_member [of p "map fst qs"] l_def by simp
    with False s3(3) s1(6,7) show ?thesis by (auto simp: freed_at_def)
  qed
  moreover have "lnodes s3 m = lnodes s m" for m
    using s3(4) s1(6,9) by (auto simp: dropped_def)
  moreover have "world s3 = fold D (rev us) (world s)"
    using s3(5) s1(3,5) by (simp add: world_def)
  ultimately show ?thesis
    using run s3(2) by (intro exI [of _ s3] exI [of _ r]) (simp add: fun_eq_iff)
qed

section \<open>Properties\<close>

text \<open>Example closures are numbers: called with a value they log it and return the sum.\<close>

definition log_hooks ::
  "((unit, nat, nat, unit, (nat \<times> nat) list) fut_state_scheme, nat, nat, unit) hooks" where
  "log_hooks = \<lparr>
     run_fn = (\<lambda>u v r. thenM (modM (fut_state.more_update (\<lambda>l. l @ [(u, v)]))) (future_of_value r (u + v))),
     run_cb = (\<lambda>u v. modM (fut_state.more_update (\<lambda>l. l @ [(u, v)]))),
     drop_fn = (\<lambda>u. modM (fut_state.more_update (\<lambda>l. l @ [(u, 0)]))),
     completed = (\<lambda>n. ret ()), cancel_other = (\<lambda>k p. ret ())\<rparr>"

definition ex_fut :: "(unit, nat, nat, unit, (nat \<times> nat) list) fut_state_scheme" where
  "ex_fut = \<lparr>lnodes = [ListOf (Addr 1) \<mapsto> self_node (ListOf (Addr 1))], os = (), epoll_fd = 3,
     mid_step = False, registrants = [], enqueued_actions = [], spare_actions_buf = [], regs = Map.empty,
     reg_fd = Map.empty, futures = [Addr 0 \<mapsto> pending_future (Addr 1)],
     promises = [Addr 1 \<mapsto> linked_promise DefaultCancellable (Addr 0)], next_addr = 2, \<dots> = []\<rparr>"

lemma ex_fut_ok: "fresh_ok ex_fut" "waiting ex_fut (Addr 0) (Addr 1)"
  by (auto simp: fresh_ok_def unused_def waiting_def quiet_def ex_fut_def)

lemma log_hooks_ready:
  "returns_ready log_hooks (+) (\<lambda>u v (k, acts, rs, R, fd, l). (k, acts, rs, R, fd, l @ [(u, v)])) u"
  by (simp add: returns_ready_def log_hooks_def future_of_value_def world_def)

lemma log_hooks_drops:
  "drops log_hooks (\<lambda>u (k, acts, rs, R, fd, l). (k, acts, rs, R, fd, l @ [(u, 0)])) u"
  by (simp add: drops_def log_hooks_def world_def)

text \<open>
  C2. It does not matter when a value arrives. On a pending future, attach any number of
  continuations with \<open>then\<close>, supply the promise, and attach any further ones: the last future holds
  the value that all the continuations give when run one after the other, each ran exactly once, in
  order, on the value of the one before it, the promise is back in its default state, and every
  promise that \<open>then\<close> made is gone. So attaching first and supplying later, the reverse, and
  everything between agree in result and in effect. Enough fuel is the number of attached
  continuations and two more.
\<close>

theorem then_timing_irrelevant:
  assumes "waiting s f p" and "fresh_ok s" and "promises s p = Some P"
    and "\<forall>u \<in> set us \<union> set us'. returns_ready H G E u" and "length us + 2 \<le> n"
  shows "\<exists>s' r. bindM (then_all H f us)
        (\<lambda>r1. thenM (supply_value_and_detach H n p v) (then_all H r1 us')) s = Inr (r, s')
    \<and> futures s' r = Some (ready_future (chain_value G (us @ us') v))
    \<and> world s' = chain_effect G E (us @ us') v (world s)
    \<and> promises s' = (promises s)(p \<mapsto> cleared P) \<and> lnodes s' = lnodes s"
  by (rule attach_supply_attach [OF assms(1-3) _ assms(5)]) (use assms(4) in blast)

theorem then_timing_irrelevant_witness:
  "\<exists>s' r. bindM (then_all log_hooks (Addr 0) [1, 2])
        (\<lambda>r1. thenM (supply_value_and_detach log_hooks 4 (Addr 1) 10) (then_all log_hooks r1 [3])) ex_fut
      = Inr (r, s')
    \<and> futures s' r = Some (ready_future 16) \<and> fut_state.more s' = [(1, 10), (2, 11), (3, 13)]"
proof -
  have "promises ex_fut (Addr 1) = Some (linked_promise DefaultCancellable (Addr 0))"
    by (simp add: ex_fut_def)
  from then_timing_irrelevant [OF ex_fut_ok(2,1) this, of "[1, 2]" "[3]" log_hooks "(+)"
      "\<lambda>u v (k, acts, rs, R, fd, l). (k, acts, rs, R, fd, l @ [(u, v)])" 4 10]
  show ?thesis using log_hooks_ready by (auto simp: world_def ex_fut_def)
qed

text \<open>
  C3. Cancelling undoes \<open>cancellable_then\<close>: cancelling the last future of a chain of any length
  runs none of the closures; it destroys them, the last one first, with the promises in their
  lambdas, and leaves the promise at the root disconnected and in its default state, its
  \<open>attached_promise_ptr_\<close> included, so that it can be used again. Nothing else has changed.
\<close>

theorem cancel_undoes_then:
  assumes "waiting s f p" and "fresh_ok s"
    and "promises s p = Some P" and "pclass P = DefaultCancellable" and "attached_promise_ptr P = None"
    and "\<forall>u \<in> set us. drops H D u" and "length us < n"
  shows "\<exists>s' r. bindM (cthen_all H f us) (\<lambda>r. thenM (future_cancel H n r) (ret r)) s = Inr (r, s')
     \<and> futures s' r = Some empty_future
     \<and> promises s' = (promises s)(p \<mapsto> P\<lparr>matching_future := None\<rparr>) \<and> lnodes s' = lnodes s
     \<and> world s' = fold D (rev us) (world s)"
  by (rule cancel_chain [OF assms(1-5) _ assms(7)]) (use assms(6) in blast)

theorem cancel_undoes_then_witness:
  "\<exists>s' r. bindM (cthen_all log_hooks (Addr 0) [1, 2, 3]) (\<lambda>r. thenM (future_cancel log_hooks 4 r) (ret r)) ex_fut
      = Inr (r, s')
    \<and> futures s' r = Some empty_future \<and> fut_state.more s' = [(3, 0), (2, 0), (1, 0)]"
proof -
  have P: "promises ex_fut (Addr 1) = Some (linked_promise DefaultCancellable (Addr 0))"
    by (simp add: ex_fut_def)
  from cancel_undoes_then [OF ex_fut_ok(2,1) P, of "[1, 2, 3]" log_hooks
      "\<lambda>u (k, acts, rs, R, fd, l). (k, acts, rs, R, fd, l @ [(u, 0)])" 4]
  show ?thesis using log_hooks_drops by (auto simp: world_def ex_fut_def)
qed

end
