(* ===== verification/FutureSplice.thy ===== *)
theory FutureSplice
  imports FutureChain
begin

text \<open>
  A continuation of src/el/future.hpp that itself waits: its closure returns a pending future, and
  the lambda splices the rest of the chain onto the promise of that future. Also the cases that the
  splicing and the pair of pointers of cancellable promises do not handle.
\<close>

section \<open>Closures that start a new operation\<close>

text \<open>The closure \<open>u\<close> starts an operation whose promise is \<open>rp\<close>, which must be idle: the future it
  returns is paired with \<open>rp\<close>. (So \<open>Pipe::read\<close> does when it has to wait; \<open>rp\<close> may be the very
  promise whose value the closure got.)\<close>

definition returns_pending where
  "returns_pending H E u rp \<longleftrightarrow> (\<forall>s v r RP. futures s r = None \<longrightarrow> promises s rp = Some RP \<longrightarrow>
     matching_future RP = None \<longrightarrow> attached_callback RP = None \<longrightarrow>
     (\<exists>s'. run_fn H u v r s = Inr ((), s') \<and> futures s' = (futures s)(r \<mapsto> pending_future rp)
        \<and> promises s' = (promises s)(rp \<mapsto> RP\<lparr>matching_future := Some r\<rparr>) \<and> lnodes s' = lnodes s
        \<and> next_addr s \<le> next_addr s' \<and> world s' = E u v (world s)))"

lemma splice_future_run:
  assumes "futures s pf = Some (pending_future q)" and "futures s res = Some (pending_future rp)"
    and "promises s q = Some Q" and "promises s rp = Some RP"
    and "pf \<noteq> res" "res \<noteq> pf" "q \<noteq> rp" "rp \<noteq> q"
  shows "splice_future res rp q pf s = Inr ((), s\<lparr>
     futures := (futures s)(pf \<mapsto> pending_future rp, res \<mapsto> empty_future),
     promises := (promises s)(q \<mapsto> Q\<lparr>matching_future := None\<rparr>, rp \<mapsto> RP\<lparr>matching_future := Some pf\<rparr>)\<rparr>)"
  by (simp add: splice_future_def assms)

lemma splice_callback_run:
  assumes "futures s res = Some (pending_future rp)"
    and "promises s q = Some Q" and "promises s rp = Some RP"
    and "attached_callback Q = Some cb" and "attached_callback RP = None"
    and "lnodes s (ListOf rp) = Some (self_node (ListOf rp))" and "q \<noteq> rp" "rp \<noteq> q"
  shows "splice_callback res rp q s = Inr ((), s\<lparr>
     promises := (promises s)(q \<mapsto> Q\<lparr>attached_callback := None\<rparr>,
       rp \<mapsto> RP\<lparr>attached_callback := Some cb, matching_future := None\<rparr>),
     futures := (futures s)(res \<mapsto> empty_future)\<rparr>)"
  by (simp add: splice_callback_def assms fun_upd_twist)

text \<open>What the lambda does when its closure returns a pending future.\<close>

lemma then_lambda_pending:
  assumes rp: "promises s rp = Some RP" "matching_future RP = None" "attached_callback RP = None"
    and fresh: "fresh_ok s" and pend: "returns_pending H E u rp"
    and q: "promises s q = Some Q" and ne: "q \<noteq> rp" "rp \<noteq> q" and res: "res = Addr (next_addr s)"
  shows "\<exists>s2. futures s2 = (futures s)(res \<mapsto> pending_future rp)
     \<and> promises s2 = (promises s)(rp \<mapsto> RP\<lparr>matching_future := Some res\<rparr>)
     \<and> lnodes s2 = lnodes s \<and> next_addr s < next_addr s2 \<and> world s2 = E u v (world s)
     \<and> then_lambda H snext q u v s = thenM (case matching_future Q of
           Some prom_fut \<Rightarrow> splice_future res rp q prom_fut
         | None \<Rightarrow> splice_callback res rp q) (future_destroy res) s2"
proof -
  let ?s1 = "s\<lparr>next_addr := Suc (next_addr s)\<rparr>"
  have "futures ?s1 res = None" using fresh_okD [OF fresh] res by simp
  from pend [unfolded returns_pending_def, rule_format, OF this, of RP v] rp obtain s2 where
    s2: "run_fn H u v res ?s1 = Inr ((), s2)"
      "futures s2 = (futures s)(res \<mapsto> pending_future rp)"
      "promises s2 = (promises s)(rp \<mapsto> RP\<lparr>matching_future := Some res\<rparr>)" "lnodes s2 = lnodes s"
      "Suc (next_addr s) \<le> next_addr s2" "world s2 = E u v (world s)"
    by (auto simp: world_def)
  have "then_lambda H snext q u v s = thenM (case matching_future Q of
           Some prom_fut \<Rightarrow> splice_future res rp q prom_fut
         | None \<Rightarrow> splice_callback res rp q) (future_destroy res) s2"
    using s2(1) q ne res
    by (cases "matching_future Q") (simp_all add: then_lambda_def s2(2,3) thenM_def bindM_assoc)
  with s2 show ?thesis by (intro exI [of _ s2]) simp
qed

text \<open>Supplying the first promise of a chain whose first closure starts an operation on \<open>rp\<close>: the
  rest of the chain now waits for \<open>rp\<close>.\<close>

lemma supply_pending:
  assumes ch: "chain s p ((q, u) # qs) r" and dist: "distinct (p # q # map fst qs)"
    and fresh: "fresh_ok s" and pend: "returns_pending H E u rp"
    and P: "promises s p = Some P"
    and rp: "((promises s)(p \<mapsto> cleared P)) rp = Some RP" "matching_future RP = None"
      "attached_callback RP = None" "quiet s rp" "rp \<notin> insert q (fst ` set qs)"
  shows "\<exists>s'. supply_value_and_detach H (Suc n) p v s = Inr ((), s') \<and> chain s' rp qs r
     \<and> distinct (rp # map fst qs) \<and> fresh_ok s' \<and> world s' = E u v (world s)
     \<and> lnodes s' = (lnodes s)(ListOf q := None) \<and> promises s' q = None
     \<and> promises s' p = (if rp = p then promises s' rp else Some (cleared P))
     \<and> map_option cleared (promises s' rp) = Some (cleared RP)
     \<and> (\<forall>a. a \<noteq> p \<longrightarrow> a \<noteq> q \<longrightarrow> a \<noteq> rp \<longrightarrow> promises s' a = promises s a)"
proof -
  let ?s1 = "s\<lparr>promises := (promises s)(p \<mapsto> cleared P)\<rparr>" and ?res = "Addr (next_addr s)"
  from ch P have P': "matching_future P = None"
      "attached_callback P = Some (ThenCb q u) \<or> attached_callback P = Some (CThenCb q u)"
      "quiet s p" and chq: "chain s q qs r" by auto
  obtain Q where Q: "promises s q = Some Q" "lnodes s (ListOf q) = Some (self_node (ListOf q))"
    using chain_head [OF chq] by (auto simp: quiet_def)
  have pq: "p \<noteq> q" "q \<noteq> p" "q \<noteq> rp" "rp \<noteq> q" using dist rp(5) by auto
  have "fresh_ok ?s1" using fresh P by (auto simp: fresh_ok_def unused_def)
  from then_lambda_pending [OF _ rp(2,3) this pend _ pq(3,4), where Q = Q and res = ?res and v = v
      and snext = "supply_value_and_detach H n"] rp(1) Q(1) pq
  obtain s2 where s2: "futures s2 = (futures s)(?res \<mapsto> pending_future rp)"
      "promises s2 = (promises s)(p \<mapsto> cleared P, rp \<mapsto> RP\<lparr>matching_future := Some ?res\<rparr>)"
      "lnodes s2 = lnodes s" "next_addr s < next_addr s2" "world s2 = E u v (world s)" and
    lam: "then_lambda H (supply_value_and_detach H n) q u v ?s1 = thenM (case matching_future Q of
           Some prom_fut \<Rightarrow> splice_future ?res rp q prom_fut
         | None \<Rightarrow> splice_callback ?res rp q) (future_destroy ?res) s2"
    by (auto simp: world_def)
  have run: "supply_value_and_detach H (Suc n) p v s
    = thenM (thenM (case matching_future Q of
           Some prom_fut \<Rightarrow> splice_future ?res rp q prom_fut
         | None \<Rightarrow> splice_callback ?res rp q) (future_destroy ?res)) (prom_destroy q) s2"
    unfolding supply_to_lambda [OF P P'] using lam
    by (simp add: thenM_def bindM_def split: sum.splits prod.splits)
  have resn: "futures s ?res = None" using fresh_okD [OF fresh] by simp
  have rr: "r \<noteq> ?res" "?res \<noteq> r" using chain_end [OF chq] resn by auto
  have fut2: "futures s2 ?res = Some (pending_future rp)" using s2(1) by simp
  have Q2: "promises s2 q = Some Q" "promises s2 rp = Some (RP\<lparr>matching_future := Some ?res\<rparr>)"
    using s2(2) Q(1) pq by simp_all
  have clRP: "cleared RP = RP" using rp(2,3) by (cases RP) (simp add: cleared_def)
  have pd: "prom_destroy q s = Inr ((), s\<lparr>lnodes := (lnodes s)(ListOf q := None),
      promises := (promises s)(q := None)\<rparr>)"
    if "promises s q = Some X" "matching_future X = None" "attached_callback X = None"
      "lnodes s (ListOf q) = Some (self_node (ListOf q))" for s X
    using that by simp
  obtain RP' s3 where s3: "supply_value_and_detach H (Suc n) p v s = Inr ((), s3)"
      "futures s3 = (if qs = [] then (futures s)(r \<mapsto> pending_future rp) else futures s)"
      "promises s3 = (promises s)(p \<mapsto> cleared P, rp \<mapsto> RP', q := None)"
      "lnodes s3 = (lnodes s)(ListOf q := None)" "next_addr s < next_addr s3"
      "world s3 = E u v (world s)" "cleared RP' = RP"
      "matching_future RP' = matching_future Q" "attached_callback RP' = attached_callback Q"
  proof (cases qs)
    case Nil
    with chq Q have Qr: "matching_future Q = Some r" "attached_callback Q = None"
        "futures s r = Some (pending_future q)" by auto
    have "futures s2 r = Some (pending_future q)" using s2(1) rr Qr(3) by simp
    note sp = splice_future_run [OF this fut2 Q2 rr pq(3,4)]
    have "\<exists>s3. supply_value_and_detach H (Suc n) p v s = Inr ((), s3)
      \<and> futures s3 = (futures s)(r \<mapsto> pending_future rp)
      \<and> promises s3 = (promises s)(p \<mapsto> cleared P, rp \<mapsto> RP\<lparr>matching_future := Some r\<rparr>, q := None)
      \<and> lnodes s3 = (lnodes s)(ListOf q := None) \<and> next_addr s < next_addr s3
      \<and> world s3 = E u v (world s)"
      unfolding run Qr(1) option.case
      by (simp add: sp rr future_destroy_def Qr Q pq s2 world_def)
        (simp add: fun_eq_iff resn s2(5) [unfolded world_def] pq rr)
    moreover have "cleared (RP\<lparr>matching_future := Some r\<rparr>) = RP" using clRP by (cases RP) (simp add: cleared_def)
    ultimately show ?thesis using that Nil Qr rp(3) by auto
  next
    case (Cons qu' qs')
    with chq Q obtain cb where Qr: "matching_future Q = None" "attached_callback Q = Some cb" by auto
    have rpq: "lnodes s2 (ListOf rp) = Some (self_node (ListOf rp))"
      using rp(4) s2(3) by (simp add: quiet_def)
    have "attached_callback (RP\<lparr>matching_future := Some ?res\<rparr>) = None" using rp(3) by simp
    note sp = splice_callback_run [OF fut2 Q2 Qr(2) this rpq pq(3,4)]
    have "\<exists>s3. supply_value_and_detach H (Suc n) p v s = Inr ((), s3)
      \<and> futures s3 = futures s
      \<and> promises s3 = (promises s)(p \<mapsto> cleared P,
           rp \<mapsto> RP\<lparr>matching_future := None, attached_callback := Some cb\<rparr>, q := None)
      \<and> lnodes s3 = (lnodes s)(ListOf q := None) \<and> next_addr s < next_addr s3
      \<and> world s3 = E u v (world s)"
      unfolding run Qr(1) option.case
      by (simp add: sp rr future_destroy_def Qr Q pq s2 world_def)
        (simp add: fun_eq_iff resn s2(5) [unfolded world_def] pq)
    moreover have "cleared (RP\<lparr>matching_future := None, attached_callback := Some cb\<rparr>) = RP"
      using clRP by (cases RP) (simp add: cleared_def)
    ultimately show ?thesis using that Cons Qr by auto
  qed
  have s3p: "promises s3 rp = Some RP'" "promises s3 q = None"
    "\<And>a. a \<noteq> p \<Longrightarrow> a \<noteq> q \<Longrightarrow> a \<noteq> rp \<Longrightarrow> promises s3 a = promises s a"
    using s3(3) pq by simp_all
  have qrp: "quiet s3 rp" using rp(4) s3(4) pq by (simp add: quiet_def)
  have mem: "p \<notin> fst ` set qs" "q \<notin> fst ` set qs" "rp \<notin> fst ` set qs" using dist rp(5) by auto
  have same: "promises s3 a = promises s a" "lnodes s3 (ListOf a) = lnodes s (ListOf a)"
    if "a \<in> fst ` set qs" for a
  proof -
    from that mem have "a \<noteq> p" "a \<noteq> q" "a \<noteq> rp" by metis+
    then show "promises s3 a = promises s a" "lnodes s3 (ListOf a) = lnodes s (ListOf a)"
      using s3p(3) s3(4) by simp_all
  qed
  have "chain s3 rp qs r"
  proof (cases qs)
    case Nil
    with chq Q have "matching_future Q = Some r" "attached_callback Q = None" by auto
    with Nil qrp s3(2,8,9) s3p(1) show ?thesis by simp
  next
    case (Cons qu' qs')
    have "chain s3 (fst qu') qs' r = chain s (fst qu') qs' r"
      by (rule chain_cong) (use same s3(2) Cons in simp_all)
    with Cons chq Q qrp s3(8,9) s3p(1) show ?thesis by auto
  qed
  moreover have "fresh_ok s3"
    unfolding fresh_ok_def
  proof (intro allI impI)
    fix n assume "next_addr s3 \<le> n"
    then have n: "next_addr s \<le> n" using s3(5) by simp
    have "promises s rp \<noteq> None" using rp(1) P by (auto split: if_splits)
    then have "Addr n \<noteq> p" "Addr n \<noteq> q" "Addr n \<noteq> rp" "Addr n \<noteq> r"
      using fresh_okD [OF fresh n] P Q chain_end [OF chq] by auto
    then show "unused s3 (Addr n)"
      using fresh_okD [OF fresh n] s3(2-4) by (simp add: unused_def)
  qed
  moreover have "distinct (rp # map fst qs)" using dist rp(5) by simp
  moreover have "promises s3 p = (if rp = p then promises s3 rp else Some (cleared P))"
    using s3(3) pq by simp
  moreover have "cleared RP' = cleared RP" using s3(7) clRP by simp
  ultimately show ?thesis using s3 s3p by (intro exI [of _ s3]) auto
qed

definition idle_promise :: "('os, 'u, 'v, 'k, 'm) fut_state_scheme \<Rightarrow> addr \<Rightarrow> bool" where
  "idle_promise s p \<longleftrightarrow> quiet s p
     \<and> (\<exists>P. promises s p = Some P \<and> matching_future P = None \<and> attached_callback P = None)"

lemma bind_chain:
  assumes w: "waiting s f p" and fresh: "fresh_ok s"
    and pend: "returns_pending H E u rp" and rp: "rp = p \<or> idle_promise s rp"
    and ready: "\<And>u'. u' \<in> set us \<Longrightarrow> returns_ready H G E u'" and n: "length us + 2 \<le> n"
  shows "\<exists>s' r. bindM (then_all H f (u # us)) (\<lambda>r. thenM (supply_value_and_detach H n p v)
        (thenM (supply_value_and_detach H n rp w) (ret r))) s = Inr (r, s')
    \<and> futures s' r = Some (ready_future (chain_value G us w))
    \<and> world s' = chain_effect G E us w (E u v (world s))"
proof -
  from w have ch: "chain s p [] f" by (simp add: waiting_def)
  obtain m where m: "n = Suc m" using n by (cases n) auto
  have "distinct (p # map fst [])" by simp
  obtain vs where vs: "vs = u # us" by simp
  from then_all_pending [OF ch \<open>distinct (p # map fst [])\<close> fresh, of H vs] obtain s1 r qs where
    s1: "then_all H f vs s = Inr (r, s1)" "chain s1 p qs r" "map snd qs = vs"
      "distinct (p # map fst qs)" "fresh_ok s1" "world s1 = world s"
      "\<forall>q \<in> fst ` set qs. promises s q = None \<and> lnodes s (ListOf q) = None"
      "\<forall>a. a \<notin> insert p (fst ` set qs) \<longrightarrow> promises s1 a = promises s a"
      "\<forall>n. n \<notin> ListOf ` fst ` set qs \<longrightarrow> lnodes s1 n = lnodes s n" by auto
  obtain q qs' where qs: "qs = (q, u) # qs'" "map snd qs' = us" using s1(3) vs by (cases qs) auto
  obtain P where P: "promises s1 p = Some P" using chain_head [OF s1(2)] by auto
  have quiet1: "quiet s1 p" using chain_head [OF s1(2)] by simp
  obtain RP where RP: "((promises s1)(p \<mapsto> cleared P)) rp = Some RP" "matching_future RP = None"
      "attached_callback RP = None" "quiet s1 rp" "rp \<notin> insert q (fst ` set qs')"
  proof (cases "rp = p")
    case True
    with that [of "cleared P"] quiet1 s1(4) qs show ?thesis by (auto simp: cleared_def)
  next
    case False
    with rp obtain RP where RP: "promises s rp = Some RP" "matching_future RP = None"
      "attached_callback RP = None" "quiet s rp" by (auto simp: idle_promise_def)
    have nin: "rp \<notin> fst ` set qs"
    proof
      assume "rp \<in> fst ` set qs"
      with s1(7) RP(1) show False by (metis option.distinct(1))
    qed
    then have "promises s1 rp = Some RP" using s1(8) False RP(1) by simp
    moreover have "lnodes s1 (ListOf rp) = lnodes s (ListOf rp)" using nin s1(9) by auto
    ultimately show ?thesis using that [of RP] RP False nin qs by (simp add: quiet_def)
  qed
  have "distinct (p # q # map fst qs')" "chain s1 p ((q, u) # qs') r" using s1(2,4) qs by auto
  from supply_pending [OF this(2,1) s1(5) pend P RP, of m v] obtain s2 where
    s2: "supply_value_and_detach H n p v s1 = Inr ((), s2)" "chain s2 rp qs' r"
      "distinct (rp # map fst qs')" "fresh_ok s2" "world s2 = E u v (world s1)"
    unfolding m by blast
  have us: "snd ` set qs' = set us" "length qs' = length us"
    using qs(2) [symmetric] by (auto simp: image_iff)
  have rd: "returns_ready H G E u'" if "u' \<in> snd ` set qs'" for u' using ready that us(1) by auto
  have "length qs' + 2 \<le> n" using n us(2) by simp
  from supply_chain [OF s2(2-4) rd this, of w] obtain s3 where
    "supply_value_and_detach H n rp w s2 = Inr ((), s3)"
    "futures s3 = (futures s2)(r \<mapsto> ready_future (chain_value G us w))"
    "world s3 = chain_effect G E us w (world s2)" using qs(2) by auto
  with s1(1) [unfolded vs] s1(6) s2(1,5) show ?thesis by (intro exI [of _ s3] exI [of _ r]) simp
qed

section \<open>Waiters that are lost\<close>

text \<open>A future with waiters: its promise's list holds \<open>ws\<close>.\<close>

lemma supply_pending_waiters:
  assumes P: "promises s p = Some P" "matching_future P = None"
      "attached_callback P = Some (ThenCb q u) \<or> attached_callback P = Some (CThenCb q u)" "quiet s p"
    and Q: "promises s q = Some Q" "matching_future Q = Some r" "attached_callback Q = None"
      "futures s r = Some (pending_future q)"
    and ws: "clist (lnodes s) (ListOf q) (x # ws)"
    and fresh: "fresh_ok s" and pend: "returns_pending H E u rp"
    and rp: "promises s rp = Some RP" "matching_future RP = None" "attached_callback RP = None" "rp \<noteq> p" "rp \<noteq> q"
    and pq: "p \<noteq> q"
  shows "supply_value_and_detach H (Suc n) p v s = Inl (Abort ''next_ == this'')"
proof -
  let ?s1 = "s\<lparr>promises := (promises s)(p \<mapsto> cleared P)\<rparr>" and ?res = "Addr (next_addr s)"
  have "fresh_ok ?s1" using fresh P by (auto simp: fresh_ok_def unused_def)
  from then_lambda_pending [OF _ rp(2,3) this pend _ rp(5) [symmetric] rp(5), where Q = Q and res = ?res and v = v
      and snext = "supply_value_and_detach H n"] rp(1,4) Q(1) pq
  obtain s2 where s2: "futures s2 = (futures s)(?res \<mapsto> pending_future rp)"
      "promises s2 = (promises s)(p \<mapsto> cleared P, rp \<mapsto> RP\<lparr>matching_future := Some ?res\<rparr>)"
      "lnodes s2 = lnodes s" and
    lam: "then_lambda H (supply_value_and_detach H n) q u v ?s1
      = thenM (splice_future ?res rp q r) (future_destroy ?res) s2"
    by (auto simp: Q(2))
  have rr: "r \<noteq> ?res" "?res \<noteq> r" using fresh_okD [OF fresh] Q(4) by auto
  have f2: "futures s2 r = Some (pending_future q)" "futures s2 ?res = Some (pending_future rp)"
    and p2: "promises s2 q = Some Q" "promises s2 rp = Some (RP\<lparr>matching_future := Some ?res\<rparr>)"
    using s2 rr Q rp pq by auto
  note sp = splice_future_run [OF f2 p2 rr rp(5) [symmetric] rp(5)]
  obtain s3 where s3: "then_lambda H (supply_value_and_detach H n) q u v ?s1 = Inr ((), s3)"
      "promises s3 q = Some (Q\<lparr>matching_future := None\<rparr>)" "lnodes s3 = lnodes s"
    unfolding lam using sp rr rp(5) s2(3) by (simp add: future_destroy_def)
  have "clist (lnodes s3) (ListOf q) (x # ws)" using ws s3(3) by simp
  from list_destroy_spec [OF this] have "prom_destroy q s3 = Inl (Abort ''next_ == this'')"
    using s3(2) Q(3) by (simp add: prom_destroy_def)
  with s3(1) show ?thesis unfolding supply_to_lambda [OF P] by simp
qed

section \<open>The pair of pointers after a value\<close>

lemma clinks_chain:
  assumes "clinks s p qs" and "cend s (last (p # map fst qs)) (Some r)"
    and "futures s r = Some (pending_future (last (p # map fst qs)))"
  shows "chain s p qs r"
  using assms
proof (induction qs arbitrary: p)
  case Nil
  then show ?case by (auto simp: cend_def)
next
  case (Cons qu qs)
  then have "chain s (fst qu) qs r" by simp
  with Cons.prems(1) show ?case by (auto simp: clink_def)
qed

lemma cchain_chain: "cchain s p qs r \<Longrightarrow> chain s p qs r \<and> distinct (p # map fst qs)"
  unfolding cchain_def using clinks_chain by blast

lemma waiting_cchain:
  "waiting s f p \<Longrightarrow> promises s p = Some P \<Longrightarrow> attached_promise_ptr P = None \<Longrightarrow> \<not> is_plain (pclass P)
   \<Longrightarrow> cchain s p [] f"
  by (auto simp: waiting_def cchain_def cend_def)

text \<open>A promise whose pointer is set refuses the next \<open>cancellable_then\<close>.\<close>

lemma attached_ptr_refuses:
  assumes "futures s f = Some (pending_future p)" and P: "promises s p = Some P" "matching_future P = Some f"
    and "\<not> is_plain (pclass P)" "attached_promise_ptr P = Some q" and fresh: "fresh_ok s"
  shows "cancellable_then_f H f u r s = Inl (Abort ''prom->attached_promise_ptr_ == nullptr'')"
proof -
  have "p \<noteq> Addr (next_addr s)" "Addr (next_addr s) \<noteq> p" using fresh_ok_neq(2) [OF fresh _ P(1)] by auto
  then show ?thesis
    by (simp add: cancellable_then_f_def fut_default_def future_of_promise_def attach_def assms)
qed

lemma reuse_attached:
  assumes w: "waiting s f p" and fresh: "fresh_ok s"
    and P: "promises s p = Some P" "\<not> is_plain (pclass P)" "attached_promise_ptr P = None"
    and ready: "returns_ready H G E u" and n: "3 \<le> n"
  shows "bindM (cthen_all H f [u]) (\<lambda>r. thenM (supply_value_and_detach H n p v)
     (bindM alloc (\<lambda>f2. thenM (future_of_promise f2 p)
     (bindM alloc (\<lambda>r2. cancellable_then_f H f2 u2 r2))))) s
   = Inl (Abort ''prom->attached_promise_ptr_ == nullptr'')"
proof -
  note cc = waiting_cchain [OF w P(1,3,2)]
  obtain us where us: "us = [u]" by simp
  from cthen_all_pending [OF cc fresh, of H us] obtain s1 r qs where
    s1: "cthen_all H f us s = Inr (r, s1)" "cchain s1 p qs r" "map snd qs = us" "fresh_ok s1"
      "map_option freed (promises s1 p) = map_option freed (promises s p)" by auto
  then obtain q where q: "qs = [(q, u)]" using us by (cases qs) auto
  from s1(2) q obtain P1 where P1: "promises s1 p = Some P1" "attached_promise_ptr P1 = Some q"
    "quiet s1 p" by (auto simp: cchain_def clink_def)
  have "pclass (freed P1) = pclass (freed P)" using s1(5) P1(1) P(1) by simp
  then have np: "\<not> is_plain (pclass P1)" using P(2) by (simp add: freed_def)
  have "returns_ready H G E u'" if "u' \<in> snd ` set qs" for u' using ready that q by simp
  from supply_chain [OF conjunct1 [OF cchain_chain [OF s1(2)]] conjunct2 [OF cchain_chain [OF s1(2)]] s1(4) this, of n v] n q
  obtain s2 where s2: "supply_value_and_detach H n p v s1 = Inr ((), s2)"
      "futures s2 = (futures s1)(r \<mapsto> ready_future (chain_value G [u] v))"
      "promises s2 = spent p (fst ` set qs) (promises s1)"
      "lnodes s2 = dropped (fst ` set qs) (lnodes s1)" "next_addr s1 \<le> next_addr s2" by auto
  obtain F where "futures s1 r = Some F" using s1(2) by (auto simp: cchain_def)
  from fresh_ok_supplied [OF s1(4) this s2(2-5)] have fresh2: "fresh_ok s2" .
  have p2: "promises s2 p = Some (cleared P1)" using s2(3) P1(1) by (simp add: spent_def)
  let ?f2 = "Addr (next_addr s2)"
  let ?s3 = "s2\<lparr>futures := (futures s2)(?f2 \<mapsto> pending_future p),
     promises := (promises s2)(p \<mapsto> (cleared P1)\<lparr>matching_future := Some ?f2\<rparr>),
     next_addr := Suc (Suc (next_addr s2))\<rparr>"
  have fresh3: "fresh_ok ?s3"
    unfolding fresh_ok_def
  proof (intro allI impI)
    fix n assume "next_addr ?s3 \<le> n"
    then have n: "next_addr s2 \<le> n" "Addr n \<noteq> ?f2" by auto
    have "Addr n \<noteq> p" using fresh_okD(2) [OF fresh2 n(1)] p2 by auto
    then show "unused ?s3 (Addr n)" using fresh_okD [OF fresh2 n(1)] n(2) by (simp add: unused_def)
  qed
  have "cancellable_then_f H ?f2 u2 r2 ?s3 = Inl (Abort ''prom->attached_promise_ptr_ == nullptr'')" for r2
    by (rule attached_ptr_refuses [OF _ _ _ _ _ fresh3, where p = p and q = q and P = "(cleared P1)\<lparr>matching_future := Some ?f2\<rparr>"])
      (use np P1(2) in \<open>simp_all add: cleared_def\<close>)
  moreover have "bindM alloc (\<lambda>f2. thenM (future_of_promise f2 p)
     (bindM alloc (\<lambda>r2. cancellable_then_f H f2 u2 r2))) s2
     = cancellable_then_f H ?f2 u2 (Addr (Suc (next_addr s2))) ?s3"
    using p2 by (simp add: future_of_promise_def cleared_def)
  ultimately show ?thesis using s1(1) s2(1) us by simp
qed

text \<open>After a splice the back pointer of the next promise in the chain names a dead promise.\<close>

lemma cancel_spliced:
  assumes w: "waiting s f p" and fresh: "fresh_ok s"
    and P: "promises s p = Some P" "\<not> is_plain (pclass P)" "attached_promise_ptr P = None"
    and pend: "returns_pending H E u1 rp" and rp: "idle_promise s rp" and n: "0 < n"
  shows "bindM (cthen_all H f [u1, u2]) (\<lambda>r. thenM (supply_value_and_detach H n p v) (future_cancel H n r)) s
   = Inl (UseAfterFree ''promise'')"
proof -
  note cc = waiting_cchain [OF w P(1,3,2)]
  obtain m where m: "n = Suc m" using n by (cases n) auto
  obtain us where us: "us = [u1, u2]" by simp
  from cthen_all_pending [OF cc fresh, of H us] obtain s1 r qs where
    s1: "cthen_all H f us s = Inr (r, s1)" "cchain s1 p qs r" "map snd qs = us" "fresh_ok s1"
      "\<forall>q \<in> fst ` set qs. promises s q = None \<and> lnodes s (ListOf q) = None"
      "\<forall>a. a \<notin> insert p (fst ` set qs) \<longrightarrow> promises s1 a = promises s a"
      "\<forall>n. n \<notin> ListOf ` fst ` set qs \<longrightarrow> lnodes s1 n = lnodes s n" by auto
  obtain q1 q2 where qs: "qs = [(q1, u1), (q2, u2)]"
  proof -
    obtain x y where "qs = [x, y]" using s1(3) us by (cases qs; cases "tl qs") auto
    with s1(3) us that show ?thesis by (cases x; cases y) auto
  qed
  from s1(2) qs have lk: "clink s1 p q1 u1" "clink s1 q1 q2 u2" "cend s1 q2 (Some r)"
      "distinct [p, q1, q2]" "futures s1 r = Some (pending_future q2)" by (auto simp: cchain_def)
  from lk(1) obtain P1 where P1: "promises s1 p = Some P1" "quiet s1 p" by (auto simp: clink_def)
  from lk(2) obtain Q2 where Q2: "promises s1 q2 = Some Q2" "pclass Q2 = CancellableThenF"
      "backwards_pointed_promise Q2 = Some q1" "quiet s1 q2" by (auto simp: clink_def)
  from lk(3) Q2(1) have Q2m: "matching_future Q2 = Some r" by (auto simp: cend_def)
  from rp obtain RP where RP: "promises s rp = Some RP" "matching_future RP = None"
    "attached_callback RP = None" "quiet s rp" by (auto simp: idle_promise_def)
  have "rp \<noteq> p" using w RP P(1) by (auto simp: waiting_def)
  moreover have nin: "rp \<notin> fst ` set qs"
  proof
    assume "rp \<in> fst ` set qs"
    with s1(5) RP(1) show False by (metis option.distinct(1))
  qed
  ultimately have rp1: "((promises s1)(p \<mapsto> cleared P1)) rp = Some RP" using s1(6) RP(1) by simp
  have "lnodes s1 (ListOf rp) = lnodes s (ListOf rp)" using nin s1(7) by auto
  then have qr: "quiet s1 rp" using RP(4) by (simp add: quiet_def)
  have ch: "chain s1 p ((q1, u1) # [(q2, u2)]) r" "distinct (p # q1 # map fst [(q2, u2)])"
    using cchain_chain [OF s1(2)] qs lk(4) by simp_all
  have nq: "rp \<notin> insert q1 (fst ` set [(q2, u2)])" "rp \<noteq> q2" using nin qs by simp_all
  from supply_pending [OF ch s1(4) pend P1(1) rp1 RP(2,3) qr nq(1), of m v] obtain s2 where
    s2: "supply_value_and_detach H n p v s1 = Inr ((), s2)" "chain s2 rp [(q2, u2)] r" "promises s2 q1 = None"
      "\<forall>a. a \<noteq> p \<longrightarrow> a \<noteq> q1 \<longrightarrow> a \<noteq> rp \<longrightarrow> promises s2 a = promises s1 a" unfolding m by blast
  have "promises s2 q2 = Some Q2" using s2(4) lk(4) nq Q2(1) by auto
  moreover have "futures s2 r = Some (pending_future q2)" "quiet s2 q2" using s2(2) by auto
  ultimately have "future_cancel H n r s2 = Inl (UseAfterFree ''promise'')"
    using Q2 Q2m s2(3) m lk(4) by (simp add: future_cancel_def quiet_def get_prom_def bindM_def)
  with s1(1) s2(1) us show ?thesis by simp
qed

end
