(* ===== verification/FutureProps.thy ===== *)
theory FutureProps
  imports FutureSplice
begin

text \<open>
  What the futures of src/el/future.hpp promise to their waiters and to closures that start a new
  operation, and the uses that end in a failed assertion or in a dangling pointer.
\<close>

section \<open>Waiters\<close>

text \<open>The waiters of these theorems do anything to the rest of the world, which may depend on the
  values that they find in the futures.\<close>

definition completes where
  "completes H C \<longleftrightarrow> (\<forall>s x. \<exists>s'. completed H x s = Inr ((), s')
     \<and> futures s' = futures s \<and> promises s' = promises s \<and> lnodes s' = lnodes s
     \<and> next_addr s \<le> next_addr s' \<and> world s' = C x (futures s) (world s))"

lemma preserves_detach:
  assumes "\<And>s h. f (s\<lparr>lnodes := h\<rparr>) = f s"
  shows "preserves f (detach x)"
  unfolding list_op_defs by (intro preserve_intros assms)

lemma detach_only_list:
  assumes "detach x s = Inr ((), s')"
  shows "futures s' = futures s \<and> promises s' = promises s \<and> world s' = world s"
proof -
  have "preserves (\<lambda>s. (futures s, promises s, world s)) (detach x)"
    by (rule preserves_detach) (simp add: world_def)
  from preservesD [OF this assms] show ?thesis by simp
qed

lemma notify_in_order:
  assumes ws: "clist (lnodes s) (ListOf p) ws" and new: "LocalList (Addr (next_addr s)) \<notin> set ws"
    and C: "completes H C" and n: "length ws < n"
  shows "\<exists>s'. notify_and_detach_completions H n p s = Inr ((), s')
     \<and> futures s' = futures s \<and> promises s' = promises s
     \<and> clist (lnodes s') (ListOf p) [] \<and> (\<forall>w \<in> set ws. detached (lnodes s') w)
     \<and> world s' = fold (\<lambda>w. C w (futures s)) ws (world s)"
proof -
  let ?l = "LocalList (Addr (next_addr s))"
  let ?s1 = "s\<lparr>next_addr := Suc (next_addr s)\<rparr>"
  have "clist (lnodes ?s1) (ListOf p) ws" "?l \<notin> set (ListOf p # ws)" using ws new by simp_all
  from list_move_spec [OF this] obtain h where
    h: "list_move ?l (ListOf p) ?s1 = Inr ((), ?s1\<lparr>lnodes := h\<rparr>)" "clist h ?l ws" "clist h (ListOf p) []"
    by blast
  define I where "I t zs \<longleftrightarrow> futures t = futures s \<and> promises t = promises s
      \<and> clist (lnodes t) (ListOf p) [] \<and> (\<forall>z \<in> set zs. detached (lnodes t) z)
      \<and> world t = fold (\<lambda>w. C w (futures s)) zs (world s)" for t :: "('a, 'b, 'c, 'd, 'e) fut_state_scheme" and zs
  have visit: "\<exists>t'. completed H x t = Inr ((), t') \<and> clist (lnodes t') ?l ys \<and> I t' (zs @ [x])"
    if "clist (lnodes t) ?l ys" "detached (lnodes t) x" "I t zs" for t x ys zs
  proof -
    from C obtain t' where "completed H x t = Inr ((), t')" "futures t' = futures t"
      "promises t' = promises t" "lnodes t' = lnodes t" "world t' = C x (futures t) (world t)"
      unfolding completes_def by blast
    with that show ?thesis by (auto simp: I_def)
  qed
  have stable: "I t' zs" if c: "clist (lnodes t) ?l (x # ys)" and I: "I t zs" and d: "detach x t = Inr ((), t')"
    for t x ys zs t'
  proof -
    from detach_spec [of t ?l "[]" x ys] c d obtain h' where
      h': "t' = t\<lparr>lnodes := h'\<rparr>" "agree_off (set (?l # x # ys)) (lnodes t) h'" by auto
    have same: "h' a = lnodes t a" if "a \<notin> set (?l # x # ys)" for a
      using h'(2) that by (simp add: agree_off_def)
    have off: "ListOf p \<notin> set (?l # x # ys)"
      using I by (intro empty_not_member [OF _ c]) (auto simp: I_def)
    have "clist h' (ListOf p) []" using I same [OF off] by (simp add: I_def clist_self)
    moreover have "detached h' z" if "z \<in> set zs" for z
    proof -
      have "detached (lnodes t) z" using I that by (simp add: I_def)
      with same [OF detached_not_member [OF this c]] show ?thesis
        by (simp add: detached_def live_def nextp_def prevp_def)
    qed
    ultimately show ?thesis
      using I detach_only_list [OF d] by (auto simp: I_def h'(1) world_def)
  qed
  have start: "clist (lnodes (?s1\<lparr>lnodes := h\<rparr>)) ?l ws" "I (?s1\<lparr>lnodes := h\<rparr>) []"
    using h(2,3) by (simp_all add: I_def world_def)
  have "\<exists>t. drain (first_waiter ?l) detach (completed H) n (?s1\<lparr>lnodes := h\<rparr>) = Inr ((), t)
      \<and> clist (lnodes t) ?l [] \<and> I t ([] @ ws)"
    by (rule ilist.drain_in_order [where I = I, OF _ _ start n]) (rule visit stable, assumption+)+
  then obtain t where
    t: "drain (first_waiter ?l) detach (completed H) n (?s1\<lparr>lnodes := h\<rparr>) = Inr ((), t)"
      "clist (lnodes t) ?l []" "I t ws" by auto
  then have lt: "lnodes t ?l = Some (self_node ?l)" by (simp add: clist_self)
  have "detached ((lnodes t)(?l := None)) w" if "w \<in> set ws" for w
  proof -
    have "w \<noteq> ?l" using that new by auto
    then show ?thesis using t(3) that by (simp add: I_def detached_def live_def nextp_def prevp_def)
  qed
  then show ?thesis
    using h(1) t(1,3) lt by (auto simp: notify_and_detach_completions_def I_def clist_self world_def)
qed

lemma supply_waiters:
  assumes f: "futures s f = Some (pending_future p)"
    and P: "promises s p = Some P" "matching_future P = Some f" "attached_callback P = None"
    and ws: "clist (lnodes s) (ListOf p) ws" "LocalList (Addr (next_addr s)) \<notin> set ws"
    and C: "completes H C" and n: "length ws + 1 < n"
  shows "\<exists>s'. supply_value_and_detach H n p v s = Inr ((), s')
     \<and> futures s' = (futures s)(f \<mapsto> ready_future v) \<and> promises s' = (promises s)(p \<mapsto> cleared P)
     \<and> clist (lnodes s') (ListOf p) [] \<and> (\<forall>w \<in> set ws. detached (lnodes s') w)
     \<and> world s' = fold (\<lambda>w. C w ((futures s)(f \<mapsto> ready_future v))) ws (world s)"
proof -
  obtain m where m: "n = Suc m" "length ws < m" using n by (cases n) auto
  let ?s1 = "s\<lparr>futures := (futures s)(f \<mapsto> ready_future v), promises := (promises s)(p \<mapsto> cleared P)\<rparr>"
  have cl: "cleared P = P\<lparr>matching_future := None\<rparr>" using P(3) by (cases P) (simp add: cleared_def)
  have "supply_value_and_detach H n p v s = notify_and_detach_completions H m p ?s1"
    using f P by (simp add: m default_but_completions_def cl)
  moreover have "world ?s1 = world s" by (simp add: world_def)
  ultimately show ?thesis using notify_in_order [of ?s1 p ws H C m] ws C m(2) by simp
qed

section \<open>Registration\<close>

lemma register_all:
  assumes "futures s f = Some (pending_future p)"
    and "promises s p = Some P" "matching_future P = Some f" "attached_callback P = None"
    and "clist (lnodes s) (ListOf p) xs" and "distinct ws" and "\<And>w. w \<in> set ws \<Longrightarrow> detached (lnodes s) w"
  shows "\<exists>h. mapM (register_notify f) ws s = Inr ((), s\<lparr>lnodes := h\<rparr>) \<and> clist h (ListOf p) (xs @ ws)
     \<and> (\<forall>a. a \<notin> set (ListOf p # xs @ ws) \<longrightarrow> h a = lnodes s a)"
  using assms
proof (induction ws arbitrary: s xs)
  case Nil
  then show ?case by (intro exI [of _ "lnodes s"]) simp
next
  case (Cons w ws)
  have dw: "detached (lnodes s) w" using Cons.prems by simp
  from list_push_spec [OF Cons.prems(5) dw] obtain h1 where
    h1: "list_push (ListOf p) w s = Inr ((), s\<lparr>lnodes := h1\<rparr>)" "clist h1 (ListOf p) (xs @ [w])"
      "agree_off (insert w (set (ListOf p # xs))) (lnodes s) h1" by blast
  have "is_detached w s = Inr (True, s)" using dw by (simp add: is_detached_def detached_def)
  then have reg: "register_notify f w s = Inr ((), s\<lparr>lnodes := h1\<rparr>)"
    using Cons.prems(1-4) h1(1) by (simp add: register_notify_def prom_register_notify_def)
  have same: "h1 a = lnodes s a" if "a \<notin> set (ListOf p # xs @ [w])" for a
    using h1(3) that by (simp add: agree_off_def)
  have "detached h1 e" if "e \<in> set ws" for e
  proof -
    have "detached (lnodes s) e" "e \<noteq> w" using that Cons.prems by auto
    with same detached_not_member [OF this(1) Cons.prems(5)] show ?thesis
      by (simp add: detached_def live_def nextp_def prevp_def)
  qed
  with Cons.IH [of "s\<lparr>lnodes := h1\<rparr>" "xs @ [w]"] Cons.prems h1(2) obtain h where
    h: "mapM (register_notify f) ws (s\<lparr>lnodes := h1\<rparr>) = Inr ((), s\<lparr>lnodes := h\<rparr>)"
      "clist h (ListOf p) (xs @ w # ws)" "\<forall>a. a \<notin> set (ListOf p # xs @ w # ws) \<longrightarrow> h a = h1 a"
    by auto
  with reg same show ?case by (intro exI [of _ h]) auto
qed

lemma register_supply:
  assumes w: "waiting s f p" and fresh: "fresh_ok s" and P: "promises s p = Some P"
    and ws: "distinct ws" "\<And>w. w \<in> set ws \<Longrightarrow> detached (lnodes s) w"
    and C: "completes H C" and n: "length ws + 1 < n"
  shows "\<exists>s'. thenM (mapM (register_notify f) ws) (supply_value_and_detach H n p v) s = Inr ((), s')
     \<and> futures s' = (futures s)(f \<mapsto> ready_future v) \<and> promises s' = (promises s)(p \<mapsto> cleared P)
     \<and> quiet s' p \<and> (\<forall>w \<in> set ws. detached (lnodes s') w)
     \<and> world s' = fold (\<lambda>w. C w ((futures s)(f \<mapsto> ready_future v))) ws (world s)"
proof -
  from w P have P': "matching_future P = Some f" "attached_callback P = None"
    and f: "futures s f = Some (pending_future p)" and q: "clist (lnodes s) (ListOf p) []"
    by (auto simp: waiting_def quiet_def clist_self)
  from register_all [OF f P P' q ws] obtain h where
    h: "mapM (register_notify f) ws s = Inr ((), s\<lparr>lnodes := h\<rparr>)" "clist h (ListOf p) ws" by auto
  have "LocalList (Addr (next_addr s)) \<notin> set ws"
    using ws(2) [of "LocalList (Addr (next_addr s))"] fresh_okD(4) [OF fresh order_refl]
    by (auto simp: detached_def live_def)
  with supply_waiters [of "s\<lparr>lnodes := h\<rparr>" f p P ws H C n v] f P P' h(2) C n obtain s' where
    "supply_value_and_detach H n p v (s\<lparr>lnodes := h\<rparr>) = Inr ((), s')"
    "futures s' = (futures s)(f \<mapsto> ready_future v)" "promises s' = (promises s)(p \<mapsto> cleared P)"
    "clist (lnodes s') (ListOf p) []" "\<forall>w \<in> set ws. detached (lnodes s') w"
    "world s' = fold (\<lambda>w. C w ((futures s)(f \<mapsto> ready_future v))) ws (world s)"
    by (auto simp: world_def)
  then show ?thesis using h(1) by (intro exI [of _ s']) (simp add: quiet_def clist_self)
qed

lemma waiters_abort:
  assumes w: "waiting s f p" and fresh: "fresh_ok s"
    and pend: "returns_pending H E u rp" and rp: "idle_promise s rp"
    and ws: "distinct (x # ws)" "\<And>w. w \<in> set (x # ws) \<Longrightarrow> detached (lnodes s) w" and n: "0 < n"
  shows "bindM (then_all H f [u]) (\<lambda>r. thenM (mapM (register_notify r) (x # ws))
     (supply_value_and_detach H n p v)) s = Inl (Abort ''next_ == this'')"
proof -
  obtain m where m: "n = Suc m" using n by (cases n) auto
  from w have ch: "chain s p [] f" by (simp add: waiting_def)
  have dp: "distinct (p # map fst [])" by simp
  obtain us where us: "us = [u]" by simp
  from then_all_pending [OF ch dp fresh, of H us] obtain s1 r qs where
    s1: "then_all H f us s = Inr (r, s1)" "chain s1 p qs r" "map snd qs = us"
      "distinct (p # map fst qs)" "fresh_ok s1"
      "\<forall>q \<in> fst ` set qs. promises s q = None \<and> lnodes s (ListOf q) = None"
      "\<forall>a. a \<notin> insert p (fst ` set qs) \<longrightarrow> promises s1 a = promises s a"
      "\<forall>n. n \<notin> ListOf ` fst ` set qs \<longrightarrow> lnodes s1 n = lnodes s n" by auto
  from s1(3) us obtain q where q: "qs = [(q, u)]" by (cases qs) auto
  from s1(2) q obtain P where P: "promises s1 p = Some P" "matching_future P = None"
      "attached_callback P = Some (ThenCb q u) \<or> attached_callback P = Some (CThenCb q u)" "quiet s1 p"
    by auto
  from s1(2) q obtain Q where Q: "promises s1 q = Some Q" "matching_future Q = Some r"
      "attached_callback Q = None" "futures s1 r = Some (pending_future q)" "quiet s1 q" by auto
  have pq: "p \<noteq> q" using s1(4) q by simp
  have nq: "promises s q = None" "lnodes s (ListOf q) = None" using s1(6) q by auto
  have dt: "detached (lnodes s1) w" if "w \<in> set (x # ws)" for w
  proof -
    have "detached (lnodes s) w" using ws(2) that .
    moreover from this nq(2) have "w \<noteq> ListOf q" by (auto simp: detached_def live_def)
    ultimately show ?thesis using s1(8) q by (simp add: detached_def live_def nextp_def prevp_def)
  qed
  have "clist (lnodes s1) (ListOf q) []" using Q(5) by (simp add: quiet_def clist_self)
  from register_all [OF Q(4,1-3) this ws(1) dt] obtain h where
    h: "mapM (register_notify r) (x # ws) s1 = Inr ((), s1\<lparr>lnodes := h\<rparr>)" "clist h (ListOf q) (x # ws)"
      "\<forall>a. a \<notin> set (ListOf q # x # ws) \<longrightarrow> h a = lnodes s1 a" by auto
  let ?s2 = "s1\<lparr>lnodes := h\<rparr>"
  have "clist (lnodes s1) (ListOf p) []" using P(4) by (simp add: quiet_def clist_self)
  then have "ListOf p \<notin> set (ListOf q # x # ws)"
    using detached_not_member [OF dt] pq by fastforce
  then have qp: "quiet ?s2 p" using h(3) P(4) by (simp add: quiet_def)
  from rp obtain RP where RP: "promises s rp = Some RP" "matching_future RP = None"
    "attached_callback RP = None" by (auto simp: idle_promise_def)
  have rpn: "rp \<noteq> p" "rp \<noteq> q" using w RP(1,2) nq(1) by (auto simp: waiting_def)
  have RP1: "promises ?s2 rp = Some RP" using s1(7) q rpn RP(1) by simp
  have unh: "h a = None" if "lnodes s1 a = None" for a
  proof -
    have "a \<noteq> w" if w: "w \<in> set (x # ws)" for w
      using dt [OF w] \<open>lnodes s1 a = None\<close> by (auto simp: detached_def live_def)
    moreover have "a \<noteq> ListOf q" using Q(5) that by (auto simp: quiet_def)
    ultimately have "a \<notin> set (ListOf q # x # ws)" by auto
    with h(3) that show ?thesis by simp
  qed
  have fresh2: "fresh_ok ?s2"
    unfolding fresh_ok_def unused_def using fresh_okD [OF s1(5)] unh by simp
  have "supply_value_and_detach H (Suc m) p v ?s2 = Inl (Abort ''next_ == this'')"
    by (rule supply_pending_waiters [where P = P and Q = Q and RP = RP and rp = rp and E = E and u = u])
      (use P Q h(2) fresh2 pend RP1 RP rpn pq qp in simp_all)
  with s1(1) h(1) us m show ?thesis by simp
qed


section \<open>Properties\<close>

text \<open>An example: promise 1 is waited for by future 0, promise 2 is idle, and there are two waiters,
  which log what they find in future 0. The closure 0 waits for promise 2.\<close>

definition ex_wait :: "(unit, nat, nat, unit, (nat \<times> nat) list) fut_state_scheme" where
  "ex_wait = ex_fut\<lparr>
     lnodes := [ListOf (Addr 1) \<mapsto> self_node (ListOf (Addr 1)), ListOf (Addr 2) \<mapsto> self_node (ListOf (Addr 2)),
       NotifyOf (Addr 3) 0 \<mapsto> \<lparr>next_ptr = None, prev_ptr = None\<rparr>,
       NotifyOf (Addr 3) 1 \<mapsto> \<lparr>next_ptr = None, prev_ptr = None\<rparr>],
     promises := [Addr 1 \<mapsto> linked_promise DefaultCancellable (Addr 0),
       Addr 2 \<mapsto> (linked_promise PlainPromise (Addr 0))\<lparr>matching_future := None\<rparr>], next_addr := 4\<rparr>"

definition seen :: "naddr \<Rightarrow> (addr \<Rightarrow> nat future option) \<Rightarrow> nat \<times> nat" where
  "seen w F = (case w of NotifyOf a i \<Rightarrow> i | _ \<Rightarrow> 0,
     case F (Addr 0) of None \<Rightarrow> 0 | Some f \<Rightarrow> (case fut_value f of None \<Rightarrow> 0 | Some v \<Rightarrow> v))"

definition wait_hooks ::
  "((unit, nat, nat, unit, (nat \<times> nat) list) fut_state_scheme, nat, nat, unit) hooks" where
  "wait_hooks = log_hooks\<lparr>
     run_fn := (\<lambda>u v r. thenM (modM (fut_state.more_update (\<lambda>l. l @ [(u, v)])))
       (if u = 0 then future_of_promise r (Addr 2) else future_of_value r (u + v))),
     completed := (\<lambda>w s. Inr ((), fut_state.more_update (\<lambda>l. l @ [seen w (futures s)]) s))\<rparr>"

lemma ex_wait_ok: "fresh_ok ex_wait" "waiting ex_wait (Addr 0) (Addr 1)" "idle_promise ex_wait (Addr 2)"
    "promises ex_wait (Addr 1) = Some (linked_promise DefaultCancellable (Addr 0))"
    "i < 2 \<Longrightarrow> detached (lnodes ex_wait) (NotifyOf (Addr 3) i)"
  by (auto simp: fresh_ok_def unused_def waiting_def quiet_def idle_promise_def ex_fut_def ex_wait_def
      detached_def live_def nextp_def prevp_def less_2_cases_iff)

lemma wait_hooks_run:
  "completes wait_hooks (\<lambda>w F (k, acts, rs, R, fd, l). (k, acts, rs, R, fd, l @ [seen w F]))"
  "returns_pending wait_hooks (\<lambda>u v (k, acts, rs, R, fd, l). (k, acts, rs, R, fd, l @ [(u, v)])) 0 (Addr 2)"
  "u \<noteq> 0 \<Longrightarrow> returns_ready wait_hooks (+) (\<lambda>u v (k, acts, rs, R, fd, l). (k, acts, rs, R, fd, l @ [(u, v)])) u"
  by (simp_all add: completes_def returns_pending_def returns_ready_def wait_hooks_def log_hooks_def
      future_of_value_def future_of_promise_def world_def)

text \<open>
  C4. Waiters are completed once each, in the order in which they registered. Register any number of
  waiters on a future that waits, and supply its promise: each waiter is called once, first come
  first served, already sees the value in the future, and is detached from the list afterwards; the
  list is empty and the promise is back in its default state. Enough fuel is two more than there are
  waiters.
\<close>

theorem waiters_completed_in_order:
  assumes "waiting s f p" and "fresh_ok s" and "promises s p = Some P"
    and "distinct ws" and "\<forall>w \<in> set ws. detached (lnodes s) w"
    and "completes H C" and "length ws + 1 < n"
  shows "\<exists>s'. thenM (mapM (register_notify f) ws) (supply_value_and_detach H n p v) s = Inr ((), s')
     \<and> futures s' = (futures s)(f \<mapsto> ready_future v) \<and> promises s' = (promises s)(p \<mapsto> cleared P)
     \<and> quiet s' p \<and> (\<forall>w \<in> set ws. detached (lnodes s') w)
     \<and> world s' = fold (\<lambda>w. C w ((futures s)(f \<mapsto> ready_future v))) ws (world s)"
  by (rule register_supply [OF assms(1-4) _ assms(6,7)]) (use assms(5) in blast)

theorem waiters_completed_in_order_witness:
  "\<exists>s'. thenM (mapM (register_notify (Addr 0)) [NotifyOf (Addr 3) 1, NotifyOf (Addr 3) 0])
        (supply_value_and_detach wait_hooks 4 (Addr 1) 7) ex_wait = Inr ((), s')
     \<and> fut_state.more s' = [(1, 7), (0, 7)]"
proof -
  have "\<forall>w \<in> set [NotifyOf (Addr 3) 1, NotifyOf (Addr 3) 0]. detached (lnodes ex_wait) w"
    using ex_wait_ok(5) by simp
  from waiters_completed_in_order [OF ex_wait_ok(2,1,4) _ this wait_hooks_run(1), of 4 7]
  show ?thesis by (auto simp: world_def seen_def ex_wait_def ex_fut_def)
qed

text \<open>
  C5. A closure that starts a new operation delays what is attached behind it, and nothing else.
  When the first continuation returns a future that waits for another promise (the one just
  supplied included), the rest of the chain is spliced onto that promise: supplying it runs the rest
  of the continuations once each in order, and the last future gets their value. The splice has no
  effect that can be observed in between.
\<close>

theorem then_binds:
  assumes "waiting s f p" and "fresh_ok s"
    and "returns_pending H E u rp" and "rp = p \<or> idle_promise s rp"
    and "\<forall>u' \<in> set us. returns_ready H G E u'" and "length us + 2 \<le> n"
  shows "\<exists>s' r. bindM (then_all H f (u # us)) (\<lambda>r. thenM (supply_value_and_detach H n p v)
        (thenM (supply_value_and_detach H n rp w) (ret r))) s = Inr (r, s')
    \<and> futures s' r = Some (ready_future (chain_value G us w))
    \<and> world s' = chain_effect G E us w (E u v (world s))"
  by (rule bind_chain [OF assms(1-4) _ assms(6)]) (use assms(5) in blast)

theorem then_binds_witness:
  "\<exists>s' r. bindM (then_all wait_hooks (Addr 0) [0, 5, 6]) (\<lambda>r. thenM (supply_value_and_detach wait_hooks 4 (Addr 1) 10)
        (thenM (supply_value_and_detach wait_hooks 4 (Addr 2) 20) (ret r))) ex_wait = Inr (r, s')
    \<and> futures s' r = Some (ready_future 31) \<and> fut_state.more s' = [(0, 10), (5, 20), (6, 25)]"
proof -
  have "\<forall>u' \<in> set [5, 6]. returns_ready wait_hooks (+)
      (\<lambda>u v (k, acts, rs, R, fd, l). (k, acts, rs, R, fd, l @ [(u, v)])) u'"
    using wait_hooks_run(3) by simp
  from then_binds [OF ex_wait_ok(2,1) wait_hooks_run(2) disjI2 [OF ex_wait_ok(3)] this, of 4 10 20]
  show ?thesis by (auto simp: world_def ex_wait_def ex_fut_def)
qed

text \<open>
  C16. The splice forgets the waiters. If a future that \<open>then\<close> returned has waiters and its closure
  returns a pending future, the promise of the lambda is destroyed with the waiters still in its
  list, and the list's destructor aborts.
\<close>

theorem splice_loses_waiters:
  assumes "waiting s f p" and "fresh_ok s" and "returns_pending H E u rp" and "idle_promise s rp"
    and "distinct (x # ws)" and "\<forall>w \<in> set (x # ws). detached (lnodes s) w" and "0 < n"
  shows "bindM (then_all H f [u]) (\<lambda>r. thenM (mapM (register_notify r) (x # ws))
     (supply_value_and_detach H n p v)) s = Inl (Abort ''next_ == this'')"
  by (rule waiters_abort [OF assms(1-5) _ assms(7)]) (use assms(6) in blast)

theorem splice_loses_waiters_witness:
  "bindM (then_all wait_hooks (Addr 0) [0]) (\<lambda>r. thenM (mapM (register_notify r) [NotifyOf (Addr 3) 0])
     (supply_value_and_detach wait_hooks 1 (Addr 1) 10)) ex_wait = Inl (Abort ''next_ == this'')"
  by (rule splice_loses_waiters [OF ex_wait_ok(2,1) wait_hooks_run(2) ex_wait_ok(3)])
    (use ex_wait_ok(5) in simp_all)

text \<open>
  C17. A value does not reset \<open>attached_promise_ptr_\<close>. After one \<open>cancellable_then\<close> on a future of
  a long-lived promise and a value, the promise is idle but keeps its pointer to the dead promise of
  the lambda; the next \<open>cancellable_then\<close> on it aborts.
\<close>

theorem reuse_after_cancellable_then:
  assumes "waiting s f p" and "fresh_ok s" and "promises s p = Some P" and "\<not> is_plain (pclass P)"
    and "attached_promise_ptr P = None" and "returns_ready H G E u" and "3 \<le> n"
  shows "bindM (cthen_all H f [u]) (\<lambda>r. thenM (supply_value_and_detach H n p v)
     (bindM alloc (\<lambda>f2. thenM (future_of_promise f2 p)
     (bindM alloc (\<lambda>r2. cancellable_then_f H f2 u2 r2))))) s
   = Inl (Abort ''prom->attached_promise_ptr_ == nullptr'')"
  by (rule reuse_attached [OF assms])

theorem reuse_after_cancellable_then_witness:
  "bindM (cthen_all log_hooks (Addr 0) [1]) (\<lambda>r. thenM (supply_value_and_detach log_hooks 3 (Addr 1) 10)
     (bindM alloc (\<lambda>f2. thenM (future_of_promise f2 (Addr 1))
     (bindM alloc (\<lambda>r2. cancellable_then_f log_hooks f2 2 r2))))) ex_fut
   = Inl (Abort ''prom->attached_promise_ptr_ == nullptr'')"
proof -
  have P: "promises ex_fut (Addr 1) = Some (linked_promise DefaultCancellable (Addr 0))"
    by (simp add: ex_fut_def)
  show ?thesis
    by (rule reuse_after_cancellable_then [OF ex_fut_ok(2,1) P _ _ log_hooks_ready])
      (simp_all add: is_plain_def)
qed

text \<open>
  C18. The splice leaves a pointer to a dead promise. With two \<open>cancellable_then\<close> on a future whose
  first closure starts a new operation, the callback of the second moves to the promise of that
  operation, but its promise still points back at the promise of the first lambda, which is destroyed;
  cancelling the last future then uses it.
\<close>

theorem cancel_after_splice:
  assumes "waiting s f p" and "fresh_ok s" and "promises s p = Some P" and "\<not> is_plain (pclass P)"
    and "attached_promise_ptr P = None" and "returns_pending H E u1 rp" and "idle_promise s rp" and "0 < n"
  shows "bindM (cthen_all H f [u1, u2]) (\<lambda>r. thenM (supply_value_and_detach H n p v) (future_cancel H n r)) s
   = Inl (UseAfterFree ''promise'')"
  by (rule cancel_spliced [OF assms])

theorem cancel_after_splice_witness:
  "bindM (cthen_all wait_hooks (Addr 0) [0, 1]) (\<lambda>r. thenM (supply_value_and_detach wait_hooks 3 (Addr 1) 10)
     (future_cancel wait_hooks 3 r)) ex_wait = Inl (UseAfterFree ''promise'')"
  by (rule cancel_after_splice [OF ex_wait_ok(2,1,4) _ _ wait_hooks_run(2) ex_wait_ok(3)])
    (simp_all add: is_plain_def)


end
