(* ===== verification/Values.thy ===== *)
theory Values
  imports FutureProps Options
begin

text \<open>
  The types of the program's futures and continuations. The library's templates are used at the
  types below: \<open>val\<close> is their union, a constructor per type \<open>T\<close> of \<open>future<T>\<close>. \<open>closure\<close> has a
  constructor per lambda that the program gives to \<open>then\<close>, \<open>cancellable_then\<close>, \<open>finally\<close>,
  \<open>wait_with_callback\<close> or \<open>schedule\<close> (src/el/wait_any.hpp and src/main.cpp) with what it captures.
  An object that a lambda captures by move lives at an address of its own; moving the lambda from
  one function object to another does not change that address. The single \<open>Loop\<close> is not in the
  captures. Bytes are in buffers at addresses, a \<open>char *\<close> is an address and an offset.
\<close>

section \<open>Values of futures\<close>

type_synonym interrupt_result = "read_error + unit"
type_synonym ptr = "addr \<times> nat"

record write_all_error =
  bytes_written :: nat
  write_err :: "write_error + interrupt_result"

datatype val =
    VIndex nat                                \<comment> \<open>\<open>size_t\<close>\<close>
  | VInterrupt "read_error + unit"            \<comment> \<open>\<open>expected<void, read_error>\<close>\<close>
  | VCount "errsv_error + nat"                \<comment> \<open>\<open>expected<ssize_t, read_error>\<close>, also \<open>write_error\<close>\<close>
  | VSignal "read_error + u32"                \<comment> \<open>\<open>expected<uint32_t, read_error>\<close>\<close>
  | VSocket "accept_error + Fd"               \<comment> \<open>\<open>expected<Fd, accept_error>\<close>\<close>
  | VClosed "epoll_ctl_error + close_errsv"   \<comment> \<open>\<open>expected<close_errsv, epoll_ctl_error>\<close>\<close>
  | VInterruptible "interrupt_result + val"   \<comment> \<open>\<open>expected<T, interrupt_result>\<close>\<close>
  | VWritten "write_all_error + unit"         \<comment> \<open>\<open>expected<void, write_all_error>\<close>\<close>
  | VDone "message_error + unit"              \<comment> \<open>\<open>expected<void, message_error>\<close>\<close>
  | VUnit                                     \<comment> \<open>\<open>Unit\<close>\<close>

section \<open>Data of the program\<close>

text \<open>\<open>Context\<close> without its loop; \<open>Buf\<close>; \<open>InterruptorPair\<close>: the address of the future in its
  \<open>unique_ptr\<close> and of the promise.\<close>

record ctx_data =
  ctx_interruptor :: addr

record buf_data =
  owned :: addr
  buf_length :: nat

record interruptor_pair =
  ip_future :: addr
  ip_promise :: addr

record accept_loop_state =
  wg_futs :: "addr list"
  wg_interruptors :: "interruptor_pair list"

record wait_complete_state =
  wait_i :: nat
  wait_errors :: "message_error list"

section \<open>Continuations\<close>

datatype closure =
    KInterruptible addr addr                          \<comment> \<open>\<open>wait_interruptible\<close>: interruptor, fut\<close>
  | KWritten ctx_data addr ptr nat nat                \<comment> \<open>\<open>write_all_helper\<close>: ctx, pipe, buf, count, bytes_written\<close>
  | KRead ctx_data buf_data addr addr addr            \<comment> \<open>\<open>echo_with_buf\<close>: ctx, buf, in_pipe, out_pipe, read_fut\<close>
  | KEchoed buf_data nat ctx_data addr addr           \<comment> \<open>its inner lambda: buf, nbytes_u, ctx, in_pipe, out_pipe\<close>
  | KClosePipes addr addr                             \<comment> \<open>\<open>echo_on_pipe\<close>: in_pipe, out_pipe\<close>
  | KCloseOut val addr                                \<comment> \<open>its second lambda: val, out_pipe\<close>
  | KClosedPipe val                                   \<comment> \<open>the innermost ones: val\<close>
  | KCloseSocket addr                                 \<comment> \<open>\<open>echo_on_socket\<close>: bidir_pipe\<close>
  | KWaitAll ctx_data accept_loop_state wait_complete_state   \<comment> \<open>\<open>wait_for_all_to_complete\<close>\<close>
  | KAccepted ctx_data addr accept_loop_state         \<comment> \<open>\<open>accept_loop\<close>: ctx, listen_socket, wg\<close>
  | KAcceptFailed accept_error                        \<comment> \<open>its inner lambda: error\<close>
  | KEchoDone                                         \<comment> \<open>\<open>go\<close>\<close>
  | KSignalled addr                                   \<comment> \<open>\<open>get_interrupt_future\<close>: signal_fd\<close>
  | KFinally addr addr                                \<comment> \<open>\<open>finally\<close> with main's cb: signal_fd, interruptor\<close>
  | KFinallyValue val                                 \<comment> \<open>the inner lambda of \<open>finally\<close>: value\<close>
  | KSignalFdClosed                                   \<comment> \<open>the \<open>then\<close> of main's cb\<close>
  | KFinished                                         \<comment> \<open>main's \<open>wait_with_callback\<close>\<close>
  | KStart addr Options                               \<comment> \<open>main's \<open>schedule\<close>: signal_fd, opts\<close>

text \<open>The promise classes of src/el/pipe.hpp with their \<open>pipe_\<close> pointers.\<close>

datatype prom_kind = PipeRead addr | PipeWrite addr

type_synonym ('os, 'm) prog = "('os, closure, val, prom_kind, 'm) fut_state_scheme"
type_synonym 's prog_hooks = "('s, closure, val, prom_kind) hooks"

text \<open>\<open>future::value\<close>.\<close>

definition future_value :: "addr \<Rightarrow> (('os, 'm) prog, val) M" where
  "future_value f = bindM (get_fut f) (\<lambda>F.
     thenM (tpf_assert ''value_.has_value()'' (fut_has_value F))
     (deref ''value_'' (fut_value F)))"

lemma future_value_run [simp]:
  "futures s f = Some F \<Longrightarrow> fut_value F = Some v \<Longrightarrow> future_value f s = Inr (v, s)"
  by (simp add: future_value_def fut_has_value_def)

text \<open>The destructor of the value in a future: a descriptor that nobody took is closed.\<close>

definition drop_value :: "'os syscalls \<Rightarrow> val option \<Rightarrow> (('n, 'os, 'm) os_state_scheme, unit) M" where
  "drop_value sys v = (case v of Some (VSocket (Inr fd)) \<Rightarrow> fd_destroy sys fd | _ \<Rightarrow> ret ())"

lemma drop_value_None [simp]: "drop_value sys None = ret ()"
  by (simp add: drop_value_def)

end
