(* ===== verification/WaitAny.thy ===== *)
theory WaitAny
  imports Values
begin

text \<open>
  Waiting for the first of several futures: src/el/wait_any.hpp. A \<open>wait_any_state<N>\<close> is an object
  with a promise and \<open>N\<close> waiters, whose nodes are \<open>NotifyOf\<close> its address; their \<open>state\<close> pointers
  name that address.
\<close>

section \<open>Objects\<close>

record wait_any_state =
  was_prom :: addr
  was_n :: nat

record 'os wait_st = "('os, closure, val, prom_kind) fut_state" +
  wait_states :: "addr \<Rightarrow> wait_any_state option"

definition get_ws :: "addr \<Rightarrow> (('os, 'm) wait_st_scheme, wait_any_state) M" where
  "get_ws st = (\<lambda>s. case wait_states s st of
     None \<Rightarrow> Inl (UseAfterFree ''wait_any_state'') | Some W \<Rightarrow> Inr (W, s))"

definition put_ws :: "addr \<Rightarrow> wait_any_state option \<Rightarrow> (('os, 'm) wait_st_scheme, unit) M" where
  "put_ws st W = modM (\<lambda>s. s\<lparr>wait_states := (wait_states s)(st := W)\<rparr>)"

text \<open>\<open>make_unique<wait_any_state<N>>()\<close>.\<close>

definition wait_any_state_new :: "nat \<Rightarrow> (('os, 'm) wait_st_scheme, addr) M" where
  "wait_any_state_new n =
     bindM alloc (\<lambda>st.
     bindM alloc (\<lambda>prom.
     thenM (prom_new PlainPromise prom)
     (thenM (mapM (\<lambda>i. node_init (NotifyOf st i)) [0..<n])
     (thenM (put_ws st (Some \<lparr>was_prom = prom, was_n = n\<rparr>))
     (ret st)))))"

text \<open>\<open>&state->notifies[i]\<close>.\<close>

definition notify_at :: "addr \<Rightarrow> nat \<Rightarrow> (('os, 'm) wait_st_scheme, naddr) M" where
  "notify_at st i = bindM (get_ws st) (\<lambda>W.
     if i < was_n W then ret (NotifyOf st i) else failM (OutOfBounds ''notifies''))"

text \<open>\<open>delete this\<close>: the members in the reverse of their order.\<close>

definition wait_any_state_delete :: "addr \<Rightarrow> (('os, 'm) wait_st_scheme, unit) M" where
  "wait_any_state_delete st = bindM (get_ws st) (\<lambda>W.
     thenM (mapM (\<lambda>i. node_destroy (NotifyOf st i)) (rev [0..<was_n W]))
     (thenM (prom_destroy (was_prom W)) (put_ws st None)))"

section \<open>Completion\<close>

definition notify_complete ::
  "('os, 'm) wait_st_scheme prog_hooks \<Rightarrow> nat \<Rightarrow> addr \<Rightarrow> nat \<Rightarrow> (('os, 'm) wait_st_scheme, unit) M" where
  "notify_complete H n st index =
     bindM (get_ws st) (\<lambda>W.
     thenM (tpf_assert ''index < N'' (index < was_n W))
     (thenM (mapM (\<lambda>i. unregister_self (NotifyOf st i)) [0..<index])
     (thenM (mapM (\<lambda>i. unregister_self (NotifyOf st i)) [Suc index..<was_n W])
     (bindM alloc (\<lambda>prom_moved.
      thenM (prom_move prom_moved (was_prom W))
      (thenM (wait_any_state_delete st)
      (thenM (supply_value_and_detach H n prom_moved (VIndex index))
      (prom_destroy prom_moved))))))))"

definition future_completed ::
  "('os, 'm) wait_st_scheme prog_hooks \<Rightarrow> nat \<Rightarrow> naddr \<Rightarrow> (('os, 'm) wait_st_scheme, unit) M" where
  "future_completed H n w = (case w of
     NotifyOf st i \<Rightarrow> notify_complete H n st i
   | _ \<Rightarrow> failM (BadCast ''future_notify''))"

section \<open>Waiting\<close>

text \<open>\<open>check_evaled\<close> for one future, on the values of \<open>i\<close> and \<open>seen_ready\<close>.\<close>

definition check_evaled :: "addr \<Rightarrow> nat \<times> bool \<Rightarrow> (('os, 'm) wait_st_scheme, nat \<times> bool) M" where
  "check_evaled fut st =
     (if snd st then ret st
      else bindM (get_fut fut) (\<lambda>F.
        if fut_has_value F then ret (fst st, True)
        else thenM (tpf_assert ''!fut->is_default_constructed()'' (\<not> fut_default F))
          (ret (Suc (fst st), False))))"

fun check_all :: "addr list \<Rightarrow> nat \<times> bool \<Rightarrow> (('os, 'm) wait_st_scheme, nat \<times> bool) M" where
  "check_all [] st = ret st"
| "check_all (f # fs) st = bindM (check_evaled f st) (check_all fs)"

text \<open>The overloads of \<open>await_notifications\<close>; each makes a \<open>wait_any_state<2>\<close>.\<close>

definition register_at :: "addr \<Rightarrow> addr \<Rightarrow> nat \<Rightarrow> (('os, 'm) wait_st_scheme, unit) M" where
  "register_at f st i = bindM (notify_at st i) (register_notify f)"

definition await_notifications :: "addr list \<Rightarrow> addr \<Rightarrow> (('os, 'm) wait_st_scheme, unit) M" where
  "await_notifications fs fut =
     bindM (wait_any_state_new 2) (\<lambda>state.
     bindM (get_ws state) (\<lambda>W.
     thenM (future_of_promise fut (was_prom W))
     (case fs of
        [fut0] \<Rightarrow> register_at fut0 state 0
      | [fut0, fut1] \<Rightarrow> thenM (register_at fut0 state 0) (register_at fut1 state 1)
      | [fut0, fut1, fut2] \<Rightarrow> thenM (register_at fut0 state 0)
          (thenM (register_at fut1 state 1) (register_at fut2 state 2))
      | _ \<Rightarrow> failM (BadCast ''await_notifications''))))"

definition wait_any :: "addr list \<Rightarrow> addr \<Rightarrow> (('os, 'm) wait_st_scheme, unit) M" where
  "wait_any fs fut =
     bindM (check_all fs (0, False)) (\<lambda>(i, seen_ready).
     if seen_ready then future_of_value fut (VIndex i)
     else await_notifications fs fut)"

text \<open>\<open>wait_interruptible\<close>; the future it returns is constructed at \<open>r\<close>.\<close>

definition wait_interruptible ::
  "('os, 'm) wait_st_scheme prog_hooks \<Rightarrow> addr \<Rightarrow> addr \<Rightarrow> addr \<Rightarrow> (('os, 'm) wait_st_scheme, unit) M" where
  "wait_interruptible H interruptor fut r =
     bindM alloc (\<lambda>index_fut.
     thenM (wait_any [interruptor, fut] index_fut)
     (bindM alloc (\<lambda>captured.
      thenM (future_move captured fut)
      (thenM (then_f H index_fut (KInterruptible interruptor captured) r)
      (future_destroy index_fut)))))"

text \<open>The lambda, called with an index and then destroyed with the future it captured.\<close>

definition interruptible_lambda ::
  "'os syscalls \<Rightarrow> ('os, 'm) wait_st_scheme prog_hooks \<Rightarrow> nat \<Rightarrow> addr \<Rightarrow> addr \<Rightarrow> nat \<Rightarrow> addr
     \<Rightarrow> (('os, 'm) wait_st_scheme, unit) M" where
  "interruptible_lambda sys H n interruptor fut index_ready r =
     thenM (if index_ready = 0 then
         thenM (bindM (get_fut fut) (\<lambda>F. thenM (future_cancel H n fut) (drop_value sys (fut_value F))))
         (bindM (future_value interruptor) (\<lambda>v. case v of
            VInterrupt res \<Rightarrow> future_of_value r (VInterruptible (Inl res))
          | _ \<Rightarrow> failM (BadCast ''interrupt_future'')))
       else bindM (future_value fut) (\<lambda>v. future_of_value r (VInterruptible (Inr v))))
     (future_destroy fut)"

section \<open>Lists with one waiter\<close>

abbreviation both :: "'n \<Rightarrow> 'n lnode" where
  "both x \<equiv> \<lparr>next_ptr = Some x, prev_ptr = Some x\<rparr>"

abbreviation free_node :: "'n lnode" where
  "free_node \<equiv> \<lparr>next_ptr = None, prev_ptr = None\<rparr>"

lemmas node_op_defs = live_def nextp_def prevp_def upd_next_def upd_prev_def

lemma list_push_one [simp]:
  "lnodes s l = Some (self_node l) \<Longrightarrow> lnodes s e = Some free_node \<Longrightarrow> l \<noteq> e \<Longrightarrow>
   list_push l e s = Inr ((), s\<lparr>lnodes := (lnodes s)(l \<mapsto> both e, e \<mapsto> both l)\<rparr>)"
  by (simp add: list_push_def insert_before_def is_properly_detached_def is_detached_def node_op_defs self_node_def
      fun_upd_twist)

lemma list_move_one [simp]:
  "lnodes s l = Some (both e) \<Longrightarrow> lnodes s e = Some (both l) \<Longrightarrow> l \<noteq> e \<Longrightarrow> m \<noteq> l \<Longrightarrow> m \<noteq> e \<Longrightarrow>
   list_move m l s = Inr ((), s\<lparr>lnodes := (lnodes s)(m \<mapsto> both e, e \<mapsto> both m, l \<mapsto> self_node l)\<rparr>)"
  by (simp add: list_move_def assert_shallow_def node_init_def node_op_defs self_node_def fun_upd_twist)

lemma detach_one [simp]:
  "lnodes s e = Some (both l) \<Longrightarrow> lnodes s l = Some (both e) \<Longrightarrow> l \<noteq> e \<Longrightarrow>
   detach e s = Inr ((), s\<lparr>lnodes := (lnodes s)(l \<mapsto> self_node l, e \<mapsto> free_node)\<rparr>)"
  by (simp add: detach_def is_detached_def node_op_defs self_node_def fun_upd_twist)

lemma first_waiter_one [simp]:
  "lnodes s l = Some (both e) \<Longrightarrow> l \<noteq> e \<Longrightarrow> first_waiter l s = Inr (Some e, s)"
  by (simp add: first_waiter_def node_next_def node_op_defs)

lemma unregister_one [simp]:
  "lnodes s e = Some (both l) \<Longrightarrow> lnodes s l = Some (both e) \<Longrightarrow> l \<noteq> e \<Longrightarrow>
   unregister_self e s = Inr ((), s\<lparr>lnodes := (lnodes s)(l \<mapsto> self_node l, e \<mapsto> free_node)\<rparr>)"
  by (simp add: unregister_self_def is_detached_def node_op_defs)

lemma unregister_none [simp]: "lnodes s e = Some free_node \<Longrightarrow> unregister_self e s = Inr ((), s)"
  by (simp add: unregister_self_def is_detached_def node_op_defs)

lemma node_destroy_run [simp]:
  "lnodes s e = Some free_node \<Longrightarrow> node_destroy e s = Inr ((), s\<lparr>lnodes := (lnodes s)(e := None)\<rparr>)"
  by (simp add: node_destroy_def is_properly_detached_def node_op_defs)

lemma register_notify_one [simp]:
  "futures s f = Some (pending_future p) \<Longrightarrow> promises s p = Some P \<Longrightarrow> matching_future P = Some f \<Longrightarrow>
   attached_callback P = None \<Longrightarrow> lnodes s (ListOf p) = Some (self_node (ListOf p)) \<Longrightarrow>
   lnodes s e = Some free_node \<Longrightarrow> ListOf p \<noteq> e \<Longrightarrow>
   register_notify f e s = Inr ((), s\<lparr>lnodes := (lnodes s)(ListOf p \<mapsto> both e, e \<mapsto> both (ListOf p))\<rparr>)"
  by (simp add: register_notify_def prom_register_notify_def is_detached_def node_op_defs)

lemma get_ws_run [simp]: "wait_states s st = Some W \<Longrightarrow> get_ws st s = Inr (W, s)"
  by (simp add: get_ws_def)

lemma put_ws_run [simp]: "put_ws st W s = Inr ((), s\<lparr>wait_states := (wait_states s)(st := W)\<rparr>)"
  by (simp add: put_ws_def)

lemma notify_at_run [simp]:
  "wait_states s st = Some W \<Longrightarrow> notify_at st i s
   = (if i < was_n W then Inr (NotifyOf st i, s) else Inl (OutOfBounds ''notifies''))"
  by (simp add: notify_at_def)

lemma upto_2: "[0..<2] = [0, 1 :: nat]"
  by (simp add: upt_rec)

lemma node_init_run [simp]: "node_init e s = Inr ((), s\<lparr>lnodes := (lnodes s)(e \<mapsto> free_node)\<rparr>)"
  by (simp add: node_init_def)


section \<open>Two futures that wait\<close>

definition rest where
  "rest s = (os s, epoll_fd s, enqueued_actions s, registrants s, regs s, reg_fd s, wait_st.more s)"

lemma fresh_promise: "fresh_ok s \<Longrightarrow> promises s p = Some P \<Longrightarrow> next_addr s \<le> n \<Longrightarrow> p \<noteq> Addr n \<and> Addr n \<noteq> p"
  using fresh_okD(2) by fastforce

lemma fresh_future: "fresh_ok s \<Longrightarrow> futures s f = Some F \<Longrightarrow> next_addr s \<le> n \<Longrightarrow> f \<noteq> Addr n \<and> Addr n \<noteq> f"
  using fresh_okD(1) by fastforce

text \<open>A future \<open>f\<close> that waits for \<open>p\<close>, as \<open>waiting\<close> but with the promise written out.\<close>

definition linked where
  "linked s f p P \<longleftrightarrow> futures s f = Some (pending_future p) \<and> promises s p = Some P \<and> matching_future P = Some f
     \<and> attached_callback P = None \<and> lnodes s (ListOf p) = Some (self_node (ListOf p))"

lemma check_all_pending:
  "(\<And>f. f \<in> set fs \<Longrightarrow> \<exists>p. futures s f = Some (pending_future p))
   \<Longrightarrow> check_all fs (i, False) s = Inr ((i + length fs, False), s)"
proof (induction fs arbitrary: i)
  case (Cons f fs)
  then obtain p where "futures s f = Some (pending_future p)" by force
  then have "check_evaled f (i, False) s = Inr ((Suc i, False), s)"
    by (simp add: check_evaled_def fut_has_value_def fut_default_def)
  with Cons show ?case by simp
qed simp

lemma wait_any_pending:
  assumes l: "linked s f0 p0 P0" "linked s f1 p1 P1" and fresh: "fresh_ok s"
    and p: "p0 \<noteq> p1" "p1 \<noteq> p0" and r: "r \<noteq> f0" "f0 \<noteq> r" "r \<noteq> f1" "f1 \<noteq> r"
    and a: "st = Addr (next_addr s)" "q = Addr (Suc (next_addr s))"
  shows "\<exists>s1. wait_any [f0, f1] r s = Inr ((), s1)
     \<and> futures s1 = (futures s)(r \<mapsto> pending_future q)
     \<and> promises s1 = (promises s)(q \<mapsto> linked_promise PlainPromise r)
     \<and> lnodes s1 = (lnodes s)(ListOf q \<mapsto> self_node (ListOf q),
         ListOf p0 \<mapsto> both (NotifyOf st 0), NotifyOf st 0 \<mapsto> both (ListOf p0),
         ListOf p1 \<mapsto> both (NotifyOf st 1), NotifyOf st 1 \<mapsto> both (ListOf p1))
     \<and> wait_states s1 = (wait_states s)(st \<mapsto> \<lparr>was_prom = q, was_n = 2\<rparr>)
     \<and> next_addr s1 = Suc (Suc (next_addr s)) \<and> rest s1 = rest s"
proof -
  have ne: "p0 \<noteq> q" "q \<noteq> p0" "p1 \<noteq> q" "q \<noteq> p1"
    using fresh_promise [OF fresh] l a by (auto simp: linked_def)
  have "check_all [f0, f1] (0, False) s = Inr ((0 + length [f0, f1], False), s)"
    by (rule check_all_pending) (use l in \<open>auto simp: linked_def\<close>)
  then show ?thesis using l
    by (simp add: wait_any_def await_notifications_def wait_any_state_new_def register_at_def upto_2
        linked_def future_of_promise_def rest_def a [symmetric] ne p r del: check_all.simps)
qed


lemma prom_move_plain:
  assumes "promises s p = Some Q" and "pclass Q = PlainPromise" and "attached_promise_ptr Q = None"
    and "backwards_pointed_promise Q = None" and "lnodes s (ListOf p) = Some (self_node (ListOf p))"
    and "q \<noteq> p" "p \<noteq> q"
    and "\<And>f. matching_future Q = Some f \<Longrightarrow> futures s f \<noteq> None"
  shows "prom_move q p s = Inr ((), s\<lparr>lnodes := (lnodes s)(ListOf q \<mapsto> self_node (ListOf q)),
     promises := (promises s)(q \<mapsto> Q, p \<mapsto> Q\<lparr>attached_callback := None, matching_future := None\<rparr>),
     futures := (case matching_future Q of None \<Rightarrow> futures s
       | Some f \<Rightarrow> (futures s)(f := map_option (matching_promise_update (\<lambda>_. Some q)) (futures s f)))\<rparr>)"
proof -
  obtain mf cb where Q: "Q = \<lparr>pclass = PlainPromise, matching_future = mf, attached_callback = cb,
      attached_promise_ptr = None, backwards_pointed_promise = None\<rparr>"
    using assms(2-4) by (cases Q) simp
  show ?thesis
  proof (cases mf)
    case None
    then show ?thesis using assms(1,5-7)
      by (simp add: Q prom_move_def is_then_f_def is_plain_def base_promise_move_def)
  next
    case (Some f)
    then obtain F where "futures s f = Some F" using assms(8) Q by auto
    with Some show ?thesis using assms(1,5-7)
      by (simp add: Q prom_move_def is_then_f_def is_plain_def base_promise_move_def)
  qed
qed


lemma monad_assoc:
  "thenM (thenM a b) c = thenM a (thenM b c)" "thenM (bindM a f) c = bindM a (\<lambda>x. thenM (f x) c)"
  "bindM (thenM a b) g = thenM a (bindM b g)" "bindM (bindM a f) g = bindM a (\<lambda>x. bindM (f x) g)"
  by (simp_all add: thenM_def bindM_assoc)

text \<open>The waiter \<open>i\<close> of a \<open>wait_any_state<2>\<close>, out of its list, is completed while the other still
  waits for \<open>pj\<close>.\<close>

lemma notify_complete_run:
  assumes ni: "lnodes s (NotifyOf st i) = Some free_node"
    and nj: "lnodes s (ListOf pj) = Some (both (NotifyOf st j))" "lnodes s (NotifyOf st j) = Some (both (ListOf pj))"
    and ij: "i = 0 \<and> j = 1 \<or> i = 1 \<and> j = 0" and ne: "q \<noteq> pj" "pj \<noteq> q"
    and ws: "wait_states s st = Some \<lparr>was_prom = q, was_n = 2\<rparr>"
    and q: "promises s q = Some Q" "pclass Q = PlainPromise" "attached_promise_ptr Q = None"
      "backwards_pointed_promise Q = None" "lnodes s (ListOf q) = Some (self_node (ListOf q))"
      "\<And>f. matching_future Q = Some f \<Longrightarrow> futures s f \<noteq> None"
    and qm: "qm = Addr (next_addr s)" "qm \<noteq> q" "q \<noteq> qm" "qm \<noteq> pj" "pj \<noteq> qm"
  shows "notify_complete H m st i s = thenM (supply_value_and_detach H m qm (VIndex i)) (prom_destroy qm)
    (s\<lparr>next_addr := Suc (next_addr s),
       lnodes := (lnodes s)(ListOf pj \<mapsto> self_node (ListOf pj), ListOf qm \<mapsto> self_node (ListOf qm),
         NotifyOf st 0 := None, NotifyOf st 1 := None, ListOf q := None),
       promises := (promises s)(qm \<mapsto> Q, q := None),
       futures := (case matching_future Q of None \<Rightarrow> futures s | Some f \<Rightarrow>
         (futures s)(f := map_option (matching_promise_update (\<lambda>_. Some qm)) (futures s f))),
       wait_states := (wait_states s)(st := None)\<rparr>)" (is "_ = ?K ?s2")
proof -
  have upt: "[Suc 0..<2] = [Suc 0]" "[0..<2] = [0, Suc 0]" by (simp_all add: upt_rec)
  note run = notify_complete_def wait_any_state_delete_def
  note facts = ws upt ne prom_move_plain q(1-5) qm(1) [symmetric] qm(2-5)
  from ij show ?thesis
  proof (elim disjE conjE)
    assume ij: "i = 0" "j = 1"
    show ?thesis
      using q(6)
      by (simp add: run facts nj [unfolded ij One_nat_def] ni [unfolded ij] ij,
        intro arg_cong [where f = "thenM (supply_value_and_detach H m qm (VIndex 0)) (prom_destroy qm)"]
          wait_st.equality) (auto simp: ij split: option.split)
  next
    assume ij: "i = 1" "j = 0"
    show ?thesis
      using q(6)
      by (simp add: run facts nj [unfolded ij] ni [unfolded ij One_nat_def] ij,
        intro arg_cong [where f = "thenM (supply_value_and_detach H m qm (VIndex (Suc 0))) (prom_destroy qm)"]
          wait_st.equality) (auto simp: ij split: option.split)
  qed
qed

lemma thenM_cong: "a s = thenM b c t \<Longrightarrow> thenM a k s = thenM b (thenM c k) t"
  by (simp add: thenM_def bindM_def split: sum.splits prod.splits)

text \<open>The promise \<open>pi\<close> of one of the two futures gets its value; \<open>Q\<close> is the promise in the
  \<open>wait_any_state\<close>, still paired with a future or with a callback attached.\<close>

lemma complete_two:
  assumes i: "futures s fi = Some (pending_future pi)" "promises s pi = Some Pi" "matching_future Pi = Some fi"
      "attached_callback Pi = None"
    and ni: "lnodes s (ListOf pi) = Some (both (NotifyOf st i))" "lnodes s (NotifyOf st i) = Some (both (ListOf pi))"
    and nj: "lnodes s (ListOf pj) = Some (both (NotifyOf st j))" "lnodes s (NotifyOf st j) = Some (both (ListOf pj))"
    and ij: "i = 0 \<and> j = 1 \<or> i = 1 \<and> j = 0" and ne: "pi \<noteq> pj" "pj \<noteq> pi" "q \<noteq> pi" "pi \<noteq> q" "q \<noteq> pj" "pj \<noteq> q"
    and ws: "wait_states s st = Some \<lparr>was_prom = q, was_n = 2\<rparr>"
    and q: "promises s q = Some Q" "pclass Q = PlainPromise" "attached_promise_ptr Q = None"
      "backwards_pointed_promise Q = None" "lnodes s (ListOf q) = Some (self_node (ListOf q))"
      "\<And>f. matching_future Q = Some f \<Longrightarrow> futures s f \<noteq> None \<and> f \<noteq> fi \<and> fi \<noteq> f"
    and new: "promises s (Addr (Suc (next_addr s))) = None" "lnodes s (ListOf (Addr (Suc (next_addr s)))) = None"
      "lnodes s (LocalList (Addr (next_addr s))) = None"
    and C: "completed H = future_completed H1 m"
  shows "\<exists>s2. supply_value_and_detach H (Suc (Suc n)) pi v s =
      thenM (supply_value_and_detach H1 m (Addr (Suc (next_addr s))) (VIndex i))
        (thenM (prom_destroy (Addr (Suc (next_addr s))))
        (thenM (drain (first_waiter (LocalList (Addr (next_addr s)))) detach (completed H) n)
          (list_destroy (LocalList (Addr (next_addr s)))))) s2
    \<and> futures s2 = (case matching_future Q of None \<Rightarrow> futures s | Some f \<Rightarrow>
        (futures s)(f := map_option (matching_promise_update (\<lambda>_. Some (Addr (Suc (next_addr s))))) (futures s f)))
        (fi \<mapsto> ready_future v)
    \<and> promises s2 = (promises s)(pi \<mapsto> cleared Pi, Addr (Suc (next_addr s)) \<mapsto> Q, q := None)
    \<and> lnodes s2 = (lnodes s)(ListOf pi \<mapsto> self_node (ListOf pi), ListOf pj \<mapsto> self_node (ListOf pj),
        NotifyOf st 0 := None, NotifyOf st 1 := None, ListOf q := None,
        ListOf (Addr (Suc (next_addr s))) \<mapsto> self_node (ListOf (Addr (Suc (next_addr s)))),
        LocalList (Addr (next_addr s)) \<mapsto> self_node (LocalList (Addr (next_addr s))))
    \<and> wait_states s2 = (wait_states s)(st := None) \<and> next_addr s2 = Suc (Suc (next_addr s)) \<and> rest s2 = rest s"
proof -
  let ?L = "LocalList (Addr (next_addr s))" and ?qm = "Addr (Suc (next_addr s))"
  have qm: "?qm \<noteq> q" "q \<noteq> ?qm" "?qm \<noteq> pi" "pi \<noteq> ?qm" "?qm \<noteq> pj" "pj \<noteq> ?qm"
    using new(1,2) q(1) i(2) nj(1) by auto
  have cl: "cleared Pi = Pi\<lparr>matching_future := None\<rparr>" using i(4) by (cases Pi) (simp add: cleared_def)
  have nn: "NotifyOf st i \<noteq> NotifyOf st j" "NotifyOf st j \<noteq> NotifyOf st i" "i < 2" using ij by auto
  let ?s1 = "s\<lparr>futures := (futures s)(fi \<mapsto> ready_future v), promises := (promises s)(pi \<mapsto> cleared Pi),
    next_addr := Suc (next_addr s),
    lnodes := (lnodes s)(ListOf pi \<mapsto> self_node (ListOf pi), ?L \<mapsto> self_node ?L, NotifyOf st i \<mapsto> free_node)\<rparr>"
  have 1: "supply_value_and_detach H (Suc (Suc n)) pi v s =
     thenM (notify_complete H1 m st i)
        (thenM (drain (first_waiter ?L) detach (completed H) n) (list_destroy ?L)) ?s1"
    using i ni new(3) cl
    by (simp add: default_but_completions_def notify_and_detach_completions_def C future_completed_def monad_assoc)
  have s1: "lnodes ?s1 (NotifyOf st i) = Some free_node" "lnodes ?s1 (ListOf pj) = Some (both (NotifyOf st j))"
    "lnodes ?s1 (NotifyOf st j) = Some (both (ListOf pj))" "lnodes ?s1 (ListOf q) = Some (self_node (ListOf q))"
    "wait_states ?s1 st = Some \<lparr>was_prom = q, was_n = 2\<rparr>" "promises ?s1 q = Some Q"
    using nj nn ne q ws by simp_all
  have fq: "\<And>f. matching_future Q = Some f \<Longrightarrow> futures ?s1 f \<noteq> None" using q(6) by auto
  have nx: "?qm = Addr (next_addr ?s1)" by simp
  note nc = notify_complete_run [OF s1(1-3) ij ne(5,6) s1(5,6) q(2-4) s1(4) fq nx qm(1,2,5,6), of H1 m]
  show ?thesis
    by (rule exI, rule conjI, rule trans [OF 1], rule thenM_cong, rule nc)
      (use ne qm q(6) nn(3) in \<open>auto simp: rest_def fun_eq_iff less_2_cases_iff split: option.split\<close>)
qed

text \<open>No object lives at an address that is still to be given out.\<close>

definition fresh_ws :: "('os, 'm) wait_st_scheme \<Rightarrow> bool" where
  "fresh_ws s \<longleftrightarrow> fresh_ok s
     \<and> (\<forall>n \<ge> next_addr s. wait_states s (Addr n) = None \<and> (\<forall>i. lnodes s (NotifyOf (Addr n) i) = None))"

lemma fresh_wsD:
  "fresh_ws s \<Longrightarrow> fresh_ok s" "fresh_ws s \<Longrightarrow> next_addr s \<le> n \<Longrightarrow> wait_states s (Addr n) = None"
  "fresh_ws s \<Longrightarrow> next_addr s \<le> n \<Longrightarrow> lnodes s (NotifyOf (Addr n) i) = None"
  by (simp_all add: fresh_ws_def)

lemma quiet_fresh: "fresh_ok s \<Longrightarrow> lnodes s (ListOf p) = Some x \<Longrightarrow> next_addr s \<le> n \<Longrightarrow> p \<noteq> Addr n \<and> Addr n \<noteq> p"
  using fresh_okD(3) by fastforce

text \<open>Waiting for two futures and then supplying the promise of one, up to where the promise of the
  \<open>wait_any_state\<close>, moved to \<open>qm\<close>, gets the index.\<close>

lemma wait_any_supplied:
  fixes i j :: nat
  assumes l: "linked s fi pi Pi" "linked s fj pj Pj" and fresh: "fresh_ws s"
    and p: "pi \<noteq> pj" "pj \<noteq> pi" and r: "r \<noteq> fi" "fi \<noteq> r" "r \<noteq> fj" "fj \<noteq> r"
    and rr: "\<And>n. next_addr s \<le> n \<Longrightarrow> r \<noteq> Addr n"
    and ij: "i = 0 \<and> j = 1 \<and> fs = [fi, fj] \<or> i = 1 \<and> j = 0 \<and> fs = [fj, fi]"
    and C: "completed H = future_completed H1 m" and m: "2 \<le> m" and n: "3 \<le> n"
  shows "\<exists>s'. thenM (wait_any fs r) (supply_value_and_detach H n pi v) s = Inr ((), s')
     \<and> futures s' = (futures s)(r \<mapsto> ready_future (VIndex i), fi \<mapsto> ready_future v)
     \<and> promises s' = (promises s)(pi \<mapsto> cleared Pi) \<and> lnodes s' = lnodes s
     \<and> wait_states s' = wait_states s \<and> rest s' = rest s"
proof -
  let ?a = "next_addr s"
  let ?st = "Addr ?a" and ?q = "Addr (Suc ?a)" and ?L = "LocalList (Addr (Suc (Suc ?a)))" and ?qm = "Addr (Suc (Suc (Suc ?a)))"
  note fr = fresh_wsD(1) [OF fresh]
  have old: "pi \<noteq> Addr k" "pj \<noteq> Addr k" "Addr k \<noteq> pi" "Addr k \<noteq> pj" "fi \<noteq> Addr k" if "?a \<le> k" for k
    using fresh_promise [OF fr _ that] fresh_future [OF fr _ that] l by (auto simp: linked_def)
  have "\<exists>s1. wait_any fs r s = Inr ((), s1)
     \<and> futures s1 = (futures s)(r \<mapsto> pending_future ?q)
     \<and> promises s1 = (promises s)(?q \<mapsto> linked_promise PlainPromise r)
     \<and> lnodes s1 = (lnodes s)(ListOf ?q \<mapsto> self_node (ListOf ?q),
         ListOf pi \<mapsto> both (NotifyOf ?st i), NotifyOf ?st i \<mapsto> both (ListOf pi),
         ListOf pj \<mapsto> both (NotifyOf ?st j), NotifyOf ?st j \<mapsto> both (ListOf pj))
     \<and> wait_states s1 = (wait_states s)(?st \<mapsto> \<lparr>was_prom = ?q, was_n = 2\<rparr>)
     \<and> next_addr s1 = Suc (Suc (next_addr s)) \<and> rest s1 = rest s"
    using ij wait_any_pending [OF l fr p r refl refl] wait_any_pending [OF l(2,1) fr p(2,1) r(3,4,1,2) refl refl] p
    by (elim disjE conjE) (simp_all add: fun_upd_twist)
  then obtain s1 where
    s1: "wait_any fs r s = Inr ((), s1)"
     "futures s1 = (futures s)(r \<mapsto> pending_future ?q)"
     "promises s1 = (promises s)(?q \<mapsto> linked_promise PlainPromise r)"
     "lnodes s1 = (lnodes s)(ListOf ?q \<mapsto> self_node (ListOf ?q),
         ListOf pi \<mapsto> both (NotifyOf ?st i), NotifyOf ?st i \<mapsto> both (ListOf pi),
         ListOf pj \<mapsto> both (NotifyOf ?st j), NotifyOf ?st j \<mapsto> both (ListOf pj))"
     "wait_states s1 = (wait_states s)(?st \<mapsto> \<lparr>was_prom = ?q, was_n = 2\<rparr>)"
     "next_addr s1 = Suc (Suc (next_addr s))" "rest s1 = rest s" by blast
  obtain k where k: "n = Suc (Suc k)" "0 < k" using n by (metis Suc_le_D Suc_le_mono numeral_3_eq_3 zero_less_Suc)
  have ne: "pi \<noteq> ?q" "?q \<noteq> pi" "pj \<noteq> ?q" "?q \<noteq> pj" "NotifyOf ?st i \<noteq> NotifyOf ?st j" "NotifyOf ?st j \<noteq> NotifyOf ?st i"
    using old [of "Suc ?a"] ij by auto
  have ij': "i = 0 \<and> j = 1 \<or> i = 1 \<and> j = 0" using ij by blast
  have i1: "futures s1 fi = Some (pending_future pi)" "promises s1 pi = Some Pi" "matching_future Pi = Some fi"
      "attached_callback Pi = None"
    "lnodes s1 (ListOf pi) = Some (both (NotifyOf ?st i))" "lnodes s1 (NotifyOf ?st i) = Some (both (ListOf pi))"
    "lnodes s1 (ListOf pj) = Some (both (NotifyOf ?st j))" "lnodes s1 (NotifyOf ?st j) = Some (both (ListOf pj))"
    "wait_states s1 ?st = Some \<lparr>was_prom = ?q, was_n = 2\<rparr>"
    "promises s1 ?q = Some (linked_promise PlainPromise r)"
    "lnodes s1 (ListOf ?q) = Some (self_node (ListOf ?q))"
    using l ne p r unfolding s1 by (simp_all add: linked_def)
  have new: "promises s1 ?qm = None" "lnodes s1 (ListOf ?qm) = None" "lnodes s1 ?L = None"
    using old fresh_okD [OF fr] unfolding s1 by simp_all
  have qf: "matching_future (linked_promise PlainPromise r :: (closure, prom_kind) promise) = Some f \<Longrightarrow> futures s1 f \<noteq> None \<and> f \<noteq> fi \<and> fi \<noteq> f" for f
    using r unfolding s1 by auto
  have new': "promises s1 (Addr (Suc (next_addr s1))) = None" "lnodes s1 (ListOf (Addr (Suc (next_addr s1)))) = None"
      "lnodes s1 (LocalList (Addr (next_addr s1))) = None" using new s1(6) by simp_all
  note ct = complete_two [OF i1(1-8) ij' p ne(2,1,4,3) i1(9,10) _ _ _ i1(11) qf new' C, of k v, unfolded s1(2,3,6)]
  obtain s2 where s2: "supply_value_and_detach H n pi v s1 =
      thenM (supply_value_and_detach H1 m ?qm (VIndex i)) (thenM (prom_destroy ?qm)
        (thenM (drain (first_waiter ?L) detach (completed H) k) (list_destroy ?L))) s2"
     "futures s2 = (futures s)(r \<mapsto> pending_future ?qm, fi \<mapsto> ready_future v)"
     "promises s2 = (promises s)(pi \<mapsto> cleared Pi, ?qm \<mapsto> linked_promise PlainPromise r, ?q := None)"
     "lnodes s2 = (lnodes s1)(ListOf pi \<mapsto> self_node (ListOf pi), ListOf pj \<mapsto> self_node (ListOf pj),
        NotifyOf ?st 0 := None, NotifyOf ?st 1 := None, ListOf ?q := None, ListOf ?qm \<mapsto> self_node (ListOf ?qm),
        ?L \<mapsto> self_node ?L)"
     "wait_states s2 = (wait_states s1)(?st := None)" "next_addr s2 = Suc (Suc (next_addr s1))" "rest s2 = rest s1"
    using ct r unfolding k(1) s1(2,3,6) by (auto simp del: supply_value_and_detach.simps)
  have fr2: "fresh_ok s2"
    unfolding fresh_ok_def
  proof (intro allI impI)
    fix n assume "next_addr s2 \<le> n"
    then have n: "Suc (Suc (Suc (Suc ?a))) \<le> n" using s2(6) s1(6) by simp
    then have n': "?a \<le> n" by simp
    show "unused s2 (Addr n)"
      using fresh_okD [OF fr n'] old [OF n'] rr [OF n'] n unfolding unused_def s2 s1 by auto
  qed
  obtain m' where m': "m = Suc m'" "0 < m'" using m by (cases m) auto
  have "quiet s2 ?qm" unfolding quiet_def s2 by simp
  from supply_paired [OF _ _ _ _ this fr2 m'(2), where r = r and P = "linked_promise PlainPromise r" and v = "VIndex i" and H = H1] s2(2,3) r ne
  have sup: "supply_value_and_detach H1 m ?qm (VIndex i) s2 = Inr ((), s2\<lparr>
     futures := (futures s2)(r \<mapsto> ready_future (VIndex i)),
     promises := (promises s2)(?qm \<mapsto> (linked_promise PlainPromise r)\<lparr>matching_future := None\<rparr>),
     next_addr := Suc (next_addr s2)\<rparr>)"
    unfolding m'(1) by (simp add: cleared_def del: supply_value_and_detach.simps)
  define s3 where "s3 = s2\<lparr>futures := (futures s2)(r \<mapsto> ready_future (VIndex i)),
     promises := (promises s2)(?qm := None), next_addr := Suc (next_addr s2),
     lnodes := (lnodes s2)(ListOf ?qm := None, ?L := None)\<rparr>"
  have "supply_value_and_detach H n pi v s1 = Inr ((), s3)"
    unfolding s2(1) s3_def by (simp add: sup s2(4) k(2) del: supply_value_and_detach.simps)
  then have "thenM (wait_any fs r) (supply_value_and_detach H n pi v) s = Inr ((), s3)"
    using s1(1) by simp
  moreover have "promises s3 = (promises s)(pi \<mapsto> cleared Pi)"
    using old fresh_okD(2) [OF fr, of "Suc ?a"] fresh_okD(2) [OF fr, of "Suc (Suc (Suc ?a))"]
    by (auto simp: s3_def s2(3) fun_eq_iff)
  moreover have "lnodes s3 x = lnodes s x" for x
    using l fresh_okD(3,4) [OF fr] fresh_wsD(3) [OF fresh order_refl] ij unfolding s3_def s2(4) s1(4)
    by (auto simp: linked_def)
  moreover have "wait_states s3 = wait_states s"
    using fresh_wsD(2) [OF fresh order_refl] by (simp add: s3_def s2(5) s1(5))
  moreover have "futures s3 = (futures s)(r \<mapsto> ready_future (VIndex i), fi \<mapsto> ready_future v)"
    using r by (simp add: s3_def s2(2) fun_upd_twist)
  moreover have "rest s3 = rest s" using s2(7) s1(7) by (simp add: s3_def rest_def)
  ultimately show ?thesis by (auto simp: fun_eq_iff)
qed


section \<open>\<open>wait_interruptible\<close>\<close>

lemma future_move_pending:
  assumes "futures s f = Some (pending_future p)" and "promises s p = Some P" and "g \<noteq> f" "f \<noteq> g"
  shows "future_move g f s = Inr ((), s\<lparr>futures := (futures s)(g \<mapsto> pending_future p, f \<mapsto> empty_future),
     promises := (promises s)(p \<mapsto> P\<lparr>matching_future := Some g\<rparr>)\<rparr>)"
  using assms by (simp add: future_move_def)

lemma wait_interruptible_pending:
  assumes l: "linked s f0 p0 P0" "linked s f1 p1 P1" and fresh: "fresh_ws s"
    and p: "p0 \<noteq> p1" "p1 \<noteq> p0" and r: "r \<noteq> f0" "f0 \<noteq> r" "r \<noteq> f1" "f1 \<noteq> r" and f: "f0 \<noteq> f1" "f1 \<noteq> f0"
    and rr: "\<And>n. next_addr s \<le> n \<Longrightarrow> r \<noteq> Addr n \<and> Addr n \<noteq> r"
    and a: "index_fut = Addr (next_addr s)" "st = Addr (Suc (next_addr s))" "q = Addr (Suc (Suc (next_addr s)))"
      "captured = Addr (next_addr s + 3)" "q' = Addr (next_addr s + 5)"
  shows "\<exists>s1. wait_interruptible H f0 f1 r s = Inr ((), s1)
     \<and> futures s1 = (futures s)(captured \<mapsto> pending_future p1, f1 \<mapsto> empty_future, r \<mapsto> pending_future q')
     \<and> promises s1 = (promises s)(p1 \<mapsto> P1\<lparr>matching_future := Some captured\<rparr>, q' \<mapsto> linked_promise PlainPromise r,
         q \<mapsto> \<lparr>pclass = PlainPromise, matching_future = None,
           attached_callback = Some (ThenCb q' (KInterruptible f0 captured)),
           attached_promise_ptr = None, backwards_pointed_promise = None\<rparr>)
     \<and> lnodes s1 = (lnodes s)(ListOf q \<mapsto> self_node (ListOf q),
         ListOf p0 \<mapsto> both (NotifyOf st 0), NotifyOf st 0 \<mapsto> both (ListOf p0),
         ListOf p1 \<mapsto> both (NotifyOf st 1), NotifyOf st 1 \<mapsto> both (ListOf p1),
         ListOf q' \<mapsto> self_node (ListOf q'))
     \<and> wait_states s1 = (wait_states s)(st \<mapsto> \<lparr>was_prom = q, was_n = 2\<rparr>)
     \<and> next_addr s1 = next_addr s + 6 \<and> rest s1 = rest s"
proof -
  let ?s0 = "s\<lparr>next_addr := Suc (next_addr s)\<rparr>"
  note fr = fresh_wsD(1) [OF fresh]
  have l0: "linked ?s0 f0 p0 P0" "linked ?s0 f1 p1 P1" using l by (simp_all add: linked_def)
  have fr0: "fresh_ok ?s0" using fr by (rule fresh_ok_alloc)
  have old: "p0 \<noteq> Addr k" "p1 \<noteq> Addr k" "Addr k \<noteq> p0" "Addr k \<noteq> p1" "f0 \<noteq> Addr k" "Addr k \<noteq> f0" "f1 \<noteq> Addr k" "Addr k \<noteq> f1"
    if "next_addr s \<le> k" for k
    using fresh_promise [OF fr _ that] fresh_future [OF fr _ that] l by (auto simp: linked_def)
  have i: "index_fut \<noteq> f0" "f0 \<noteq> index_fut" "index_fut \<noteq> f1" "f1 \<noteq> index_fut" using old a(1) by simp_all
  from wait_any_pending [OF l0 fr0 p i, of st q] a obtain s1 where
    s1: "wait_any [f0, f1] index_fut ?s0 = Inr ((), s1)"
     "futures s1 = (futures s)(index_fut \<mapsto> pending_future q)"
     "promises s1 = (promises s)(q \<mapsto> linked_promise PlainPromise index_fut)"
     "lnodes s1 = (lnodes s)(ListOf q \<mapsto> self_node (ListOf q),
         ListOf p0 \<mapsto> both (NotifyOf st 0), NotifyOf st 0 \<mapsto> both (ListOf p0),
         ListOf p1 \<mapsto> both (NotifyOf st 1), NotifyOf st 1 \<mapsto> both (ListOf p1))"
     "wait_states s1 = (wait_states s)(st \<mapsto> \<lparr>was_prom = q, was_n = 2\<rparr>)"
     "next_addr s1 = next_addr s + 3" "rest s1 = rest s"
    by (auto simp: rest_def numeral_3_eq_3)
  let ?s2 = "s1\<lparr>next_addr := Suc (next_addr s1), futures := (futures s1)(captured \<mapsto> pending_future p1, f1 \<mapsto> empty_future),
     promises := (promises s1)(p1 \<mapsto> P1\<lparr>matching_future := Some captured\<rparr>)\<rparr>"
  have c: "captured \<noteq> index_fut" "index_fut \<noteq> captured" "captured \<noteq> q" "q \<noteq> q'" "q' \<noteq> q" "q' \<noteq> captured" "captured \<noteq> q'" using a by auto
  have c1: "captured \<noteq> f1" "f1 \<noteq> captured" "captured \<noteq> f0" "p1 \<noteq> q" "q \<noteq> p1" "p0 \<noteq> q" "p1 \<noteq> q'" "q' \<noteq> p1" "r \<noteq> index_fut" "index_fut \<noteq> r" "captured \<noteq> r" "r \<noteq> captured"
    using old rr a by simp_all
  have mv: "future_move captured f1 (s1\<lparr>next_addr := Suc (next_addr s1)\<rparr>) = Inr ((), ?s2)"
  proof -
    have "futures s1 f1 = Some (pending_future p1)" "promises s1 p1 = Some P1"
      using l(2) by (simp_all add: s1(2,3) linked_def i c1)
    then show ?thesis by (simp add: future_move_pending c1(1,2))
  qed
  have fr2: "fresh_ok ?s2"
    unfolding fresh_ok_def
  proof (intro allI impI)
    fix n assume "next_addr ?s2 \<le> n"
    then have n: "next_addr s + 4 \<le> n" "next_addr s \<le> n" using s1(6) by auto
    show "unused ?s2 (Addr n)"
      using fresh_okD [OF fr n(2)] old [OF n(2)] n(1) unfolding unused_def s1 by (simp add: s1 a)
  qed
  have "futures ?s2 index_fut = Some (pending_future q)" "promises ?s2 q = Some (linked_promise PlainPromise index_fut)"
    "q' = Addr (Suc (next_addr ?s2))" by (simp_all add: s1 c c1 i a(5))
  from then_f_pending [OF this(1,2) _ _ fr2 c1(9,10) this(3), of H "KInterruptible f0 captured"]
  have tf: "then_f H index_fut (KInterruptible f0 captured) r ?s2 = Inr ((), ?s2\<lparr>
      next_addr := Suc (Suc (next_addr ?s2)),
      futures := (futures ?s2)(r \<mapsto> pending_future q', index_fut \<mapsto> empty_future),
      lnodes := (lnodes ?s2)(ListOf q' \<mapsto> self_node (ListOf q')),
      promises := (promises ?s2)(q' \<mapsto> linked_promise PlainPromise r,
         q \<mapsto> \<lparr>pclass = PlainPromise, matching_future = None,
           attached_callback = Some (ThenCb q' (KInterruptible f0 captured)),
           attached_promise_ptr = None, backwards_pointed_promise = None\<rparr>)\<rparr>)" by simp
  have nx: "Addr (next_addr s1) = captured" using s1(6) a by simp
  have run: "wait_interruptible H f0 f1 r s = Inr ((), ?s2\<lparr>
      next_addr := Suc (Suc (next_addr ?s2)),
      futures := (futures ?s2)(r \<mapsto> pending_future q', index_fut := None),
      lnodes := (lnodes ?s2)(ListOf q' \<mapsto> self_node (ListOf q')),
      promises := (promises ?s2)(q' \<mapsto> linked_promise PlainPromise r,
         q \<mapsto> \<lparr>pclass = PlainPromise, matching_future = None,
           attached_callback = Some (ThenCb q' (KInterruptible f0 captured)),
           attached_promise_ptr = None, backwards_pointed_promise = None\<rparr>)\<rparr>)"
    by (simp add: s1(1) nx mv tf wait_interruptible_def a(1) [symmetric] future_destroy_def c1)
  have "futures s index_fut = None" using fresh_okD [OF fr] a by simp
  then show ?thesis
    unfolding run using s1(7)
    by (simp add: fun_eq_iff rest_def s1(2-6) c c1 i r)
qed

text \<open>Supplying a promise whose \<open>then\<close> closure returns a completed future, when the promise of the
  lambda is paired with a future \<open>r\<close>.\<close>

lemma supply_then_ready:
  assumes P: "promises s p = Some P" "matching_future P = None" "attached_callback P = Some (ThenCb q u)" "quiet s p"
    and res: "res = Addr (next_addr s)" "r \<noteq> res" "res \<noteq> r"
    and run: "run_fn H u v res (s\<lparr>promises := (promises s)(p \<mapsto> cleared P), next_addr := Suc (next_addr s)\<rparr>) = Inr ((), t)"
    and t: "futures t res = Some (ready_future w)" "futures t r = Some (pending_future q)"
      "promises t q = Some (linked_promise PlainPromise r)" "quiet t q" "fresh_ok t"
  shows "supply_value_and_detach H (Suc (Suc (Suc n))) p v s = Inr ((), t\<lparr>
     futures := (futures t)(r \<mapsto> ready_future w, res := None), promises := (promises t)(q := None),
     next_addr := Suc (next_addr t), lnodes := (lnodes t)(ListOf q := None)\<rparr>)"
proof -
  let ?s1 = "s\<lparr>promises := (promises s)(p \<mapsto> cleared P)\<rparr>"
  have cb: "attached_callback P = Some (ThenCb q u) \<or> attached_callback P = Some (CThenCb q u)" using P(3) by simp
  note sup = supply_paired [OF t(3) _ _ t(2,4,5) zero_less_Suc, of H n w]
  have "then_lambda H (supply_value_and_detach H (Suc (Suc n))) q u v ?s1 = Inr ((), t\<lparr>
     futures := (futures t)(r \<mapsto> ready_future w, res := None),
     promises := (promises t)(q \<mapsto> cleared (linked_promise PlainPromise r)), next_addr := Suc (next_addr t)\<rparr>)"
    using run t(1) sup
    by (simp add: then_lambda_def res(1) [symmetric] res(2,3) future_destroy_def fun_upd_twist
        del: supply_value_and_detach.simps)
  then show ?thesis
    using t(4) unfolding supply_to_lambda [OF P(1,2) cb P(4)]
    by (simp add: cleared_def quiet_def)
qed


text \<open>The addresses that the construction and the completion use, in order.\<close>

definition cell :: "('os, 'm) wait_st_scheme \<Rightarrow> nat \<Rightarrow> addr" where
  "cell s k = Addr (next_addr s + k)"

lemma cell_eq [simp]: "cell s j = cell s k \<longleftrightarrow> j = k"
  by (simp add: cell_def)

lemma cell_old:
  assumes "fresh_ws s"
  shows "futures s f = Some F \<Longrightarrow> f \<noteq> cell s k" "futures s f = Some F \<Longrightarrow> cell s k \<noteq> f"
    "promises s p = Some P \<Longrightarrow> p \<noteq> cell s k" "promises s p = Some P \<Longrightarrow> cell s k \<noteq> p"
    "futures s (cell s k) = None" "promises s (cell s k) = None" "lnodes s (ListOf (cell s k)) = None"
    "lnodes s (LocalList (cell s k)) = None" "lnodes s (NotifyOf (cell s k) i) = None" "wait_states s (cell s k) = None"
  using fresh_wsD [OF assms] fresh_okD [OF fresh_wsD(1) [OF assms], of "next_addr s + k"] by (auto simp: cell_def)

lemma interruptible_pending:
  assumes l: "linked s f0 p0 P0" "linked s f1 p1 P1" and fresh: "fresh_ws s"
    and p: "p0 \<noteq> p1" "p1 \<noteq> p0" and r: "r \<noteq> f0" "f0 \<noteq> r" "r \<noteq> f1" "f1 \<noteq> r" and f: "f0 \<noteq> f1" "f1 \<noteq> f0"
    and rr: "\<And>k. r \<noteq> cell s k \<and> cell s k \<noteq> r"
  shows "\<exists>s1. wait_interruptible H f0 f1 r s = Inr ((), s1)
     \<and> futures s1 = (futures s)(cell s 3 \<mapsto> pending_future p1, f1 \<mapsto> empty_future, r \<mapsto> pending_future (cell s 5))
     \<and> promises s1 = (promises s)(p1 \<mapsto> P1\<lparr>matching_future := Some (cell s 3)\<rparr>, cell s 5 \<mapsto> linked_promise PlainPromise r,
         cell s 2 \<mapsto> \<lparr>pclass = PlainPromise, matching_future = None,
           attached_callback = Some (ThenCb (cell s 5) (KInterruptible f0 (cell s 3))),
           attached_promise_ptr = None, backwards_pointed_promise = None\<rparr>)
     \<and> lnodes s1 = (lnodes s)(ListOf (cell s 2) \<mapsto> self_node (ListOf (cell s 2)),
         ListOf p0 \<mapsto> both (NotifyOf (cell s 1) 0), NotifyOf (cell s 1) 0 \<mapsto> both (ListOf p0),
         ListOf p1 \<mapsto> both (NotifyOf (cell s 1) 1), NotifyOf (cell s 1) 1 \<mapsto> both (ListOf p1),
         ListOf (cell s 5) \<mapsto> self_node (ListOf (cell s 5)))
     \<and> wait_states s1 = (wait_states s)(cell s 1 \<mapsto> \<lparr>was_prom = cell s 2, was_n = 2\<rparr>)
     \<and> next_addr s1 = next_addr s + 6 \<and> rest s1 = rest s"
proof -
  have rr': "r \<noteq> Addr n \<and> Addr n \<noteq> r" if "next_addr s \<le> n" for n
    using rr [of "n - next_addr s"] that by (simp add: cell_def)
  show ?thesis
    by (rule wait_interruptible_pending [OF l fresh p r f rr']) (simp_all add: cell_def)
qed


lemma cleared_rematch [simp]: "cleared (P\<lparr>matching_future := x\<rparr>) = cleared P"
  by (cases P) (simp add: cleared_def)

lemma interruptible_completed:
  fixes i j :: nat
  assumes l: "linked s f0 p0 P0" "linked s f1 p1 P1" and fresh: "fresh_ws s"
    and p: "p0 \<noteq> p1" "p1 \<noteq> p0" and r: "r \<noteq> f0" "f0 \<noteq> r" "r \<noteq> f1" "f1 \<noteq> r" and f: "f0 \<noteq> f1" "f1 \<noteq> f0"
    and rr: "\<And>k. r \<noteq> cell s k \<and> cell s k \<noteq> r"
    and C: "completed H = future_completed H1 m" and n: "n = Suc (Suc k)"
    and i: "i = 0 \<and> j = 1 \<and> pi = p0 \<and> fi = f0 \<and> Pi = P0 \<and> pj = p1
      \<or> i = 1 \<and> j = 0 \<and> pi = p1 \<and> fi = cell s 3 \<and> Pi = P1 \<and> pj = p0"
  shows "\<exists>s2. thenM (wait_interruptible H f0 f1 r) (supply_value_and_detach H n pi v) s =
      thenM (supply_value_and_detach H1 m (cell s 7) (VIndex i))
        (thenM (prom_destroy (cell s 7))
        (thenM (drain (first_waiter (LocalList (cell s 6))) detach (completed H) k)
          (list_destroy (LocalList (cell s 6))))) s2
    \<and> futures s2 = (futures s)(cell s 3 \<mapsto> pending_future p1, f1 \<mapsto> empty_future, r \<mapsto> pending_future (cell s 5),
        fi \<mapsto> ready_future v)
    \<and> promises s2 = (promises s)(p1 \<mapsto> P1\<lparr>matching_future := Some (cell s 3)\<rparr>, pi \<mapsto> cleared Pi,
        cell s 5 \<mapsto> linked_promise PlainPromise r,
        cell s 7 \<mapsto> \<lparr>pclass = PlainPromise, matching_future = None,
           attached_callback = Some (ThenCb (cell s 5) (KInterruptible f0 (cell s 3))),
           attached_promise_ptr = None, backwards_pointed_promise = None\<rparr>)
    \<and> lnodes s2 = (lnodes s)(ListOf (cell s 5) \<mapsto> self_node (ListOf (cell s 5)),
        ListOf (cell s 7) \<mapsto> self_node (ListOf (cell s 7)), LocalList (cell s 6) \<mapsto> self_node (LocalList (cell s 6)))
    \<and> wait_states s2 = wait_states s \<and> next_addr s2 = next_addr s + 8 \<and> rest s2 = rest s"
proof -
  from interruptible_pending [OF l fresh p r f rr] obtain s1 where
    s1: "wait_interruptible H f0 f1 r s = Inr ((), s1)"
      "futures s1 = (futures s)(cell s 3 \<mapsto> pending_future p1, f1 \<mapsto> empty_future, r \<mapsto> pending_future (cell s 5))"
      "promises s1 = (promises s)(p1 \<mapsto> P1\<lparr>matching_future := Some (cell s 3)\<rparr>, cell s 5 \<mapsto> linked_promise PlainPromise r,
         cell s 2 \<mapsto> \<lparr>pclass = PlainPromise, matching_future = None,
           attached_callback = Some (ThenCb (cell s 5) (KInterruptible f0 (cell s 3))),
           attached_promise_ptr = None, backwards_pointed_promise = None\<rparr>)"
      "lnodes s1 = (lnodes s)(ListOf (cell s 2) \<mapsto> self_node (ListOf (cell s 2)),
         ListOf p0 \<mapsto> both (NotifyOf (cell s 1) 0), NotifyOf (cell s 1) 0 \<mapsto> both (ListOf p0),
         ListOf p1 \<mapsto> both (NotifyOf (cell s 1) 1), NotifyOf (cell s 1) 1 \<mapsto> both (ListOf p1),
         ListOf (cell s 5) \<mapsto> self_node (ListOf (cell s 5)))"
      "wait_states s1 = (wait_states s)(cell s 1 \<mapsto> \<lparr>was_prom = cell s 2, was_n = 2\<rparr>)"
      "next_addr s1 = next_addr s + 6" "rest s1 = rest s" by blast
  let ?Pi = "if i = 0 then P0 else P1\<lparr>matching_future := Some (cell s 3)\<rparr>"
  note L = l [unfolded linked_def]
  have old: "f0 \<noteq> cell s k" "cell s k \<noteq> f0" "f1 \<noteq> cell s k" "cell s k \<noteq> f1"
      "p0 \<noteq> cell s k" "cell s k \<noteq> p0" "p1 \<noteq> cell s k" "cell s k \<noteq> p1" for k
    using cell_old [OF fresh] L by blast+
  have rc: "r \<noteq> cell s k" "cell s k \<noteq> r" for k using rr by simp_all
  note eqs = old rc p r f
  note emp = cell_old(5-) [OF fresh]
  have nx: "Addr (next_addr s1) = cell s 6" "Addr (Suc (next_addr s1)) = cell s 7" by (simp_all add: s1(6) cell_def)
  have st: "futures s1 fi = Some (pending_future pi)" "promises s1 pi = Some ?Pi" "matching_future ?Pi = Some fi"
      "attached_callback ?Pi = None" "lnodes s1 (ListOf pi) = Some (both (NotifyOf (cell s 1) i))"
      "lnodes s1 (NotifyOf (cell s 1) i) = Some (both (ListOf pi))"
      "lnodes s1 (ListOf pj) = Some (both (NotifyOf (cell s 1) j))"
      "lnodes s1 (NotifyOf (cell s 1) j) = Some (both (ListOf pj))"
      "i = 0 \<and> j = 1 \<or> i = 1 \<and> j = 0" "pi \<noteq> pj" "pj \<noteq> pi" "cell s 2 \<noteq> pi" "pi \<noteq> cell s 2" "cell s 2 \<noteq> pj" "pj \<noteq> cell s 2"
    using i L by (elim disjE conjE; simp add: s1 eqs)+
  let ?Q = "\<lparr>pclass = PlainPromise, matching_future = None,
           attached_callback = Some (ThenCb (cell s 5) (KInterruptible f0 (cell s 3))),
           attached_promise_ptr = None, backwards_pointed_promise = None\<rparr>"
  have q: "wait_states s1 (cell s 1) = Some \<lparr>was_prom = cell s 2, was_n = 2\<rparr>" "promises s1 (cell s 2) = Some ?Q"
      "lnodes s1 (ListOf (cell s 2)) = Some (self_node (ListOf (cell s 2)))"
      "promises s1 (Addr (Suc (next_addr s1))) = None" "lnodes s1 (ListOf (Addr (Suc (next_addr s1)))) = None"
      "lnodes s1 (LocalList (Addr (next_addr s1))) = None"
    unfolding nx by (simp_all add: s1(3-5) eqs emp)
  from complete_two [OF st q(1,2) _ _ _ q(3) _ q(4-6) C, of k v, unfolded nx]
  obtain s2 where s2: "supply_value_and_detach H n pi v s1 =
      thenM (supply_value_and_detach H1 m (cell s 7) (VIndex i)) (thenM (prom_destroy (cell s 7))
        (thenM (drain (first_waiter (LocalList (cell s 6))) detach (completed H) k)
          (list_destroy (LocalList (cell s 6))))) s2"
     "futures s2 = (futures s1)(fi \<mapsto> ready_future v)"
     "promises s2 = (promises s1)(pi \<mapsto> cleared ?Pi, cell s 7 \<mapsto> ?Q, cell s 2 := None)"
     "lnodes s2 = (lnodes s1)(ListOf pi \<mapsto> self_node (ListOf pi), ListOf pj \<mapsto> self_node (ListOf pj),
        NotifyOf (cell s 1) 0 := None, NotifyOf (cell s 1) 1 := None, ListOf (cell s 2) := None,
        ListOf (cell s 7) \<mapsto> self_node (ListOf (cell s 7)), LocalList (cell s 6) \<mapsto> self_node (LocalList (cell s 6)))"
     "wait_states s2 = (wait_states s1)(cell s 1 := None)" "next_addr s2 = Suc (Suc (next_addr s1))" "rest s2 = rest s1"
    unfolding n by (auto simp del: supply_value_and_detach.simps)
  have cl: "cleared ?Pi = cleared Pi" using i by auto
  have 1: "promises s2 = (promises s)(p1 \<mapsto> P1\<lparr>matching_future := Some (cell s 3)\<rparr>, pi \<mapsto> cleared Pi,
        cell s 5 \<mapsto> linked_promise PlainPromise r, cell s 7 \<mapsto> ?Q)"
    using i by (elim disjE conjE) (simp_all add: s2(3) s1(3) cl fun_eq_iff eqs emp)
  have 2: "lnodes s2 = (lnodes s)(ListOf (cell s 5) \<mapsto> self_node (ListOf (cell s 5)),
        ListOf (cell s 7) \<mapsto> self_node (ListOf (cell s 7)), LocalList (cell s 6) \<mapsto> self_node (LocalList (cell s 6)))"
    using i L by (elim disjE conjE) (simp_all add: s2(4) s1(4) fun_eq_iff eqs emp)
  have 3: "wait_states s2 = wait_states s" by (simp add: s2(5) s1(5) fun_eq_iff emp)
  have 4: "thenM (wait_interruptible H f0 f1 r) (supply_value_and_detach H n pi v) s
    = supply_value_and_detach H n pi v s1" using s1(1) by simp
  show ?thesis
    unfolding 4 s2(1) by (rule exI [of _ s2], intro conjI refl 1 2 3) (simp_all add: s2 s1)
qed

text \<open>What cancelling the promise \<open>p\<close> does to the rest of the world \<open>W\<close>, once its future is
  detached.\<close>

definition cancels where
  "cancels H k p P W W' \<longleftrightarrow> (\<forall>t. promises t p = Some (cleared P) \<longrightarrow> quiet t p \<longrightarrow> rest t = W \<longrightarrow>
     (\<exists>t'. prom_cancel H k p t = Inr ((), t') \<and> futures t' = futures t \<and> promises t' = promises t
        \<and> lnodes t' = lnodes t \<and> wait_states t' = wait_states t \<and> next_addr t' = next_addr t \<and> rest t' = W'))"

lemma cancels_default: "pclass P = DefaultCancellable \<Longrightarrow> 0 < k \<Longrightarrow> cancels H k p P W W"
  by (cases k) (auto simp: cancels_def cleared_def quiet_def prom_default_constructed_def default_but_completions_def)

lemma interruptible_finish:
  assumes s2: "promises s2 (cell s 7) = Some \<lparr>pclass = PlainPromise, matching_future = None,
           attached_callback = Some (ThenCb (cell s 5) u), attached_promise_ptr = None, backwards_pointed_promise = None\<rparr>"
      "lnodes s2 = (lnodes s)(ListOf (cell s 5) \<mapsto> self_node (ListOf (cell s 5)),
        ListOf (cell s 7) \<mapsto> self_node (ListOf (cell s 7)), LocalList (cell s 6) \<mapsto> self_node (LocalList (cell s 6)))"
      "next_addr s2 = next_addr s + 8"
    and run: "run_fn H1 u v (cell s 8) (s2\<lparr>promises := (promises s2)(cell s 7 \<mapsto> linked_promise PlainPromise r\<lparr>matching_future := None\<rparr>),
        next_addr := Suc (next_addr s2)\<rparr>) = Inr ((), t)"
    and t: "futures t = F(cell s 8 \<mapsto> ready_future w)" "F r = Some (pending_future (cell s 5))" "F (cell s 8) = None"
      "promises t = Q(cell s 5 \<mapsto> linked_promise PlainPromise r, cell s 7 \<mapsto> linked_promise PlainPromise r\<lparr>matching_future := None\<rparr>)"
      "Q (cell s 5) = None" "Q (cell s 7) = None" "lnodes t = lnodes s2" "fresh_ok t"
    and fresh: "fresh_ws s" and r: "r \<noteq> cell s 8" "cell s 8 \<noteq> r" and k: "0 < k"
  shows "\<exists>s'. thenM (supply_value_and_detach H1 (Suc (Suc (Suc m))) (cell s 7) v)
        (thenM (prom_destroy (cell s 7))
        (thenM (drain (first_waiter (LocalList (cell s 6))) detach C k)
          (list_destroy (LocalList (cell s 6))))) s2 = Inr ((), s')
    \<and> futures s' = F(r \<mapsto> ready_future w) \<and> promises s' = Q \<and> lnodes s' = lnodes s
    \<and> wait_states s' = wait_states t \<and> rest s' = rest t"
proof -
  have 8: "cell s 8 = Addr (next_addr s2)" by (simp add: s2(3) cell_def)
  note emp = cell_old(5-) [OF fresh]
  have q7: "quiet s2 (cell s 7)" "quiet t (cell s 5)" by (simp_all add: quiet_def s2(2) t(7))
  have sup: "supply_value_and_detach H1 (Suc (Suc (Suc m))) (cell s 7) v s2 = Inr ((), t\<lparr>
     futures := (futures t)(r \<mapsto> ready_future w, cell s 8 := None), promises := (promises t)(cell s 5 := None),
     next_addr := Suc (next_addr t), lnodes := (lnodes t)(ListOf (cell s 5) := None)\<rparr>)"
    by (rule supply_then_ready [OF s2(1) _ _ q7(1) 8 r, where q = "cell s 5" and u = u])
      (use run t(2,8) q7(2) r in \<open>simp_all add: t(1,4) cleared_def\<close>)
  show ?thesis
    by (simp add: sup t(4,7) s2(2) k del: supply_value_and_detach.simps)
      (simp add: t(1,3,5,6) r fun_eq_iff emp rest_def)
qed

lemma fresh_cells:
  assumes "fresh_ws s" and "next_addr t = next_addr s + k"
    and "\<And>j. k \<le> j \<Longrightarrow> futures t (cell s j) = None" "\<And>j. k \<le> j \<Longrightarrow> promises t (cell s j) = None"
    and "\<And>j. k \<le> j \<Longrightarrow> lnodes t (ListOf (cell s j)) = None" "\<And>j. k \<le> j \<Longrightarrow> lnodes t (LocalList (cell s j)) = None"
  shows "fresh_ok t"
  unfolding fresh_ok_def
proof (intro allI impI)
  fix n assume "next_addr t \<le> n"
  then have "Addr n = cell s (n - next_addr s)" "k \<le> n - next_addr s" using assms(2) by (simp_all add: cell_def)
  then show "unused t (Addr n)" using assms(3-6) by (simp add: unused_def)
qed

lemma interruptible_value:
  assumes l: "linked s f0 p0 P0" "linked s f1 p1 P1" and fresh: "fresh_ws s"
    and p: "p0 \<noteq> p1" "p1 \<noteq> p0" and r: "r \<noteq> f0" "f0 \<noteq> r" "r \<noteq> f1" "f1 \<noteq> r" and f: "f0 \<noteq> f1" "f1 \<noteq> f0"
    and rr: "\<And>k. r \<noteq> cell s k \<and> cell s k \<noteq> r"
    and C: "completed H = future_completed H1 (Suc (Suc (Suc m)))" and n: "n = Suc (Suc k)" "0 < k"
    and run: "\<And>a b i res. run_fn H1 (KInterruptible a b) (VIndex i) res = interruptible_lambda sys H2 c a b i res"
  shows "\<exists>s'. thenM (wait_interruptible H f0 f1 r) (supply_value_and_detach H n p1 v) s = Inr ((), s')
    \<and> futures s' = (futures s)(f1 \<mapsto> empty_future, r \<mapsto> ready_future (VInterruptible (Inr v)))
    \<and> promises s' = (promises s)(p1 \<mapsto> cleared P1) \<and> lnodes s' = lnodes s \<and> wait_states s' = wait_states s
    \<and> rest s' = rest s"
proof -
  let ?lp = "linked_promise PlainPromise r :: (closure, prom_kind) promise" and ?w = "VInterruptible (Inr v)"
  have i: "(1 :: nat) = 0 \<and> (0 :: nat) = 1 \<and> p1 = p0 \<and> cell s 3 = f0 \<and> P1 = P0 \<and> p0 = p1
      \<or> (1 :: nat) = 1 \<and> (0 :: nat) = 0 \<and> p1 = p1 \<and> cell s 3 = cell s 3 \<and> P1 = P1 \<and> p0 = p0" by simp
  from interruptible_completed [OF l fresh p r f rr C n(1) i, of v] obtain s2 where
    s2: "thenM (wait_interruptible H f0 f1 r) (supply_value_and_detach H n p1 v) s =
      thenM (supply_value_and_detach H1 (Suc (Suc (Suc m))) (cell s 7) (VIndex 1))
        (thenM (prom_destroy (cell s 7))
        (thenM (drain (first_waiter (LocalList (cell s 6))) detach (completed H) k)
          (list_destroy (LocalList (cell s 6))))) s2"
      "futures s2 = (futures s)(cell s 3 \<mapsto> pending_future p1, f1 \<mapsto> empty_future, r \<mapsto> pending_future (cell s 5),
        cell s 3 \<mapsto> ready_future v)"
      "promises s2 = (promises s)(p1 \<mapsto> P1\<lparr>matching_future := Some (cell s 3)\<rparr>, p1 \<mapsto> cleared P1,
        cell s 5 \<mapsto> ?lp, cell s 7 \<mapsto> \<lparr>pclass = PlainPromise, matching_future = None,
           attached_callback = Some (ThenCb (cell s 5) (KInterruptible f0 (cell s 3))),
           attached_promise_ptr = None, backwards_pointed_promise = None\<rparr>)"
      "lnodes s2 = (lnodes s)(ListOf (cell s 5) \<mapsto> self_node (ListOf (cell s 5)),
        ListOf (cell s 7) \<mapsto> self_node (ListOf (cell s 7)), LocalList (cell s 6) \<mapsto> self_node (LocalList (cell s 6)))"
      "wait_states s2 = wait_states s" "next_addr s2 = next_addr s + 8" "rest s2 = rest s" by blast
  have rc: "r \<noteq> cell s k" "cell s k \<noteq> r" "f1 \<noteq> cell s k" "cell s k \<noteq> f1" "p1 \<noteq> cell s k" "cell s k \<noteq> p1" for k
    using rr cell_old(1-4) [OF fresh] l unfolding linked_def by blast+
  note emp = cell_old(5-) [OF fresh]
  let ?F = "(futures s)(f1 \<mapsto> empty_future, r \<mapsto> pending_future (cell s 5))"
  let ?t = "s2\<lparr>promises := (promises s2)(cell s 7 \<mapsto> ?lp\<lparr>matching_future := None\<rparr>), next_addr := Suc (next_addr s2),
     futures := ?F(cell s 8 \<mapsto> ready_future ?w)\<rparr>"
  have run1: "run_fn H1 (KInterruptible f0 (cell s 3)) (VIndex 1) (cell s 8)
     (s2\<lparr>promises := (promises s2)(cell s 7 \<mapsto> ?lp\<lparr>matching_future := None\<rparr>), next_addr := Suc (next_addr s2)\<rparr>) = Inr ((), ?t)"
    by (simp add: run interruptible_lambda_def future_of_value_def future_destroy_def s2(2) fun_eq_iff rc emp)
  have frt: "fresh_ok ?t"
    by (rule fresh_cells [OF fresh, where k = 9]) (simp_all add: s2(3,4,6) rc emp)
  have p7: "promises s2 (cell s 7) = Some \<lparr>pclass = PlainPromise, matching_future = None,
           attached_callback = Some (ThenCb (cell s 5) (KInterruptible f0 (cell s 3))),
           attached_promise_ptr = None, backwards_pointed_promise = None\<rparr>" by (simp add: s2(3))
  from interruptible_finish [OF p7 s2(4,6) run1, where F = ?F and Q = "(promises s)(p1 \<mapsto> cleared P1)" and w = ?w,
      OF _ _ _ _ _ _ _ frt fresh rc(1,2) n(2), of m "completed H"]
  obtain s' where
    s': "thenM (supply_value_and_detach H1 (Suc (Suc (Suc m))) (cell s 7) (VIndex 1))
        (thenM (prom_destroy (cell s 7))
        (thenM (drain (first_waiter (LocalList (cell s 6))) detach (completed H) k)
          (list_destroy (LocalList (cell s 6))))) s2 = Inr ((), s')"
      "futures s' = ?F(r \<mapsto> ready_future ?w)" "promises s' = (promises s)(p1 \<mapsto> cleared P1)"
      "lnodes s' = lnodes s" "wait_states s' = wait_states ?t" "rest s' = rest ?t"
    by (simp add: s2(3) rc emp fun_eq_iff del: supply_value_and_detach.simps) blast
  then show ?thesis using s2(5,7) unfolding s2(1) by (intro exI [of _ s']) (simp add: rest_def)
qed

lemma interruptible_interrupted:
  assumes l: "linked s f0 p0 P0" "linked s f1 p1 P1" and fresh: "fresh_ws s"
    and p: "p0 \<noteq> p1" "p1 \<noteq> p0" and r: "r \<noteq> f0" "f0 \<noteq> r" "r \<noteq> f1" "f1 \<noteq> r" and f: "f0 \<noteq> f1" "f1 \<noteq> f0"
    and rr: "\<And>k. r \<noteq> cell s k \<and> cell s k \<noteq> r"
    and C: "completed H = future_completed H1 (Suc (Suc (Suc m)))" and n: "n = Suc (Suc k)" "0 < k"
    and run: "\<And>a b i res. run_fn H1 (KInterruptible a b) (VIndex i) res = interruptible_lambda sys H2 c a b i res"
    and cancel: "cancels H2 c p1 P1 (rest s) W"
  shows "\<exists>s'. thenM (wait_interruptible H f0 f1 r) (supply_value_and_detach H n p0 (VInterrupt x)) s = Inr ((), s')
    \<and> futures s' = (futures s)(f1 \<mapsto> empty_future, f0 \<mapsto> ready_future (VInterrupt x), r \<mapsto> ready_future (VInterruptible (Inl x)))
    \<and> promises s' = (promises s)(p1 \<mapsto> cleared P1, p0 \<mapsto> cleared P0) \<and> lnodes s' = lnodes s \<and> wait_states s' = wait_states s
    \<and> rest s' = W"
proof -
  let ?lp = "linked_promise PlainPromise r :: (closure, prom_kind) promise" and ?w = "VInterruptible (Inl x)"
  have i: "(0 :: nat) = 0 \<and> (1 :: nat) = 1 \<and> p0 = p0 \<and> f0 = f0 \<and> P0 = P0 \<and> p1 = p1
      \<or> (0 :: nat) = 1 \<and> (1 :: nat) = 0 \<and> p0 = p1 \<and> f0 = cell s 3 \<and> P0 = P1 \<and> p1 = p0" by simp
  from interruptible_completed [OF l fresh p r f rr C n(1) i, of "VInterrupt x"] obtain s2 where
    s2: "thenM (wait_interruptible H f0 f1 r) (supply_value_and_detach H n p0 (VInterrupt x)) s =
      thenM (supply_value_and_detach H1 (Suc (Suc (Suc m))) (cell s 7) (VIndex 0))
        (thenM (prom_destroy (cell s 7))
        (thenM (drain (first_waiter (LocalList (cell s 6))) detach (completed H) k)
          (list_destroy (LocalList (cell s 6))))) s2"
      "futures s2 = (futures s)(cell s 3 \<mapsto> pending_future p1, f1 \<mapsto> empty_future, r \<mapsto> pending_future (cell s 5),
        f0 \<mapsto> ready_future (VInterrupt x))"
      "promises s2 = (promises s)(p1 \<mapsto> P1\<lparr>matching_future := Some (cell s 3)\<rparr>, p0 \<mapsto> cleared P0,
        cell s 5 \<mapsto> ?lp, cell s 7 \<mapsto> \<lparr>pclass = PlainPromise, matching_future = None,
           attached_callback = Some (ThenCb (cell s 5) (KInterruptible f0 (cell s 3))),
           attached_promise_ptr = None, backwards_pointed_promise = None\<rparr>)"
      "lnodes s2 = (lnodes s)(ListOf (cell s 5) \<mapsto> self_node (ListOf (cell s 5)),
        ListOf (cell s 7) \<mapsto> self_node (ListOf (cell s 7)), LocalList (cell s 6) \<mapsto> self_node (LocalList (cell s 6)))"
      "wait_states s2 = wait_states s" "next_addr s2 = next_addr s + 8" "rest s2 = rest s" by blast
  have rc: "r \<noteq> cell s k" "cell s k \<noteq> r" "f1 \<noteq> cell s k" "cell s k \<noteq> f1" "p1 \<noteq> cell s k" "cell s k \<noteq> p1"
     "f0 \<noteq> cell s k" "cell s k \<noteq> f0" "p0 \<noteq> cell s k" "cell s k \<noteq> p0" for k
    using rr cell_old(1-4) [OF fresh] l unfolding linked_def by blast+
  note emp = cell_old(5-) [OF fresh]
  note eqs = rc p r f
  have P1: "attached_callback P1 = None" "lnodes s (ListOf p1) = Some (self_node (ListOf p1))" using l(2) by (simp_all add: linked_def)
  have cl: "P1\<lparr>matching_future := None\<rparr> = cleared P1" using P1(1) by (cases P1) (simp add: cleared_def)
  let ?F = "(futures s)(f1 \<mapsto> empty_future, r \<mapsto> pending_future (cell s 5), f0 \<mapsto> ready_future (VInterrupt x))"
  let ?s3 = "s2\<lparr>promises := (promises s2)(cell s 7 \<mapsto> ?lp\<lparr>matching_future := None\<rparr>), next_addr := Suc (next_addr s2)\<rparr>"
  let ?s4 = "?s3\<lparr>promises := (promises ?s3)(p1 \<mapsto> cleared P1), futures := (futures s2)(cell s 3 \<mapsto> empty_future)\<rparr>"
  have "promises ?s4 p1 = Some (cleared P1)" "quiet ?s4 p1" "rest ?s4 = rest s"
    using s2(7) by (simp_all add: quiet_def s2(4) P1(2) rc rest_def)
  with cancel obtain s5 where s5: "prom_cancel H2 c p1 ?s4 = Inr ((), s5)" "futures s5 = futures ?s4"
      "promises s5 = promises ?s4" "lnodes s5 = lnodes ?s4" "wait_states s5 = wait_states ?s4"
      "next_addr s5 = next_addr ?s4" "rest s5 = W" unfolding cancels_def by blast
  have f3: "futures ?s3 (cell s 3) = Some (pending_future p1)"
      "promises ?s3 p1 = Some (P1\<lparr>matching_future := Some (cell s 3)\<rparr>)"
      "lnodes ?s3 (ListOf p1) = Some (self_node (ListOf p1))" by (simp_all add: s2(2-4) eqs P1(2))
  have "future_cancel H2 c (cell s 3) ?s3 = thenM (prom_cancel H2 c p1)
      (bindM (get_fut (cell s 3)) (\<lambda>F'. tpf_assert ''is_default_constructed()'' (fut_default F'))) ?s4"
    using f3 by (simp add: future_cancel_def cl)
  then have fc: "future_cancel H2 c (cell s 3) ?s3 = Inr ((), s5)"
    using s5(1) by (simp add: s5(2) fut_default_def)
  define t where "t = s5\<lparr>futures := ?F(cell s 8 \<mapsto> ready_future ?w)\<rparr>"
  have fx: "futures s5 f0 = Some (ready_future (VInterrupt x))" "futures s5 = (futures s2)(cell s 3 \<mapsto> empty_future)"
    by (simp_all add: s5(2) s2(2) eqs)
  have run1: "run_fn H1 (KInterruptible f0 (cell s 3)) (VIndex 0) (cell s 8) ?s3 = Inr ((), t)"
    by (simp add: run interruptible_lambda_def fc [simplified] fx(1) future_of_value_def future_destroy_def fx(2) s2(2) t_def
        fun_eq_iff eqs emp)
  have frt: "fresh_ok t"
    by (rule fresh_cells [OF fresh, where k = 9]) (simp_all add: t_def s5 s2(2-4,6) eqs emp)
  have p7: "promises s2 (cell s 7) = Some \<lparr>pclass = PlainPromise, matching_future = None,
           attached_callback = Some (ThenCb (cell s 5) (KInterruptible f0 (cell s 3))),
           attached_promise_ptr = None, backwards_pointed_promise = None\<rparr>" by (simp add: s2(3))
  let ?P = "(promises s)(p1 \<mapsto> cleared P1, p0 \<mapsto> cleared P0)"
  have tf: "futures t = ?F(cell s 8 \<mapsto> ready_future ?w)" "?F r = Some (pending_future (cell s 5))" "?F (cell s 8) = None"
      "promises t = ?P(cell s 5 \<mapsto> ?lp, cell s 7 \<mapsto> ?lp\<lparr>matching_future := None\<rparr>)"
      "?P (cell s 5) = None" "?P (cell s 7) = None" "lnodes t = lnodes s2"
    by (auto simp: t_def s5(3,4) s2(3) eqs emp fun_eq_iff)
  from interruptible_finish [OF p7 s2(4,6) run1 tf frt fresh rc(1,2) n(2), of m "completed H"]
  obtain s' where
    s': "thenM (supply_value_and_detach H1 (Suc (Suc (Suc m))) (cell s 7) (VIndex 0))
        (thenM (prom_destroy (cell s 7))
        (thenM (drain (first_waiter (LocalList (cell s 6))) detach (completed H) k)
          (list_destroy (LocalList (cell s 6))))) s2 = Inr ((), s')"
      "futures s' = ?F(r \<mapsto> ready_future ?w)" "promises s' = (promises s)(p1 \<mapsto> cleared P1, p0 \<mapsto> cleared P0)"
      "lnodes s' = lnodes s" "wait_states s' = wait_states t" "rest s' = rest t"
    by blast
  have "wait_states t = wait_states s" "rest t = W" using s5(5,7) s2(5) by (simp_all add: t_def rest_def)
  moreover have "?F(r \<mapsto> ready_future ?w)
      = (futures s)(f1 \<mapsto> empty_future, f0 \<mapsto> ready_future (VInterrupt x), r \<mapsto> ready_future ?w)"
    by (simp add: fun_eq_iff eqs)
  ultimately show ?thesis using s' unfolding s2(1) by (intro exI [of _ s']) simp
qed

section \<open>Properties\<close>

lemma linked_waiting: "waiting s f p \<and> promises s p = Some P \<longleftrightarrow> linked s f p P"
  by (auto simp: waiting_def linked_def quiet_def)

lemma two_waiting:
  assumes w: "waiting s f0 p0" "waiting s f1 p1" and p: "p0 \<noteq> p1" and fresh: "fresh_ws s"
  obtains P0 P1 where "linked (s\<lparr>next_addr := Suc (next_addr s)\<rparr>) f0 p0 P0" "linked (s\<lparr>next_addr := Suc (next_addr s)\<rparr>) f1 p1 P1"
    "promises s p0 = Some P0" "promises s p1 = Some P1"
    "fresh_ws (s\<lparr>next_addr := Suc (next_addr s)\<rparr>)" "f0 \<noteq> f1" "Addr (next_addr s) \<noteq> f0" "Addr (next_addr s) \<noteq> f1"
proof -
  from w obtain P0 P1 where P: "linked s f0 p0 P0" "linked s f1 p1 P1"
    by (metis linked_waiting chain_head waiting_def not_None_eq)
  have "fresh_ws (s\<lparr>next_addr := Suc (next_addr s)\<rparr>)"
    using fresh fresh_ok_alloc [of s] by (auto simp: fresh_ws_def)
  moreover have "f0 \<noteq> f1" using P p by (auto simp: linked_def)
  moreover have "Addr (next_addr s) \<noteq> f0" "Addr (next_addr s) \<noteq> f1"
    using fresh_future [OF fresh_wsD(1) [OF fresh] _ order_refl] P by (auto simp: linked_def)
  moreover have "linked (s\<lparr>next_addr := n\<rparr>) f p Q = linked s f p Q" for n f p Q by (simp add: linked_def)
  moreover have "promises s p0 = Some P0" "promises s p1 = Some P1" using P by (simp_all add: linked_def)
  ultimately show ?thesis using that P by metis
qed

text \<open>An example: futures 0 and 1 wait for the promises 2 and 3.\<close>

definition ex_two :: "unit wait_st" where
  "ex_two = \<lparr>lnodes = [ListOf (Addr 2) \<mapsto> self_node (ListOf (Addr 2)), ListOf (Addr 3) \<mapsto> self_node (ListOf (Addr 3))],
     os = (), epoll_fd = 3, mid_step = False, registrants = [], enqueued_actions = [], spare_actions_buf = [],
     regs = Map.empty, reg_fd = Map.empty,
     futures = [Addr 0 \<mapsto> pending_future (Addr 2), Addr 1 \<mapsto> pending_future (Addr 3)],
     promises = [Addr 2 \<mapsto> linked_promise DefaultCancellable (Addr 0), Addr 3 \<mapsto> linked_promise DefaultCancellable (Addr 1)],
     next_addr = 4, wait_states = Map.empty\<rparr>"

text \<open>Hooks that run the waiters and the lambda of \<open>wait_interruptible\<close>, nested \<open>d\<close> deep.\<close>

fun wait_hooks_at :: "nat \<Rightarrow> unit wait_st prog_hooks" where
  "wait_hooks_at 0 = \<lparr>run_fn = (\<lambda>u v r. failM OutOfFuel), run_cb = (\<lambda>u v. failM OutOfFuel), drop_fn = (\<lambda>u. failM OutOfFuel),
     completed = (\<lambda>w. failM OutOfFuel), cancel_other = (\<lambda>k p. failM OutOfFuel)\<rparr>"
| "wait_hooks_at (Suc d) = \<lparr>
     run_fn = (\<lambda>u v r. case (u, v) of (KInterruptible a b, VIndex i) \<Rightarrow> interruptible_lambda idle_sys (wait_hooks_at d) 5 a b i r
       | _ \<Rightarrow> failM OutOfFuel),
     run_cb = (\<lambda>u v. failM OutOfFuel), drop_fn = (\<lambda>u. failM OutOfFuel),
     completed = future_completed (wait_hooks_at d) 5, cancel_other = (\<lambda>k p. failM OutOfFuel)\<rparr>"

lemma ex_two_ok: "waiting ex_two (Addr 0) (Addr 2)" "waiting ex_two (Addr 1) (Addr 3)" "fresh_ws ex_two"
    "promises ex_two (Addr 2) = Some (linked_promise DefaultCancellable (Addr 0))"
    "promises ex_two (Addr 3) = Some (linked_promise DefaultCancellable (Addr 1))"
  by (auto simp: waiting_def quiet_def fresh_ws_def fresh_ok_def unused_def ex_two_def)

text \<open>
  C21. \<open>wait_any\<close> completes with the index of the future that completes first, and leaves nothing
  behind. Wait for two futures and supply one of the promises: the future of the index and the
  future itself complete, the other one still waits and has no waiter any more, and the
  \<open>wait_any_state\<close>, its promise and its list nodes are gone.
\<close>

theorem wait_any_first:
  assumes "waiting s f0 p0" and "waiting s f1 p1" and "p0 \<noteq> p1" and "fresh_ws s" and "i < 2"
    and "promises s ([p0, p1] ! i) = Some P" and "completed H = future_completed H1 m" and "2 \<le> m" and "3 \<le> n"
  shows "\<exists>s'. bindM alloc (\<lambda>r. thenM (wait_any [f0, f1] r) (supply_value_and_detach H n ([p0, p1] ! i) v)) s = Inr ((), s')
     \<and> futures s' = (futures s)(Addr (next_addr s) \<mapsto> ready_future (VIndex i), [f0, f1] ! i \<mapsto> ready_future v)
     \<and> promises s' = (promises s)([p0, p1] ! i \<mapsto> cleared P) \<and> lnodes s' = lnodes s
     \<and> wait_states s' = wait_states s \<and> rest s' = rest s"
proof -
  let ?s0 = "s\<lparr>next_addr := Suc (next_addr s)\<rparr>" and ?r = "Addr (next_addr s)"
  obtain P0 P1 where l: "linked ?s0 f0 p0 P0" "linked ?s0 f1 p1 P1" and P: "promises s p0 = Some P0" "promises s p1 = Some P1"
    and fr: "fresh_ws ?s0" and f: "f0 \<noteq> f1" "?r \<noteq> f0" "?r \<noteq> f1"
    using two_waiting [OF assms(1-4)] .
  have rr: "?r \<noteq> Addr n" if "next_addr ?s0 \<le> n" for n using that by simp
  from wait_any_supplied [OF l fr assms(3) assms(3) [symmetric] f(2) f(2) [symmetric] f(3) f(3) [symmetric] rr _ assms(7-9), of 0 1]
    wait_any_supplied [OF l(2,1) fr assms(3) [symmetric] assms(3) f(3) f(3) [symmetric] f(2) f(2) [symmetric] rr _ assms(7-9), of 1 0]
  show ?thesis using assms(5,6) P by (auto simp: less_2_cases_iff rest_def simp del: supply_value_and_detach.simps)
qed

theorem wait_any_first_witness:
  "\<exists>s'. bindM alloc (\<lambda>r. thenM (wait_any [Addr 0, Addr 1] r)
        (supply_value_and_detach (wait_hooks_at 2) 5 (Addr 3) (VCount (Inr 7)))) ex_two = Inr ((), s')
     \<and> futures s' (Addr 4) = Some (ready_future (VIndex 1)) \<and> futures s' (Addr 0) = Some (pending_future (Addr 2))"
  using wait_any_first [OF ex_two_ok(1,2) _ ex_two_ok(3), of 1 _ "wait_hooks_at 2" "wait_hooks_at 1" 5 5 "VCount (Inr 7)"]
    ex_two_ok(5) by (auto simp: ex_two_def numeral_2_eq_2 simp del: supply_value_and_detach.simps)


lemma check_all_ready:
  assumes "k < length fs" and "futures s (fs ! k) = Some F" and "fut_has_value F"
    and "\<And>j. j < k \<Longrightarrow> \<exists>p. futures s (fs ! j) = Some (pending_future p)"
  shows "check_all fs (i, False) s = Inr ((i + k, True), s)"
  using assms
proof (induction fs arbitrary: i k)
  case (Cons f fs)
  have seen: "check_all gs (j, True) s = Inr ((j, True), s)" for gs j
    by (induction gs) (simp_all add: check_evaled_def)
  show ?case
  proof (cases k)
    case 0
    with Cons.prems have "check_evaled f (i, False) s = Inr ((i, True), s)" by (simp add: check_evaled_def)
    with 0 seen show ?thesis by simp
  next
    case (Suc k')
    from Cons.prems(4) [of 0] Suc obtain p where "futures s f = Some (pending_future p)" by auto
    then have "check_evaled f (i, False) s = Inr ((Suc i, False), s)"
      by (simp add: check_evaled_def fut_has_value_def fut_default_def)
    moreover have "\<exists>p. futures s (fs ! j) = Some (pending_future p)" if "j < k'" for j
      using Cons.prems(4) [of "Suc j"] Suc that by simp
    ultimately show ?thesis using Cons.IH [of k' "Suc i"] Cons.prems(1-3) Suc by simp
  qed
qed simp

text \<open>
  C24. \<open>wait_any\<close> on futures of which some have completed already gives the index of the first of
  them at once, and touches nothing but the future it returns.
\<close>

theorem wait_any_ready:
  assumes "k < length fs" and "futures s (fs ! k) = Some F" and "fut_has_value F"
    and "\<forall>j < k. \<exists>p. futures s (fs ! j) = Some (pending_future p)"
  shows "wait_any fs r s = Inr ((), s\<lparr>futures := (futures s)(r \<mapsto> ready_future (VIndex k))\<rparr>)"
  using check_all_ready [OF assms(1-3), of 0] assms(4) by (simp add: wait_any_def future_of_value_def)

theorem wait_any_ready_witness:
  "wait_any [Addr 0, Addr 5, Addr 6] (Addr 9) (ex_two\<lparr>futures := (futures ex_two)(Addr 5 \<mapsto> ready_future VUnit)\<rparr>)
   = Inr ((), ex_two\<lparr>futures := (futures ex_two)(Addr 5 \<mapsto> ready_future VUnit, Addr 9 \<mapsto> ready_future (VIndex 1))\<rparr>)"
  using wait_any_ready [of 1 "[Addr 0, Addr 5, Addr 6]" "ex_two\<lparr>futures := (futures ex_two)(Addr 5 \<mapsto> ready_future VUnit)\<rparr>"
      "ready_future VUnit" "Addr 9"]
  by (simp add: fut_has_value_def) (simp add: ex_two_def)

text \<open>
  C25. The overload of \<open>await_notifications\<close> for three futures makes a \<open>wait_any_state<2>\<close> like the
  others: waiting for three futures none of which is ready uses \<open>notifies[2]\<close>, which does not exist.
\<close>

theorem wait_any_three:
  assumes "linked s f0 p0 P0" and "linked s f1 p1 P1" and "linked s f2 p2 P2"
    and "p0 \<noteq> p1" and "fresh_ws s" and "r \<noteq> f0" and "r \<noteq> f1"
  shows "wait_any [f0, f1, f2] r s = Inl (OutOfBounds ''notifies'')"
proof -
  note L = assms(1-3) [unfolded linked_def]
  have old: "p0 \<noteq> cell s k" "cell s k \<noteq> p0" "p1 \<noteq> cell s k" "cell s k \<noteq> p1" for k
    using cell_old [OF assms(5)] L by blast+
  have ne: "p1 \<noteq> p0" "f0 \<noteq> r" "f1 \<noteq> r" using assms(4,6,7) by simp_all
  have "check_all [f0, f1, f2] (0, False) s = Inr ((0 + length [f0, f1, f2], False), s)"
    by (rule check_all_pending) (use L in auto)
  moreover have "Addr (next_addr s) = cell s 0" "Addr (Suc (next_addr s)) = cell s 1" by (simp_all add: cell_def)
  ultimately show ?thesis using L
    by (simp add: wait_any_def await_notifications_def wait_any_state_new_def register_at_def upto_2
        future_of_promise_def old ne assms(4,6,7) del: check_all.simps)
qed

theorem wait_any_three_witness:
  "wait_any [Addr 0, Addr 1, Addr 5] (Addr 9)
     (ex_two\<lparr>lnodes := (lnodes ex_two)(ListOf (Addr 6) \<mapsto> self_node (ListOf (Addr 6))),
       futures := (futures ex_two)(Addr 5 \<mapsto> pending_future (Addr 6)),
       promises := (promises ex_two)(Addr 6 \<mapsto> linked_promise PlainPromise (Addr 5)), next_addr := 10\<rparr>)
   = Inl (OutOfBounds ''notifies'')"
  by (rule wait_any_three [where ?p0.0 = "Addr 2" and ?p1.0 = "Addr 3" and ?p2.0 = "Addr 6"
        and ?P0.0 = "linked_promise DefaultCancellable (Addr 0)" and ?P1.0 = "linked_promise DefaultCancellable (Addr 1)"
        and ?P2.0 = "linked_promise PlainPromise (Addr 5)"])
    (auto simp: linked_def fresh_ws_def fresh_ok_def unused_def ex_two_def)

text \<open>
  C22. \<open>wait_interruptible\<close>, when the operation completes first: the future it returned completes
  with the operation's value, the interruptor still waits and can be waited for again, and all that
  the wait allocated is gone.
\<close>

theorem wait_interruptible_value:
  assumes "waiting s f0 p0" and "waiting s f1 p1" and "p0 \<noteq> p1" and "fresh_ws s" and "promises s p1 = Some P1"
    and "completed H = future_completed H1 m" and "3 \<le> m" and "3 \<le> n"
    and "\<forall>a b i res. run_fn H1 (KInterruptible a b) (VIndex i) res = interruptible_lambda sys H2 c a b i res"
  shows "\<exists>s'. bindM alloc (\<lambda>r. thenM (wait_interruptible H f0 f1 r) (supply_value_and_detach H n p1 v)) s = Inr ((), s')
    \<and> futures s' = (futures s)(f1 \<mapsto> empty_future, Addr (next_addr s) \<mapsto> ready_future (VInterruptible (Inr v)))
    \<and> promises s' = (promises s)(p1 \<mapsto> cleared P1) \<and> lnodes s' = lnodes s \<and> wait_states s' = wait_states s
    \<and> rest s' = rest s"
proof -
  let ?s0 = "s\<lparr>next_addr := Suc (next_addr s)\<rparr>" and ?r = "Addr (next_addr s)"
  obtain P0 P1' where l: "linked ?s0 f0 p0 P0" "linked ?s0 f1 p1 P1'" and P: "promises s p1 = Some P1'"
    and fr: "fresh_ws ?s0" and f: "f0 \<noteq> f1" "?r \<noteq> f0" "?r \<noteq> f1"
    using two_waiting [OF assms(1-4)] .
  have rr: "?r \<noteq> cell ?s0 k \<and> cell ?s0 k \<noteq> ?r" for k by (simp add: cell_def)
  obtain m' n' where mn: "m = Suc (Suc (Suc m'))" "n = Suc (Suc n')" "0 < n'"
    using assms(7,8) that [of "m - 3" "n - 2"] by simp
  have C: "completed H = future_completed H1 (Suc (Suc (Suc m')))" using assms(6) mn(1) by simp
  have run: "run_fn H1 (KInterruptible a b) (VIndex i) res = interruptible_lambda sys H2 c a b i res" for a b i res
    using assms(9) by blast
  from interruptible_value [OF l fr assms(3) assms(3) [symmetric] f(2) f(2) [symmetric] f(3) f(3) [symmetric]
      f(1) f(1) [symmetric] rr C mn(2,3) run, of v]
  show ?thesis using P assms(5) by (simp add: rest_def del: supply_value_and_detach.simps)
qed

theorem wait_interruptible_value_witness:
  "\<exists>s'. bindM alloc (\<lambda>r. thenM (wait_interruptible (wait_hooks_at 3) (Addr 0) (Addr 1) r)
        (supply_value_and_detach (wait_hooks_at 3) 5 (Addr 3) (VCount (Inr 7)))) ex_two = Inr ((), s')
     \<and> futures s' (Addr 4) = Some (ready_future (VInterruptible (Inr (VCount (Inr 7)))))"
  using wait_interruptible_value [OF ex_two_ok(1,2) _ ex_two_ok(3,5), of "wait_hooks_at 3" "wait_hooks_at 2" 5 5 idle_sys "wait_hooks_at 1" 5 "VCount (Inr 7)"]
  by (auto simp: ex_two_def numeral_eq_Suc simp del: supply_value_and_detach.simps)

text \<open>
  C23. \<open>wait_interruptible\<close>, when the interruptor completes first: the operation is cancelled, with
  what its promise's \<open>cancel\<close> does and no more, and the future it returned completes with the
  interruption's result; the interruptor keeps its value. Here \<open>W\<close> is the world after the \<open>cancel\<close>.
\<close>

theorem wait_interruptible_interrupted:
  assumes "waiting s f0 p0" and "waiting s f1 p1" and "p0 \<noteq> p1" and "fresh_ws s"
    and "promises s p0 = Some P0" and "promises s p1 = Some P1"
    and "completed H = future_completed H1 m" and "3 \<le> m" and "3 \<le> n"
    and "\<forall>a b i res. run_fn H1 (KInterruptible a b) (VIndex i) res = interruptible_lambda sys H2 c a b i res"
    and "cancels H2 c p1 P1 (rest s) W"
  shows "\<exists>s'. bindM alloc (\<lambda>r. thenM (wait_interruptible H f0 f1 r) (supply_value_and_detach H n p0 (VInterrupt x))) s = Inr ((), s')
    \<and> futures s' = (futures s)(f1 \<mapsto> empty_future, f0 \<mapsto> ready_future (VInterrupt x),
        Addr (next_addr s) \<mapsto> ready_future (VInterruptible (Inl x)))
    \<and> promises s' = (promises s)(p1 \<mapsto> cleared P1, p0 \<mapsto> cleared P0) \<and> lnodes s' = lnodes s
    \<and> wait_states s' = wait_states s \<and> rest s' = W"
proof -
  let ?s0 = "s\<lparr>next_addr := Suc (next_addr s)\<rparr>" and ?r = "Addr (next_addr s)"
  obtain P0' P1' where l: "linked ?s0 f0 p0 P0'" "linked ?s0 f1 p1 P1'"
    and P: "promises s p0 = Some P0'" "promises s p1 = Some P1'"
    and fr: "fresh_ws ?s0" and f: "f0 \<noteq> f1" "?r \<noteq> f0" "?r \<noteq> f1"
    using two_waiting [OF assms(1-4)] .
  have rr: "?r \<noteq> cell ?s0 k \<and> cell ?s0 k \<noteq> ?r" for k by (simp add: cell_def)
  obtain m' n' where mn: "m = Suc (Suc (Suc m'))" "n = Suc (Suc n')" "0 < n'"
    using assms(8,9) that [of "m - 3" "n - 2"] by simp
  have C: "completed H = future_completed H1 (Suc (Suc (Suc m')))" using assms(7) mn(1) by simp
  have run: "run_fn H1 (KInterruptible a b) (VIndex i) res = interruptible_lambda sys H2 c a b i res" for a b i res
    using assms(10) by blast
  have "rest ?s0 = rest s" by (simp add: rest_def)
  then have "cancels H2 c p1 P1' (rest ?s0) W" using assms(6,11) P by simp
  from interruptible_interrupted [OF l fr assms(3) assms(3) [symmetric] f(2) f(2) [symmetric] f(3) f(3) [symmetric]
      f(1) f(1) [symmetric] rr C mn(2,3) run this, of x]
  show ?thesis using P assms(5,6) by (simp del: supply_value_and_detach.simps)
qed

theorem wait_interruptible_interrupted_witness:
  "\<exists>s'. bindM alloc (\<lambda>r. thenM (wait_interruptible (wait_hooks_at 3) (Addr 0) (Addr 1) r)
        (supply_value_and_detach (wait_hooks_at 3) 5 (Addr 2) (VInterrupt (Inr ())))) ex_two = Inr ((), s')
     \<and> futures s' (Addr 4) = Some (ready_future (VInterruptible (Inl (Inr ()))))"
proof -
  have "cancels (wait_hooks_at 1) 5 (Addr 3) (linked_promise DefaultCancellable (Addr 1)) (rest ex_two) (rest ex_two)"
    by (rule cancels_default) simp_all
  from wait_interruptible_interrupted [OF ex_two_ok(1,2) _ ex_two_ok(3-5) _ _ _ _ this, of "wait_hooks_at 3" "wait_hooks_at 2" 5 5 idle_sys "Inr ()"]
  show ?thesis by (auto simp: ex_two_def numeral_eq_Suc simp del: supply_value_and_detach.simps)
qed


end
