(* ===== verification/Pipe.thy ===== *)
theory Pipe
  imports WaitAny
begin

text \<open>
  One end of a pipe, or a socket: src/el/pipe.hpp and src/el/pipe.cpp. A \<open>Pipe\<close> is a registrant at
  the same address; its two promises have addresses of their own. Buffers are arrays of bytes in
  \<open>mem\<close>; \<open>destruct_pointer_\<close> points at a local variable of \<open>on_update\<close>, which is a cell of
  \<open>flags\<close>. The messages that the program prints are left out.
\<close>

section \<open>Objects\<close>

record pipe =
  read_ready :: bool
  write_ready :: bool
  read_buf :: "ptr option"
  read_nbytes :: nat
  read_promise :: addr
  write_buf :: "ptr option"
  write_nbytes :: nat
  write_promise :: addr
  destruct_pointer :: "addr option"

record 'os pipe_st = "'os wait_st" +
  mem :: "addr \<Rightarrow> u8 list option"
  flags :: "addr \<Rightarrow> bool option"
  pipes :: "addr \<Rightarrow> pipe option"

definition get_pipe :: "addr \<Rightarrow> (('os, 'm) pipe_st_scheme, pipe) M" where
  "get_pipe this = (\<lambda>s. case pipes s this of
     None \<Rightarrow> Inl (UseAfterFree ''Pipe'') | Some P \<Rightarrow> Inr (P, s))"

definition put_pipe :: "addr \<Rightarrow> pipe option \<Rightarrow> (('os, 'm) pipe_st_scheme, unit) M" where
  "put_pipe this P = modM (\<lambda>s. s\<lparr>pipes := (pipes s)(this := P)\<rparr>)"

definition upd_pipe :: "addr \<Rightarrow> (pipe \<Rightarrow> pipe) \<Rightarrow> (('os, 'm) pipe_st_scheme, unit) M" where
  "upd_pipe this g = bindM (get_pipe this) (\<lambda>P. put_pipe this (Some (g P)))"

definition get_flag :: "addr \<Rightarrow> (('os, 'm) pipe_st_scheme, bool) M" where
  "get_flag a = (\<lambda>s. case flags s a of None \<Rightarrow> Inl (UseAfterFree ''is_destructed'') | Some b \<Rightarrow> Inr (b, s))"

definition put_flag :: "addr \<Rightarrow> bool option \<Rightarrow> (('os, 'm) pipe_st_scheme, unit) M" where
  "put_flag a b = modM (\<lambda>s. s\<lparr>flags := (flags s)(a := b)\<rparr>)"

text \<open>The kernel's accesses to a buffer.\<close>

definition store_bytes :: "ptr \<Rightarrow> u8 list \<Rightarrow> (('os, 'm) pipe_st_scheme, unit) M" where
  "store_bytes p bs = (\<lambda>s. case mem s (fst p) of
     None \<Rightarrow> Inl (UseAfterFree ''buffer'')
   | Some xs \<Rightarrow> if snd p + length bs \<le> length xs
       then Inr ((), s\<lparr>mem := (mem s)(fst p \<mapsto> take (snd p) xs @ bs @ drop (snd p + length bs) xs)\<rparr>)
       else Inl (OutOfBounds ''buffer''))"

definition load_bytes :: "ptr \<Rightarrow> nat \<Rightarrow> (('os, 'm) pipe_st_scheme, u8 list) M" where
  "load_bytes p n = (\<lambda>s. case mem s (fst p) of
     None \<Rightarrow> Inl (UseAfterFree ''buffer'')
   | Some xs \<Rightarrow> if snd p + n \<le> length xs then Inr (take n (drop (snd p) xs), s)
       else Inl (OutOfBounds ''buffer''))"

section \<open>Construction and destruction\<close>

definition pipe_new ::
  "'os syscalls \<Rightarrow> (int \<Rightarrow> string) \<Rightarrow> int \<Rightarrow> (('os, 'm) pipe_st_scheme, addr) M" where
  "pipe_new sys strerror fd =
     bindM alloc (\<lambda>this.
     thenM (registrant_new sys strerror this fd EpollInOut_inout)
     (bindM alloc (\<lambda>rp.
      thenM (prom_new (OtherCancellable (PipeRead this)) rp)
      (bindM alloc (\<lambda>wp.
       thenM (prom_new (OtherCancellable (PipeWrite this)) wp)
       (thenM (put_pipe this (Some \<lparr>read_ready = True, write_ready = True, read_buf = None, read_nbytes = 0,
           read_promise = rp, write_buf = None, write_nbytes = 0, write_promise = wp, destruct_pointer = None\<rparr>))
       (ret this)))))))"

definition pipe_destroy ::
  "'os syscalls \<Rightarrow> (int \<Rightarrow> string) \<Rightarrow> addr \<Rightarrow> (('os, 'm) pipe_st_scheme, unit) M" where
  "pipe_destroy sys strerror this =
     bindM (get_pipe this) (\<lambda>P.
     thenM (case destruct_pointer P of
         None \<Rightarrow> ret ()
       | Some d \<Rightarrow> bindM (get_flag d) (\<lambda>b.
           thenM (tpf_assert ''!*destruct_pointer_'' (\<not> b))
           (thenM (put_flag d (Some True))
           (upd_pipe this (destruct_pointer_update (\<lambda>_. None))))))
     (thenM (prom_destroy (write_promise P))
     (thenM (prom_destroy (read_promise P))
     (thenM (put_pipe this None)
     (registrant_destroy sys strerror this)))))"

section \<open>Reading and writing\<close>

definition try_doing_read ::
  "'os syscalls \<Rightarrow> ('os, 'm) pipe_st_scheme prog_hooks \<Rightarrow> nat \<Rightarrow> addr \<Rightarrow> (('os, 'm) pipe_st_scheme, unit) M" where
  "try_doing_read sys H n this =
     bindM (get_pipe this) (\<lambda>P.
     thenM (tpf_assert ''read_ready_'' (read_ready P))
     (bindM (get_prom (read_promise P)) (\<lambda>R.
      thenM (tpf_assert ''read_promise_.is_active()'' (prom_is_active R))
      (thenM (tpf_assert ''read_buf_ != nullptr'' (read_buf P \<noteq> None))
      (bindM (deref ''read_buf_'' (read_buf P)) (\<lambda>buf.
       bindM (get_reg_fd this) (\<lambda>fd.
       let finish = (\<lambda>nbytes_expec.
             thenM (upd_pipe this (read_buf_update (\<lambda>_. None)))
             (thenM (upd_pipe this (read_nbytes_update (\<lambda>_. 0)))
             (supply_value_and_detach H n (read_promise P) (VCount nbytes_expec))))
       in bindM (syscall_retry (sys_read sys fd (read_nbytes P))) (\<lambda>res.
       case res of
         Inl e \<Rightarrow>
           thenM (upd_pipe this (read_ready_update (\<lambda>_. False)))
           (if e = EAGAIN \<or> e = EWOULDBLOCK then ret ()
            else finish (Inl (mk_error ''read'' e)))
       | Inr bs \<Rightarrow>
           thenM (store_bytes buf bs)
           (thenM (upd_pipe this (read_ready_update (\<lambda>_. length bs = read_nbytes P)))
           (finish (Inr (length bs))))))))))))"

definition pipe_read ::
  "'os syscalls \<Rightarrow> ('os, 'm) pipe_st_scheme prog_hooks \<Rightarrow> nat \<Rightarrow> addr \<Rightarrow> ptr \<Rightarrow> nat \<Rightarrow> addr
     \<Rightarrow> (('os, 'm) pipe_st_scheme, unit) M" where
  "pipe_read sys H n this buf nbytes fut =
     bindM (get_pipe this) (\<lambda>P.
     bindM (get_prom (read_promise P)) (\<lambda>R.
     thenM (tpf_assert ''read_promise_.is_default_constructed_but_for_completions()'' (default_but_completions R))
     (thenM (tpf_assert ''read_buf_ == nullptr'' (read_buf P = None))
     (thenM (tpf_assert ''read_nbytes_ == 0'' (read_nbytes P = 0))
     (thenM (future_of_promise fut (read_promise P))
     (thenM (upd_pipe this (read_buf_update (\<lambda>_. Some buf)))
     (thenM (upd_pipe this (read_nbytes_update (\<lambda>_. nbytes)))
     (bindM (get_pipe this) (\<lambda>P'.
      whenM (read_ready P') (try_doing_read sys H n this))))))))))"

definition try_doing_write ::
  "'os syscalls \<Rightarrow> ('os, 'm) pipe_st_scheme prog_hooks \<Rightarrow> nat \<Rightarrow> addr \<Rightarrow> (('os, 'm) pipe_st_scheme, unit) M" where
  "try_doing_write sys H n this =
     bindM (get_pipe this) (\<lambda>P.
     thenM (tpf_assert ''write_ready_'' (write_ready P))
     (bindM (get_prom (write_promise P)) (\<lambda>R.
      thenM (tpf_assert ''write_promise_.is_active()'' (prom_is_active R))
      (thenM (tpf_assert ''write_buf_ != nullptr'' (write_buf P \<noteq> None))
      (bindM (deref ''write_buf_'' (write_buf P)) (\<lambda>buf.
       bindM (get_reg_fd this) (\<lambda>fd.
       let finish = (\<lambda>nbytes_expec.
             thenM (upd_pipe this (write_buf_update (\<lambda>_. None)))
             (thenM (upd_pipe this (write_nbytes_update (\<lambda>_. 0)))
             (supply_value_and_detach H n (write_promise P) (VCount nbytes_expec))))
       in bindM (load_bytes buf (write_nbytes P)) (\<lambda>bs.
       bindM (syscall_retry (sys_write sys fd bs)) (\<lambda>res.
       case res of
         Inl e \<Rightarrow>
           thenM (upd_pipe this (write_ready_update (\<lambda>_. False)))
           (if e = EAGAIN \<or> e = EWOULDBLOCK then ret ()
            else finish (Inl (mk_error ''write'' e)))
       | Inr k \<Rightarrow>
           thenM (upd_pipe this (write_ready_update (\<lambda>_. k = write_nbytes P)))
           (finish (Inr k)))))))))))"

definition pipe_write ::
  "'os syscalls \<Rightarrow> ('os, 'm) pipe_st_scheme prog_hooks \<Rightarrow> nat \<Rightarrow> addr \<Rightarrow> ptr \<Rightarrow> nat \<Rightarrow> addr
     \<Rightarrow> (('os, 'm) pipe_st_scheme, unit) M" where
  "pipe_write sys H n this buf nbytes fut =
     bindM (get_pipe this) (\<lambda>P.
     bindM (get_prom (write_promise P)) (\<lambda>R.
     thenM (tpf_assert ''write_promise_.is_default_constructed_but_for_completions()'' (default_but_completions R))
     (thenM (tpf_assert ''write_buf_ == nullptr'' (write_buf P = None))
     (thenM (tpf_assert ''write_nbytes_ == 0'' (write_nbytes P = 0))
     (thenM (future_of_promise fut (write_promise P))
     (thenM (upd_pipe this (write_buf_update (\<lambda>_. Some buf)))
     (thenM (upd_pipe this (write_nbytes_update (\<lambda>_. nbytes)))
     (bindM (get_pipe this) (\<lambda>P'.
      whenM (write_ready P') (try_doing_write sys H n this))))))))))"

section \<open>Events\<close>

definition has_event :: "u32 \<Rightarrow> u32 \<Rightarrow> bool" where
  "has_event events m \<longleftrightarrow> and events m \<noteq> 0"

definition pipe_on_update ::
  "'os syscalls \<Rightarrow> ('os, 'm) pipe_st_scheme prog_hooks \<Rightarrow> nat \<Rightarrow> addr \<Rightarrow> u32 \<Rightarrow> (('os, 'm) pipe_st_scheme, unit) M" where
  "pipe_on_update sys H n this events =
     bindM alloc (\<lambda>is_destructed.
     thenM (put_flag is_destructed (Some False))
     (let read_update = has_event events (or EPOLLIN (or EPOLLHUP EPOLLERR));
          write_update = has_event events (or EPOLLOUT (or EPOLLHUP EPOLLERR))
      in thenM
        (whenM read_update (bindM (get_pipe this) (\<lambda>P.
          whenM (\<not> read_ready P)
            (thenM (upd_pipe this (read_ready_update (\<lambda>_. True)))
            (bindM (get_prom (read_promise P)) (\<lambda>R.
             whenM (prom_is_active R)
               (thenM (upd_pipe this (destruct_pointer_update (\<lambda>_. Some is_destructed)))
               (try_doing_read sys H n this))))))))
        (bindM (get_flag is_destructed) (\<lambda>b.
         thenM (whenM (\<not> b)
           (thenM (upd_pipe this (destruct_pointer_update (\<lambda>_. None)))
           (whenM write_update (bindM (get_pipe this) (\<lambda>P.
             whenM (\<not> write_ready P)
               (thenM (upd_pipe this (write_ready_update (\<lambda>_. True)))
               (bindM (get_prom (write_promise P)) (\<lambda>W.
                whenM (prom_is_active W) (try_doing_write sys H n this)))))))))
         (put_flag is_destructed None)))))"

section \<open>Closing and cancelling\<close>

definition pipe_close ::
  "'os syscalls \<Rightarrow> (int \<Rightarrow> string) \<Rightarrow> addr \<Rightarrow> addr \<Rightarrow> (('os, 'm) pipe_st_scheme, unit) M" where
  "pipe_close sys strerror pipe fut =
     bindM (get_pipe pipe) (\<lambda>P.
     bindM (get_prom (read_promise P)) (\<lambda>R.
     thenM (tpf_assert ''pipe->read_promise_.is_default_constructed_but_for_completions()'' (default_but_completions R))
     (bindM (get_prom (write_promise P)) (\<lambda>W.
      thenM (tpf_assert ''pipe->write_promise_.is_default_constructed_but_for_completions()'' (default_but_completions W))
      (bindM (deregister_and_close sys pipe) (\<lambda>errsv_expec.
       thenM (pipe_destroy sys strerror pipe)
       (future_of_value fut (VClosed errsv_expec))))))))"

text \<open>\<open>pipe_read_promise::cancel\<close> and \<open>pipe_write_promise::cancel\<close>.\<close>

definition pipe_promise_cancel :: "prom_kind \<Rightarrow> addr \<Rightarrow> (('os, 'm) pipe_st_scheme, unit) M" where
  "pipe_promise_cancel k this = (case k of
     PipeRead pipe \<Rightarrow>
       bindM (get_prom this) (\<lambda>T.
       thenM (tpf_assert ''this->matching_future_ == nullptr'' (matching_future T = None))
       (bindM (get_pipe pipe) (\<lambda>P.
        thenM (tpf_assert ''pipe_->read_buf_ != nullptr'' (read_buf P \<noteq> None))
        (thenM (upd_pipe pipe (read_buf_update (\<lambda>_. None)))
        (upd_pipe pipe (read_nbytes_update (\<lambda>_. 0)))))))
   | PipeWrite pipe \<Rightarrow>
       bindM (get_prom this) (\<lambda>T.
       thenM (tpf_assert ''this->matching_future_ == nullptr'' (matching_future T = None))
       (bindM (get_pipe pipe) (\<lambda>P.
        thenM (tpf_assert ''pipe_->write_buf_ != nullptr'' (write_buf P \<noteq> None))
        (thenM (upd_pipe pipe (write_buf_update (\<lambda>_. None)))
        (upd_pipe pipe (write_nbytes_update (\<lambda>_. 0))))))))"

section \<open>Pipes from descriptors\<close>

text \<open>\<open>std::format\<close> of a number with \<open>{:o}\<close>.\<close>

fun to_octal :: "nat \<Rightarrow> string" where
  "to_octal n = (if n < 8 then [char_of (48 + n)] else to_octal (n div 8) @ [char_of (48 + n mod 8)])"

declare to_octal.simps [simp del]

text \<open>The descriptor object stays with the caller, which gets it back; a failed \<open>F_GETFL\<close> reads as
  \<open>-1\<close>, all flags.\<close>

definition make_pipe_or_socket_from_fd ::
  "'os syscalls \<Rightarrow> (int \<Rightarrow> string) \<Rightarrow> Fd \<Rightarrow> u32 \<Rightarrow> (('os, 'm) pipe_st_scheme, (message_error + addr) \<times> Fd) M" where
  "make_pipe_or_socket_from_fd sys strerror fd fd_type =
     bindM (syscall (sys_fstat_mode sys fd)) (\<lambda>stat_res.
     case stat_res of
       Inl e \<Rightarrow> ret (Inl (''fstat of presumed pipe failed: '' @ strerror e), fd)
     | Inr st_mode \<Rightarrow>
         if and st_mode S_IFMT \<noteq> fd_type then
           ret (Inl (''st_mode & S_IFMT is 0'' @ to_octal (unat (and S_IFMT st_mode))), fd)
         else bindM (syscall (sys_getfl sys fd)) (\<lambda>getfl.
           let fl = (case getfl of Inl _ \<Rightarrow> -1 | Inr fl \<Rightarrow> fl) in
           bindM (if and fl O_NONBLOCK = 0 then syscall (sys_setfl sys fd (or fl O_NONBLOCK)) else ret (Inr ()))
             (\<lambda>res. case res of
               Inl e \<Rightarrow> ret (Inl (''fcntl of pipe failed: '' @ strerror e), fd)
             | Inr _ \<Rightarrow> (case fd_release fd of (raw, fd') \<Rightarrow>
                 bindM (pipe_new sys strerror raw) (\<lambda>p. ret (Inr p, fd'))))))"

definition make_pipe_from_fifo ::
  "'os syscalls \<Rightarrow> (int \<Rightarrow> string) \<Rightarrow> Fd \<Rightarrow> (('os, 'm) pipe_st_scheme, (message_error + addr) \<times> Fd) M" where
  "make_pipe_from_fifo sys strerror fd = make_pipe_or_socket_from_fd sys strerror fd S_IFIFO"

definition make_pipe_from_sockfd ::
  "'os syscalls \<Rightarrow> (int \<Rightarrow> string) \<Rightarrow> Fd \<Rightarrow> (('os, 'm) pipe_st_scheme, (message_error + addr) \<times> Fd) M" where
  "make_pipe_from_sockfd sys strerror fd = make_pipe_or_socket_from_fd sys strerror fd S_IFSOCK"

end
