(* ===== verification/SignalFd.thy ===== *)
theory SignalFd
  imports Pipe
begin

text \<open>
  Signals as a descriptor: src/el/signalfd.hpp and src/el/signalfd.cpp. The mask of blocked signals
  belongs to the kernel; a \<open>SignalBlockGuard\<close> is a local variable of the program, passed and
  returned.
\<close>

section \<open>\<open>SignalBlockGuard\<close>\<close>

definition sigint_sigterm_sigset :: "u32 list" where
  "sigint_sigterm_sigset = [SIGINT, SIGTERM]"

record signal_block_guard =
  unblocked :: bool
  blocked_set :: "u32 list"

definition guard_new ::
  "'os syscalls \<Rightarrow> (int \<Rightarrow> string) \<Rightarrow> u32 list \<Rightarrow> (('n, 'os, 'm) os_state_scheme, signal_block_guard) M" where
  "guard_new sys strerror sigset =
     bindM (syscall (sys_sigprocmask sys True sigset)) (\<lambda>res. case res of
       Inl e \<Rightarrow> failM (Thrown (''sigprocmask failed: '' @ strerror e))
     | Inr _ \<Rightarrow> ret \<lparr>unblocked = False, blocked_set = sigset\<rparr>)"

definition make_signalfd ::
  "'os syscalls \<Rightarrow> signal_block_guard \<Rightarrow> (('n, 'os, 'm) os_state_scheme, signalfd_error + int) M" where
  "make_signalfd sys g =
     thenM (tpf_assert ''!unblocked_'' (\<not> unblocked g))
     (bindM (syscall (sys_signalfd sys (blocked_set g) (or O_NONBLOCK O_CLOEXEC))) (\<lambda>res. case res of
        Inl e \<Rightarrow> ret (Inl (mk_error ''signalfd'' e))
      | Inr fd \<Rightarrow> ret (Inr fd)))"

definition unblock ::
  "'os syscalls \<Rightarrow> (int \<Rightarrow> string) \<Rightarrow> signal_block_guard \<Rightarrow> (('n, 'os, 'm) os_state_scheme, signal_block_guard) M" where
  "unblock sys strerror g =
     bindM (syscall (sys_sigprocmask sys False (blocked_set g))) (\<lambda>res. case res of
       Inl e \<Rightarrow> failM (Thrown (''sigprocmask failed to set mask: '' @ strerror e))
     | Inr _ \<Rightarrow> ret (g\<lparr>unblocked := True\<rparr>))"

definition guard_destroy ::
  "'os syscalls \<Rightarrow> (int \<Rightarrow> string) \<Rightarrow> signal_block_guard \<Rightarrow> (('n, 'os, 'm) os_state_scheme, unit) M" where
  "guard_destroy sys strerror g =
     (if \<not> unblocked g then bindM (unblock sys strerror g) (\<lambda>_. ret ()) else ret ())"

section \<open>\<open>SignalFd\<close>\<close>

record signal_fd =
  sig_read_ready :: bool
  sig_read_promise :: addr

record 'os sig_st = "'os pipe_st" +
  signal_fds :: "addr \<Rightarrow> signal_fd option"

definition get_sig :: "addr \<Rightarrow> (('os, 'm) sig_st_scheme, signal_fd) M" where
  "get_sig this = (\<lambda>s. case signal_fds s this of
     None \<Rightarrow> Inl (UseAfterFree ''SignalFd'') | Some P \<Rightarrow> Inr (P, s))"

definition put_sig :: "addr \<Rightarrow> signal_fd option \<Rightarrow> (('os, 'm) sig_st_scheme, unit) M" where
  "put_sig this P = modM (\<lambda>s. s\<lparr>signal_fds := (signal_fds s)(this := P)\<rparr>)"

definition upd_sig :: "addr \<Rightarrow> (signal_fd \<Rightarrow> signal_fd) \<Rightarrow> (('os, 'm) sig_st_scheme, unit) M" where
  "upd_sig this g = bindM (get_sig this) (\<lambda>P. put_sig this (Some (g P)))"

definition signal_fd_new ::
  "'os syscalls \<Rightarrow> (int \<Rightarrow> string) \<Rightarrow> int \<Rightarrow> (('os, 'm) sig_st_scheme, addr) M" where
  "signal_fd_new sys strerror fd =
     bindM alloc (\<lambda>this.
     thenM (registrant_new sys strerror this fd EpollInOut_in)
     (bindM alloc (\<lambda>rp.
      thenM (prom_new DefaultCancellable rp)
      (thenM (put_sig this (Some \<lparr>sig_read_ready = True, sig_read_promise = rp\<rparr>))
      (ret this)))))"

definition signal_fd_destroy ::
  "'os syscalls \<Rightarrow> (int \<Rightarrow> string) \<Rightarrow> addr \<Rightarrow> (('os, 'm) sig_st_scheme, unit) M" where
  "signal_fd_destroy sys strerror this =
     bindM (get_sig this) (\<lambda>P.
     thenM (prom_destroy (sig_read_promise P))
     (thenM (put_sig this None)
     (registrant_destroy sys strerror this)))"

text \<open>\<open>sizeof(struct signalfd_siginfo)\<close> is 128.\<close>

definition sig_try_doing_read ::
  "'os syscalls \<Rightarrow> ('os, 'm) sig_st_scheme prog_hooks \<Rightarrow> nat \<Rightarrow> addr \<Rightarrow> (('os, 'm) sig_st_scheme, unit) M" where
  "sig_try_doing_read sys H n this =
     bindM (get_sig this) (\<lambda>P.
     thenM (tpf_assert ''read_ready_'' (sig_read_ready P))
     (bindM (get_prom (sig_read_promise P)) (\<lambda>R.
      thenM (tpf_assert ''read_promise_.is_active()'' (prom_is_active R))
      (bindM (get_reg_fd this) (\<lambda>fd.
       let finish = (\<lambda>signals_expec. supply_value_and_detach H n (sig_read_promise P) (VSignal signals_expec))
       in bindM (syscall_retry (sys_read_siginfo sys fd)) (\<lambda>res.
       case res of
         Inl e \<Rightarrow>
           thenM (upd_sig this (sig_read_ready_update (\<lambda>_. False)))
           (if e = EAGAIN \<or> e = EWOULDBLOCK then ret ()
            else finish (Inl (mk_error ''read'' e)))
       | Inr (len, signo) \<Rightarrow>
           thenM (tpf_assert ''res == sizeof(struct signalfd_siginfo)'' (len = 128))
           (finish (Inr signo))))))))"

definition sig_read ::
  "'os syscalls \<Rightarrow> ('os, 'm) sig_st_scheme prog_hooks \<Rightarrow> nat \<Rightarrow> addr \<Rightarrow> addr \<Rightarrow> (('os, 'm) sig_st_scheme, unit) M" where
  "sig_read sys H n this fut =
     bindM (get_sig this) (\<lambda>P.
     bindM (get_prom (sig_read_promise P)) (\<lambda>R.
     thenM (tpf_assert ''read_promise_.is_default_constructed_but_for_completions()'' (default_but_completions R))
     (thenM (future_of_promise fut (sig_read_promise P))
     (whenM (sig_read_ready P) (sig_try_doing_read sys H n this)))))"

definition sig_on_update ::
  "'os syscalls \<Rightarrow> ('os, 'm) sig_st_scheme prog_hooks \<Rightarrow> nat \<Rightarrow> addr \<Rightarrow> u32 \<Rightarrow> (('os, 'm) sig_st_scheme, unit) M" where
  "sig_on_update sys H n this events =
     whenM (has_event events (or EPOLLIN (or EPOLLHUP EPOLLERR)))
       (bindM (get_sig this) (\<lambda>P.
        whenM (\<not> sig_read_ready P)
          (thenM (upd_sig this (sig_read_ready_update (\<lambda>_. True)))
          (bindM (get_prom (sig_read_promise P)) (\<lambda>R.
           whenM (prom_is_active R) (sig_try_doing_read sys H n this))))))"

definition sig_close ::
  "'os syscalls \<Rightarrow> (int \<Rightarrow> string) \<Rightarrow> addr \<Rightarrow> addr \<Rightarrow> (('os, 'm) sig_st_scheme, unit) M" where
  "sig_close sys strerror this fut =
     bindM (get_sig this) (\<lambda>P.
     bindM (get_prom (sig_read_promise P)) (\<lambda>R.
     thenM (tpf_assert ''signal_fd->read_promise_.is_default_constructed_but_for_completions()'' (default_but_completions R))
     (bindM (deregister_and_close sys this) (\<lambda>errsv_expec.
      thenM (signal_fd_destroy sys strerror this)
      (future_of_value fut (VClosed errsv_expec))))))"

end
