(* ===== verification/ListenSocket.thy ===== *)
theory ListenSocket
  imports SignalFd
begin

text \<open>
  A listening socket: src/el/listen_socket.hpp and src/el/listen_socket.cpp. The descriptor that
  \<open>accept4\<close> gave is in the value of the future.
\<close>

section \<open>The class\<close>

record listen_socket =
  accept_ready :: bool
  accept_promise :: addr

record 'os sock_st = "'os sig_st" +
  listen_sockets :: "addr \<Rightarrow> listen_socket option"

definition get_sock :: "addr \<Rightarrow> (('os, 'm) sock_st_scheme, listen_socket) M" where
  "get_sock this = (\<lambda>s. case listen_sockets s this of
     None \<Rightarrow> Inl (UseAfterFree ''ListenSocket'') | Some P \<Rightarrow> Inr (P, s))"

definition put_sock :: "addr \<Rightarrow> listen_socket option \<Rightarrow> (('os, 'm) sock_st_scheme, unit) M" where
  "put_sock this P = modM (\<lambda>s. s\<lparr>listen_sockets := (listen_sockets s)(this := P)\<rparr>)"

definition upd_sock :: "addr \<Rightarrow> (listen_socket \<Rightarrow> listen_socket) \<Rightarrow> (('os, 'm) sock_st_scheme, unit) M" where
  "upd_sock this g = bindM (get_sock this) (\<lambda>P. put_sock this (Some (g P)))"

definition listen_socket_new ::
  "'os syscalls \<Rightarrow> (int \<Rightarrow> string) \<Rightarrow> int \<Rightarrow> (('os, 'm) sock_st_scheme, addr) M" where
  "listen_socket_new sys strerror fd =
     bindM alloc (\<lambda>this.
     thenM (registrant_new sys strerror this fd EpollInOut_in)
     (bindM alloc (\<lambda>ap.
      thenM (prom_new DefaultCancellable ap)
      (thenM (put_sock this (Some \<lparr>accept_ready = True, accept_promise = ap\<rparr>))
      (ret this)))))"

definition listen_socket_destroy ::
  "'os syscalls \<Rightarrow> (int \<Rightarrow> string) \<Rightarrow> addr \<Rightarrow> (('os, 'm) sock_st_scheme, unit) M" where
  "listen_socket_destroy sys strerror this =
     bindM (get_sock this) (\<lambda>P.
     thenM (prom_destroy (accept_promise P))
     (thenM (put_sock this None)
     (registrant_destroy sys strerror this)))"

section \<open>Accepting\<close>

definition try_doing_accept ::
  "'os syscalls \<Rightarrow> ('os, 'm) sock_st_scheme prog_hooks \<Rightarrow> nat \<Rightarrow> addr \<Rightarrow> (('os, 'm) sock_st_scheme, unit) M" where
  "try_doing_accept sys H n this =
     bindM (get_sock this) (\<lambda>P.
     thenM (tpf_assert ''accept_ready_'' (accept_ready P))
     (bindM (get_prom (accept_promise P)) (\<lambda>R.
      thenM (tpf_assert ''accept_promise_.is_active()'' (prom_is_active R))
      (bindM (get_reg_fd this) (\<lambda>fd.
       let finish = (\<lambda>sockfd_expec. supply_value_and_detach H n (accept_promise P) (VSocket sockfd_expec))
       in bindM (syscall_retry (sys_accept4 sys fd)) (\<lambda>res.
       case res of
         Inl e \<Rightarrow>
           thenM (upd_sock this (accept_ready_update (\<lambda>_. False)))
           (if e = EAGAIN \<or> e = EWOULDBLOCK then ret ()
            else finish (Inl (mk_error ''accept4'' e)))
       | Inr sockfd \<Rightarrow> finish (Inr sockfd)))))))"

definition sock_accept ::
  "'os syscalls \<Rightarrow> ('os, 'm) sock_st_scheme prog_hooks \<Rightarrow> nat \<Rightarrow> addr \<Rightarrow> addr \<Rightarrow> (('os, 'm) sock_st_scheme, unit) M" where
  "sock_accept sys H n this fut =
     bindM (get_sock this) (\<lambda>P.
     bindM (get_prom (accept_promise P)) (\<lambda>R.
     thenM (tpf_assert ''accept_promise_.is_default_constructed_but_for_completions()'' (default_but_completions R))
     (thenM (future_of_promise fut (accept_promise P))
     (whenM (accept_ready P) (try_doing_accept sys H n this)))))"

definition sock_on_update ::
  "'os syscalls \<Rightarrow> ('os, 'm) sock_st_scheme prog_hooks \<Rightarrow> nat \<Rightarrow> addr \<Rightarrow> u32 \<Rightarrow> (('os, 'm) sock_st_scheme, unit) M" where
  "sock_on_update sys H n this events =
     whenM (has_event events (or EPOLLIN (or EPOLLHUP EPOLLERR)))
       (bindM (get_sock this) (\<lambda>P.
        whenM (\<not> accept_ready P)
          (thenM (upd_sock this (accept_ready_update (\<lambda>_. True)))
          (bindM (get_prom (accept_promise P)) (\<lambda>R.
           whenM (prom_is_active R) (try_doing_accept sys H n this))))))"

definition sock_close ::
  "'os syscalls \<Rightarrow> (int \<Rightarrow> string) \<Rightarrow> addr \<Rightarrow> addr \<Rightarrow> (('os, 'm) sock_st_scheme, unit) M" where
  "sock_close sys strerror this fut =
     bindM (get_sock this) (\<lambda>P.
     bindM (get_prom (accept_promise P)) (\<lambda>R.
     thenM (tpf_assert ''listen_socket->accept_promise_.is_default_constructed_but_for_completions()'' (default_but_completions R))
     (bindM (deregister_and_close sys this) (\<lambda>errsv_expec.
      thenM (listen_socket_destroy sys strerror this)
      (future_of_value fut (VClosed errsv_expec))))))"

end
