(* ===== verification/Openers.thy ===== *)
theory Openers
  imports ListenSocket
begin

text \<open>
  Opening fifos and sockets: the functions \<open>open_fifo\<close> to \<open>open_listen_socket_helper\<close> of
  src/main.cpp. What the program takes from outside is in a record: the kernel, the C library's
  texts for errno and for the codes of \<open>getaddrinfo\<close>. The list that \<open>getaddrinfo\<close> allocates is its
  first address; freeing it is not modelled. A descriptor object that a function returns or gives
  up goes back to the caller.
\<close>

section \<open>The outside\<close>

record 'os env =
  sys :: "'os syscalls"
  strerror :: "int \<Rightarrow> string"
  gai_strerror :: "int \<Rightarrow> string"

section \<open>Fifos\<close>

definition open_fifo :: "'os env \<Rightarrow> string \<Rightarrow> u32 \<Rightarrow> (('os, 'm) pipe_st_scheme, message_error + addr) M" where
  "open_fifo E path oflag =
     bindM (syscall_retry (sys_open (sys E) path (or (or oflag O_NONBLOCK) O_CLOEXEC))) (\<lambda>res. case res of
       Inl e \<Rightarrow> ret (Inl (''Error opening file '' @ path @ '': '' @ strerror E e))
     | Inr fd \<Rightarrow> bindM (make_pipe_from_fifo (sys E) (strerror E) fd) (\<lambda>(r, fd').
         thenM (fd_destroy (sys E) fd') (ret r)))"

section \<open>Addresses and sockets\<close>

text \<open>\<open>getaddrinfo\<close> as a system call: an \<open>EAI_SYSTEM\<close> error gives its errno, which is retried when it
  is \<open>EINTR\<close>.\<close>

definition gai_call :: "'os env \<Rightarrow> string \<Rightarrow> ('os, int + sockaddr) syscall" where
  "gai_call E host k = (case sys_getaddrinfo (sys E) host k of
     (Inl (EaiSystem e), k') \<Rightarrow> (Inl e, k')
   | (Inl (EaiOther c), k') \<Rightarrow> (Inr (Inl c), k')
   | (Inr a, k') \<Rightarrow> (Inr (Inr a), k'))"

definition get_addr_info :: "'os env \<Rightarrow> string \<Rightarrow> u16 \<Rightarrow> (('n, 'os, 'm) os_state_scheme, message_error + sockaddr) M" where
  "get_addr_info E host port =
     bindM (syscall_retry (gai_call E host)) (\<lambda>res. case res of
       Inl e \<Rightarrow> ret (Inl (''Error calling getaddrinfo: '' @ strerror E e))
     | Inr (Inl c) \<Rightarrow> ret (Inl (''Error calling getaddrinfo: '' @ gai_strerror E c))
     | Inr (Inr a) \<Rightarrow> ret (Inr a))"

definition open_generic_stream_socket ::
  "'os env \<Rightarrow> string \<Rightarrow> u16 \<Rightarrow> u32 \<Rightarrow> (('n, 'os, 'm) os_state_scheme, message_error + sockaddr \<times> Fd) M" where
  "open_generic_stream_socket E host port extra_sock_flags =
     bindM (get_addr_info E host port) (\<lambda>addrinfo_expec. case addrinfo_expec of
       Inl msg \<Rightarrow> ret (Inl msg)
     | Inr addr \<Rightarrow>
         if sa_family addr \<noteq> AF_INET \<and> sa_family addr \<noteq> AF_INET6 then
           ret (Inl (''Unsupported socket family resolved: '' @ to_string (unat (sa_family addr))))
         else bindM (syscall_retry (sys_socket (sys E) (sa_family addr) (or SOCK_STREAM extra_sock_flags))) (\<lambda>res.
           case res of
             Inl e \<Rightarrow> ret (Inl (''Error opening tcp socket: '' @ strerror E e))
           | Inr fd_raw \<Rightarrow> ret (Inr (addr, fd_raw))))"

text \<open>Both helpers copy the address and set the port, after the same assertion on the family.\<close>

definition with_port :: "sockaddr \<Rightarrow> u16 \<Rightarrow> (('n, 'os, 'm) os_state_scheme, sockaddr) M" where
  "with_port addr port =
     (if sa_family addr = AF_INET then ret (addr\<lparr>sin_port := port\<rparr>)
      else thenM (tpf_assert ''family == AF_INET6'' (sa_family addr = AF_INET6))
        (ret (addr\<lparr>sin_port := port\<rparr>)))"

text \<open>Closing a descriptor whose call failed, with the message of the failure.\<close>

definition close_failed :: "'os env \<Rightarrow> Fd \<Rightarrow> message_error \<Rightarrow> (('n, 'os, 'm) os_state_scheme, message_error + 'a) M" where
  "close_failed E fd msg = bindM (fd_close (sys E) fd) (\<lambda>(r, fd'). thenM (fd_destroy (sys E) fd') (ret (Inl msg)))"

definition open_client_tcp_socket_helper ::
  "'os env \<Rightarrow> string \<Rightarrow> u16 \<Rightarrow> (('n, 'os, 'm) os_state_scheme, message_error + Fd) M" where
  "open_client_tcp_socket_helper E host port =
     bindM (open_generic_stream_socket E host port SOCK_CLOEXEC) (\<lambda>result_expec. case result_expec of
       Inl msg \<Rightarrow> ret (Inl msg)
     | Inr (addr, fd) \<Rightarrow>
         bindM (with_port addr port) (\<lambda>addr_inet.
         bindM (syscall_retry (sys_connect (sys E) fd addr_inet)) (\<lambda>res. case res of
           Inl e \<Rightarrow> close_failed E fd (''Error connecting tcp socket: '' @ strerror E e)
         | Inr _ \<Rightarrow>
             bindM (syscall (sys_getfl (sys E) fd)) (\<lambda>getfl.
             let fl = (case getfl of Inl _ \<Rightarrow> -1 | Inr fl \<Rightarrow> fl) in
             thenM (tpf_assert ''!(flags & O_NONBLOCK)'' (and fl O_NONBLOCK = 0))
             (bindM (syscall_retry (sys_setfl (sys E) fd (or fl O_NONBLOCK))) (\<lambda>res. case res of
                Inl e \<Rightarrow> close_failed E fd (''fcntl F_SETFL failed in open_client_tcp_socket_helper: '' @ strerror E e)
              | Inr _ \<Rightarrow> ret (Inr fd)))))))"

definition open_client_tcp_socket ::
  "'os env \<Rightarrow> string \<Rightarrow> u16 \<Rightarrow> (('os, 'm) pipe_st_scheme, message_error + addr) M" where
  "open_client_tcp_socket E host port =
     bindM (open_client_tcp_socket_helper E host port) (\<lambda>fd_expec. case fd_expec of
       Inl msg \<Rightarrow> ret (Inl msg)
     | Inr fd \<Rightarrow> bindM (make_pipe_from_sockfd (sys E) (strerror E) fd) (\<lambda>(r, fd').
         thenM (fd_destroy (sys E) fd') (ret r)))"

definition open_listen_socket_helper ::
  "'os env \<Rightarrow> string \<Rightarrow> u16 \<Rightarrow> int \<Rightarrow> (('n, 'os, 'm) os_state_scheme, message_error + Fd) M" where
  "open_listen_socket_helper E host port listen_backlog =
     bindM (open_generic_stream_socket E host port (or SOCK_CLOEXEC SOCK_NONBLOCK)) (\<lambda>result_expec.
     case result_expec of
       Inl msg \<Rightarrow> ret (Inl msg)
     | Inr (addr, fd) \<Rightarrow>
         bindM (with_port addr port) (\<lambda>addr_inet.
         bindM (syscall_retry (sys_bind (sys E) fd addr_inet)) (\<lambda>res. case res of
           Inl e \<Rightarrow> close_failed E fd (''binding connecting tcp socket: '' @ strerror E e)
         | Inr _ \<Rightarrow>
             bindM (syscall_retry (sys_listen (sys E) fd listen_backlog)) (\<lambda>res. case res of
               Inl e \<Rightarrow> close_failed E fd (''listening to tcp socket: '' @ strerror E e)
             | Inr _ \<Rightarrow> ret (Inr fd)))))"

end
