(* ===== verification/Echo.thy ===== *)
theory Echo
  imports Openers
begin

text \<open>
  The byte pump of src/main.cpp: \<open>write_all\<close>, the loop of \<open>echo_with_buf\<close> and the teardown of
  \<open>echo_on_pipe\<close> and \<open>echo_on_socket\<close>. A function that returns a future constructs it at its last
  argument. The body of a lambda is the definition named after its constructor of \<open>closure\<close>; it
  ends with the destructors of what the lambda captured and did not move on.
\<close>

section \<open>Buffers\<close>

text \<open>\<open>new char[n]\<close>, whose contents are indeterminate in the code, is zero here.\<close>

definition buf_new :: "nat \<Rightarrow> (('os, 'm) pipe_st_scheme, buf_data) M" where
  "buf_new n = bindM alloc (\<lambda>a.
     thenM (modM (\<lambda>s. s\<lparr>mem := (mem s)(a \<mapsto> replicate n 0)\<rparr>))
     (ret \<lparr>owned = a, buf_length = n\<rparr>))"

definition buf_destroy :: "buf_data \<Rightarrow> (('os, 'm) pipe_st_scheme, unit) M" where
  "buf_destroy b = modM (\<lambda>s. s\<lparr>mem := (mem s)(owned b := None)\<rparr>)"

definition with_future ::
  "(addr \<Rightarrow> (('os, 'm) pipe_st_scheme, unit) M) \<Rightarrow> (addr \<Rightarrow> (('os, 'm) pipe_st_scheme, unit) M)
     \<Rightarrow> (('os, 'm) pipe_st_scheme, unit) M" where
  "with_future produce consume = bindM alloc (\<lambda>f. thenM (produce f) (thenM (consume f) (future_destroy f)))"

section \<open>\<open>write_all\<close>\<close>

definition write_all_helper ::
  "'os env \<Rightarrow> ('os, 'm) pipe_st_scheme prog_hooks \<Rightarrow> nat \<Rightarrow> ctx_data \<Rightarrow> addr \<Rightarrow> ptr \<Rightarrow> nat \<Rightarrow> nat \<Rightarrow> addr
     \<Rightarrow> (('os, 'm) pipe_st_scheme, unit) M" where
  "write_all_helper E H n ctx pipe buf cnt written r =
     with_future
       (\<lambda>write_fut. with_future (pipe_write (sys E) H n pipe buf cnt)
          (\<lambda>fut. wait_interruptible H (ctx_interruptor ctx) fut write_fut))
       (\<lambda>write_fut. then_f H write_fut (KWritten ctx pipe buf cnt written) r)"

definition written_lambda ::
  "'os env \<Rightarrow> ('os, 'm) pipe_st_scheme prog_hooks \<Rightarrow> nat \<Rightarrow> ctx_data \<Rightarrow> addr \<Rightarrow> ptr \<Rightarrow> nat \<Rightarrow> nat \<Rightarrow> val \<Rightarrow> addr
     \<Rightarrow> (('os, 'm) pipe_st_scheme, unit) M" where
  "written_lambda E H n ctx pipe buf cnt written v r = (case v of
     VInterruptible (Inl ir) \<Rightarrow>
       future_of_value r (VWritten (Inl \<lparr>bytes_written = written, write_err = Inr ir\<rparr>))
   | VInterruptible (Inr (VCount (Inl e))) \<Rightarrow>
       future_of_value r (VWritten (Inl \<lparr>bytes_written = written, write_err = Inl e\<rparr>))
   | VInterruptible (Inr (VCount (Inr written_nbytes))) \<Rightarrow>
       thenM (tpf_assert ''written_nbytes <= count'' (written_nbytes \<le> cnt))
       (if written_nbytes = cnt then future_of_value r (VWritten (Inr ()))
        else write_all_helper E H n ctx pipe (fst buf, snd buf + written_nbytes) (cnt - written_nbytes)
               (written + written_nbytes) r)
   | _ \<Rightarrow> failM (BadCast ''write_all_helper''))"

definition write_all ::
  "'os env \<Rightarrow> ('os, 'm) pipe_st_scheme prog_hooks \<Rightarrow> nat \<Rightarrow> ctx_data \<Rightarrow> addr \<Rightarrow> ptr \<Rightarrow> nat \<Rightarrow> addr
     \<Rightarrow> (('os, 'm) pipe_st_scheme, unit) M" where
  "write_all E H n ctx pipe buf cnt r = write_all_helper E H n ctx pipe buf cnt 0 r"

section \<open>The echo loop\<close>

definition echo_with_buf ::
  "'os env \<Rightarrow> ('os, 'm) pipe_st_scheme prog_hooks \<Rightarrow> nat \<Rightarrow> ctx_data \<Rightarrow> buf_data \<Rightarrow> addr \<Rightarrow> addr \<Rightarrow> addr
     \<Rightarrow> (('os, 'm) pipe_st_scheme, unit) M" where
  "echo_with_buf E H n ctx buf in_pipe out_pipe r =
     with_future (pipe_read (sys E) H n in_pipe (owned buf, 0) (buf_length buf)) (\<lambda>read_fut.
     with_future (wait_any [ctx_interruptor ctx, read_fut]) (\<lambda>interrupt_fut.
     bindM alloc (\<lambda>captured.
     thenM (future_move captured read_fut)
     (then_f H interrupt_fut (KRead ctx buf in_pipe out_pipe captured) r))))"

definition read_lambda ::
  "'os env \<Rightarrow> ('os, 'm) pipe_st_scheme prog_hooks \<Rightarrow> nat \<Rightarrow> ctx_data \<Rightarrow> buf_data \<Rightarrow> addr \<Rightarrow> addr \<Rightarrow> addr \<Rightarrow> val \<Rightarrow> addr
     \<Rightarrow> (('os, 'm) pipe_st_scheme, unit) M" where
  "read_lambda E H n ctx buf in_pipe out_pipe read_fut v r = (case v of
     VIndex index \<Rightarrow>
       if index = 0 then
         thenM (future_cancel H n read_fut)
         (thenM (future_of_value r (VDone (Inl ''interrupted'')))
         (thenM (future_destroy read_fut) (buf_destroy buf)))
       else bindM (future_value read_fut) (\<lambda>nbytes. case nbytes of
         VCount (Inl e) \<Rightarrow>
           thenM (future_of_value r (VDone (Inl (make_msg (strerror E) e))))
           (thenM (future_destroy read_fut) (buf_destroy buf))
       | VCount (Inr nbytes_u) \<Rightarrow>
           if nbytes_u = 0 then
             thenM (future_of_value r (VDone (Inr ())))
             (thenM (future_destroy read_fut) (buf_destroy buf))
           else
             thenM (with_future (write_all E H n ctx out_pipe (owned buf, 0) nbytes_u)
               (\<lambda>write_fut. then_f H write_fut (KEchoed buf nbytes_u ctx in_pipe out_pipe) r))
             (future_destroy read_fut)
       | _ \<Rightarrow> failM (BadCast ''expected<ssize_t, read_error>''))
   | _ \<Rightarrow> failM (BadCast ''size_t''))"

definition echoed_lambda ::
  "'os env \<Rightarrow> ('os, 'm) pipe_st_scheme prog_hooks \<Rightarrow> nat \<Rightarrow> buf_data \<Rightarrow> nat \<Rightarrow> ctx_data \<Rightarrow> addr \<Rightarrow> addr \<Rightarrow> val \<Rightarrow> addr
     \<Rightarrow> (('os, 'm) pipe_st_scheme, unit) M" where
  "echoed_lambda E H n buf nbytes_u ctx in_pipe out_pipe v r = (case v of
     VWritten (Inl er) \<Rightarrow>
       thenM (case write_err er of
           Inr ir \<Rightarrow> future_of_value r (VDone (Inl ''interrupted''))
         | Inl e \<Rightarrow> future_of_value r (VDone (Inl (make_msg (strerror E) e))))
       (buf_destroy buf)
   | VWritten (Inr _) \<Rightarrow> echo_with_buf E H n ctx buf in_pipe out_pipe r
   | _ \<Rightarrow> failM (BadCast ''expected<void, write_all_error>''))"

section \<open>Teardown\<close>

definition TOY_BUF_SIZE :: nat where
  "TOY_BUF_SIZE = 128"

definition echo_on_pipe ::
  "'os env \<Rightarrow> ('os, 'm) pipe_st_scheme prog_hooks \<Rightarrow> nat \<Rightarrow> ctx_data \<Rightarrow> addr \<Rightarrow> addr \<Rightarrow> addr
     \<Rightarrow> (('os, 'm) pipe_st_scheme, unit) M" where
  "echo_on_pipe E H n ctx in_pipe out_pipe r =
     bindM (buf_new TOY_BUF_SIZE) (\<lambda>buf.
     with_future (echo_with_buf E H n ctx buf in_pipe out_pipe)
       (\<lambda>f. then_f H f (KClosePipes in_pipe out_pipe) r))"

definition close_pipes_lambda ::
  "'os env \<Rightarrow> ('os, 'm) pipe_st_scheme prog_hooks \<Rightarrow> addr \<Rightarrow> addr \<Rightarrow> val \<Rightarrow> addr \<Rightarrow> (('os, 'm) pipe_st_scheme, unit) M" where
  "close_pipes_lambda E H in_pipe out_pipe v r =
     with_future (pipe_close (sys E) (strerror E) in_pipe) (\<lambda>f. then_f H f (KCloseOut v out_pipe) r)"

definition close_out_lambda ::
  "'os env \<Rightarrow> ('os, 'm) pipe_st_scheme prog_hooks \<Rightarrow> val \<Rightarrow> addr \<Rightarrow> val \<Rightarrow> addr \<Rightarrow> (('os, 'm) pipe_st_scheme, unit) M" where
  "close_out_lambda E H v out_pipe errsv_expec r = (case errsv_expec of
     VClosed (Inl e) \<Rightarrow>
       thenM (future_of_value r (VDone (Inl (make_msg (strerror E) e))))
       (pipe_destroy (sys E) (strerror E) out_pipe)
   | VClosed (Inr _) \<Rightarrow>
       with_future (pipe_close (sys E) (strerror E) out_pipe) (\<lambda>f. then_f H f (KClosedPipe v) r)
   | _ \<Rightarrow> failM (BadCast ''expected<close_errsv, epoll_ctl_error>''))"

definition closed_pipe_lambda ::
  "'os env \<Rightarrow> val \<Rightarrow> val \<Rightarrow> addr \<Rightarrow> (('os, 'm) pipe_st_scheme, unit) M" where
  "closed_pipe_lambda E v errsv_expec r = (case errsv_expec of
     VClosed (Inl e) \<Rightarrow> future_of_value r (VDone (Inl (make_msg (strerror E) e)))
   | VClosed (Inr _) \<Rightarrow> future_of_value r v
   | _ \<Rightarrow> failM (BadCast ''expected<close_errsv, epoll_ctl_error>''))"

definition echo_on_socket ::
  "'os env \<Rightarrow> ('os, 'm) pipe_st_scheme prog_hooks \<Rightarrow> nat \<Rightarrow> ctx_data \<Rightarrow> addr \<Rightarrow> addr
     \<Rightarrow> (('os, 'm) pipe_st_scheme, unit) M" where
  "echo_on_socket E H n ctx bidir_pipe r =
     bindM (buf_new TOY_BUF_SIZE) (\<lambda>buf.
     with_future (echo_with_buf E H n ctx buf bidir_pipe bidir_pipe)
       (\<lambda>f. then_f H f (KCloseSocket bidir_pipe) r))"

definition close_socket_lambda ::
  "'os env \<Rightarrow> ('os, 'm) pipe_st_scheme prog_hooks \<Rightarrow> addr \<Rightarrow> val \<Rightarrow> addr \<Rightarrow> (('os, 'm) pipe_st_scheme, unit) M" where
  "close_socket_lambda E H bidir_pipe v r =
     with_future (pipe_close (sys E) (strerror E) bidir_pipe) (\<lambda>f. then_f H f (KClosedPipe v) r)"

end
