(* ===== verification/Program.thy ===== *)
theory Program
  imports Echo
begin

text \<open>
  The program of src/main.cpp: the accept loop, the three modes, the signal handling, the dispatch of
  events and closures, and \<open>main\<close>. The body of a lambda is the definition named after its
  constructor. A vector of futures or interruptors is the list of the addresses of its elements;
  the reallocation of a vector is not modelled. \<open>hooks\<close> ties the knot: closures that are called \<open>d\<close>
  deep run with the hooks of depth \<open>d - 1\<close>.
\<close>

section \<open>The accept loop\<close>

text \<open>\<open>make_interruptor_pair\<close>, whose result is constructed in place.\<close>

definition make_interruptor_pair :: "(('os, 'm) pipe_st_scheme, interruptor_pair) M" where
  "make_interruptor_pair =
     bindM alloc (\<lambda>p.
     thenM (prom_new DefaultCancellable p)
     (bindM alloc (\<lambda>f.
      thenM (future_of_promise f p)
      (ret \<lparr>ip_future = f, ip_promise = p\<rparr>))))"

definition accept_state_new :: accept_loop_state where
  "accept_state_new = \<lparr>wg_futs = [], wg_interruptors = []\<rparr>"

text \<open>\<open>AcceptLoopState::add\<close>: both arguments are moved into new elements.\<close>

definition wg_add :: "accept_loop_state \<Rightarrow> addr \<Rightarrow> interruptor_pair \<Rightarrow> (('os, 'm) pipe_st_scheme, accept_loop_state) M" where
  "wg_add wg fut ip =
     bindM alloc (\<lambda>f.
     thenM (future_move f fut)
     (bindM alloc (\<lambda>p.
      thenM (prom_move p (ip_promise ip))
      (ret \<lparr>wg_futs = wg_futs wg @ [f],
            wg_interruptors = wg_interruptors wg @ [\<lparr>ip_future = ip_future ip, ip_promise = p\<rparr>]\<rparr>))))"

text \<open>\<open>~AcceptLoopState\<close> and the destructors of its members.\<close>

definition wg_destroy ::
  "('os, 'm) pipe_st_scheme prog_hooks \<Rightarrow> nat \<Rightarrow> accept_loop_state \<Rightarrow> (('os, 'm) pipe_st_scheme, unit) M" where
  "wg_destroy H n wg =
     thenM (mapM (\<lambda>f. bindM (get_fut f) (\<lambda>F. tpf_assert ''!fut.is_active()'' (\<not> fut_is_active F))) (wg_futs wg))
     (thenM (mapM (\<lambda>ip. future_cancel H n (ip_future ip)) (wg_interruptors wg))
     (thenM (mapM (\<lambda>ip. thenM (prom_destroy (ip_promise ip)) (future_destroy (ip_future ip))) (wg_interruptors wg))
     (mapM future_destroy (wg_futs wg))))"

text \<open>The result is what the parameter \<open>wg\<close> is left with: it is not moved from when the work is done.\<close>

definition wait_for_all_to_complete ::
  "('os, 'm) pipe_st_scheme prog_hooks \<Rightarrow> ctx_data \<Rightarrow> accept_loop_state \<Rightarrow> wait_complete_state \<Rightarrow> addr
     \<Rightarrow> (('os, 'm) pipe_st_scheme, accept_loop_state) M" where
  "wait_for_all_to_complete H ctx wg state r =
     (if wait_i state = length (wg_futs wg) then
        thenM (future_of_value r (VDone (
            if wait_errors state = [] then Inr ()
            else Inl (''A number of errors:'' @ [CHR 0x0A] @ concat (map (\<lambda>m. m @ [CHR 0x0A]) (wait_errors state))))))
        (ret wg)
      else if length (wg_futs wg) \<le> wait_i state then failM (Thrown ''std::out_of_range'')
      else
        bindM alloc (\<lambda>fut.
        thenM (future_move fut (wg_futs wg ! wait_i state))
        (thenM (then_f H fut (KWaitAll ctx wg state) r)
        (thenM (future_destroy fut) (ret accept_state_new)))))"

definition wait_all_lambda ::
  "('os, 'm) pipe_st_scheme prog_hooks \<Rightarrow> nat \<Rightarrow> ctx_data \<Rightarrow> accept_loop_state \<Rightarrow> wait_complete_state \<Rightarrow> val \<Rightarrow> addr
     \<Rightarrow> (('os, 'm) pipe_st_scheme, unit) M" where
  "wait_all_lambda H n ctx wg state v r = (case v of
     VDone result \<Rightarrow>
       bindM (wait_for_all_to_complete H ctx wg
         \<lparr>wait_i = wait_i state + 1,
          wait_errors = (case result of Inl e \<Rightarrow> wait_errors state @ [e] | Inr _ \<Rightarrow> wait_errors state)\<rparr> r)
         (\<lambda>left. wg_destroy H n left)
   | _ \<Rightarrow> failM (BadCast ''expected<void, message_error>''))"

definition accept_loop ::
  "'os env \<Rightarrow> ('os, 'm) sock_st_scheme prog_hooks \<Rightarrow> nat \<Rightarrow> ctx_data \<Rightarrow> addr \<Rightarrow> accept_loop_state \<Rightarrow> addr
     \<Rightarrow> (('os, 'm) sock_st_scheme, unit) M" where
  "accept_loop E H n ctx listen_socket wg r =
     with_future
       (\<lambda>accept_fut. with_future (sock_accept (sys E) H n listen_socket)
          (\<lambda>fut. wait_interruptible H (ctx_interruptor ctx) fut accept_fut))
       (\<lambda>accept_fut. then_f H accept_fut (KAccepted ctx listen_socket wg) r)"

text \<open>The descriptor in the value is closed with the value when no pipe took it.\<close>

definition accepted_lambda ::
  "'os env \<Rightarrow> ('os, 'm) sock_st_scheme prog_hooks \<Rightarrow> nat \<Rightarrow> ctx_data \<Rightarrow> addr \<Rightarrow> accept_loop_state \<Rightarrow> val \<Rightarrow> addr
     \<Rightarrow> (('os, 'm) sock_st_scheme, unit) M" where
  "accepted_lambda E H n ctx listen_socket wg v r = (case v of
     VInterruptible (Inl _) \<Rightarrow>
       bindM (wait_for_all_to_complete H ctx wg \<lparr>wait_i = 0, wait_errors = []\<rparr> r) (\<lambda>left.
       thenM (wg_destroy H n left) (listen_socket_destroy (sys E) (strerror E) listen_socket))
   | VInterruptible (Inr (VSocket (Inl e))) \<Rightarrow>
       bindM alloc (\<lambda>f.
       bindM (wait_for_all_to_complete H ctx wg \<lparr>wait_i = 0, wait_errors = []\<rparr> f) (\<lambda>left.
       thenM (then_f H f (KAcceptFailed e) r)
       (thenM (future_destroy f)
       (thenM (wg_destroy H n left) (listen_socket_destroy (sys E) (strerror E) listen_socket)))))
   | VInterruptible (Inr (VSocket (Inr fd))) \<Rightarrow>
       bindM (make_pipe_from_sockfd (sys E) (strerror E) fd) (\<lambda>(pipe_expec, fd').
       thenM (case pipe_expec of
         Inl msg \<Rightarrow>
           thenM (future_of_value r (VDone (Inl msg)))
           (thenM (wg_destroy H n wg) (listen_socket_destroy (sys E) (strerror E) listen_socket))
       | Inr pipe \<Rightarrow>
           bindM make_interruptor_pair (\<lambda>ip.
           bindM (completions_empty (ip_promise ip)) (\<lambda>e1.
           thenM (tpf_assert ''interruptor.promise.completions_empty()'' e1)
           (with_future (echo_on_socket E H n \<lparr>ctx_interruptor = ip_future ip\<rparr> pipe) (\<lambda>echo_fut.
            bindM (wg_add wg echo_fut ip) (\<lambda>wg'.
            bindM (completions_empty (ip_promise ip)) (\<lambda>e2.
            thenM (tpf_assert ''interruptor.promise.completions_empty()'' e2)
            (thenM (accept_loop E H n ctx listen_socket wg' r)
            (prom_destroy (ip_promise ip)))))))))
       )
       (fd_destroy (sys E) fd'))
   | _ \<Rightarrow> failM (BadCast ''accept_loop''))"

definition accept_failed_lambda :: "'os env \<Rightarrow> accept_error \<Rightarrow> addr \<Rightarrow> (('os, 'm) sock_st_scheme, unit) M" where
  "accept_failed_lambda E error r = future_of_value r (VDone (Inl (make_msg (strerror E) error)))"

section \<open>The three modes\<close>

definition go_with_listen_socket ::
  "'os env \<Rightarrow> ('os, 'm) sock_st_scheme prog_hooks \<Rightarrow> nat \<Rightarrow> ctx_data \<Rightarrow> SocketModeOptions \<Rightarrow> addr
     \<Rightarrow> (('os, 'm) sock_st_scheme, unit) M" where
  "go_with_listen_socket E H n ctx socket_opts r =
     bindM (open_listen_socket_helper E ''localhost'' (listen_port socket_opts) 1000000) (\<lambda>socket_expec.
     case socket_expec of
       Inl msg \<Rightarrow> future_of_value r (VDone (Inl msg))
     | Inr fd \<Rightarrow>
         bindM (listen_socket_new (sys E) (strerror E) fd) (\<lambda>listen_socket.
         accept_loop E H n ctx listen_socket accept_state_new r))"

definition go ::
  "'os env \<Rightarrow> ('os, 'm) sock_st_scheme prog_hooks \<Rightarrow> nat \<Rightarrow> ctx_data \<Rightarrow> Options \<Rightarrow> addr
     \<Rightarrow> (('os, 'm) sock_st_scheme, unit) M" where
  "go E H n ctx opts r = (case fifo_mode opts of
     Some fifo_opts \<Rightarrow>
       bindM (open_fifo E (in_fifo_path fifo_opts) O_RDONLY) (\<lambda>in_pipe_expec. case in_pipe_expec of
         Inl msg \<Rightarrow> future_of_value r (VDone (Inl msg))
       | Inr in_pipe \<Rightarrow>
           bindM (open_fifo E (out_fifo_path fifo_opts) O_WRONLY) (\<lambda>out_pipe_expec. case out_pipe_expec of
             Inl msg \<Rightarrow>
               thenM (future_of_value r (VDone (Inl msg))) (pipe_destroy (sys E) (strerror E) in_pipe)
           | Inr out_pipe \<Rightarrow>
               with_future (echo_on_pipe E H n ctx in_pipe out_pipe) (\<lambda>f. then_f H f KEchoDone r)))
   | None \<Rightarrow> (case socket_mode opts of
       Some socket_opts \<Rightarrow> go_with_listen_socket E H n ctx socket_opts r
     | None \<Rightarrow>
         thenM (tpf_assert ''opts.client_socket_mode.has_value()'' (client_socket_mode opts \<noteq> None))
         (bindM (deref ''client_socket_mode'' (client_socket_mode opts)) (\<lambda>client_opts.
          bindM (open_client_tcp_socket E (hostname client_opts) (portno client_opts)) (\<lambda>client_pipe_expec.
          case client_pipe_expec of
            Inl msg \<Rightarrow> future_of_value r (VDone (Inl msg))
          | Inr pipe \<Rightarrow> with_future (echo_on_socket E H n ctx pipe) (\<lambda>f. then_f H f KEchoDone r))))))"

section \<open>Signals and the end of the program\<close>

definition get_interrupt_future ::
  "'os env \<Rightarrow> ('os, 'm) sock_st_scheme prog_hooks \<Rightarrow> nat \<Rightarrow> addr \<Rightarrow> addr \<Rightarrow> (('os, 'm) sock_st_scheme, unit) M" where
  "get_interrupt_future E H n signal_fd r =
     with_future (sig_read (sys E) H n signal_fd) (\<lambda>f. cancellable_then_f H f (KSignalled signal_fd) r)"

definition signalled_lambda ::
  "'os env \<Rightarrow> ('os, 'm) sock_st_scheme prog_hooks \<Rightarrow> nat \<Rightarrow> addr \<Rightarrow> val \<Rightarrow> addr \<Rightarrow> (('os, 'm) sock_st_scheme, unit) M" where
  "signalled_lambda E H n signal_fd v r = (case v of
     VSignal (Inl e) \<Rightarrow> future_of_value r (VInterrupt (Inl e))
   | VSignal (Inr signo) \<Rightarrow>
       if signo = SIGINT \<or> signo = SIGTERM then future_of_value r (VInterrupt (Inr ()))
       else get_interrupt_future E H n signal_fd r
   | _ \<Rightarrow> failM (BadCast ''expected<uint32_t, read_error>''))"

text \<open>The lambda that \<open>finally\<close> gives to \<open>then\<close>, with the body of main's \<open>cb\<close>: the interruptor is
  cancelled, the signal descriptor closed, and the value passed on.\<close>

definition finally_lambda ::
  "'os env \<Rightarrow> ('os, 'm) sock_st_scheme prog_hooks \<Rightarrow> nat \<Rightarrow> addr \<Rightarrow> addr \<Rightarrow> val \<Rightarrow> addr \<Rightarrow> (('os, 'm) sock_st_scheme, unit) M" where
  "finally_lambda E H n signal_fd interruptor v r =
     thenM (future_cancel H n interruptor)
     (thenM (with_future
        (\<lambda>u. with_future (sig_close (sys E) (strerror E) signal_fd) (\<lambda>f. then_f H f KSignalFdClosed u))
        (\<lambda>u. then_f H u (KFinallyValue v) r))
     (future_destroy interruptor))"

text \<open>The lambda that \<open>main\<close> schedules.\<close>

definition start_action ::
  "'os env \<Rightarrow> ('os, 'm) sock_st_scheme prog_hooks \<Rightarrow> nat \<Rightarrow> addr \<Rightarrow> Options \<Rightarrow> (('os, 'm) sock_st_scheme, unit) M" where
  "start_action E H n signal_fd opts =
     with_future (get_interrupt_future E H n signal_fd) (\<lambda>flat.
     bindM alloc (\<lambda>interruptor.
     thenM (future_move interruptor flat)
     (with_future
        (\<lambda>fin. with_future (go E H n \<lparr>ctx_interruptor = interruptor\<rparr> opts)
           (\<lambda>g. then_f H g (KFinally signal_fd interruptor) fin))
        (\<lambda>fin. wait_with_callback H fin KFinished))))"

section \<open>Dispatch\<close>

definition run_closure ::
  "'os env \<Rightarrow> ('os, 'm) sock_st_scheme prog_hooks \<Rightarrow> nat \<Rightarrow> closure \<Rightarrow> val \<Rightarrow> addr \<Rightarrow> (('os, 'm) sock_st_scheme, unit) M" where
  "run_closure E H n u v r = (case u of
     KInterruptible interruptor fut \<Rightarrow> (case v of
         VIndex i \<Rightarrow> interruptible_lambda (sys E) H n interruptor fut i r
       | _ \<Rightarrow> failM (BadCast ''size_t''))
   | KWritten ctx pipe buf cnt written \<Rightarrow> written_lambda E H n ctx pipe buf cnt written v r
   | KRead ctx buf in_pipe out_pipe read_fut \<Rightarrow> read_lambda E H n ctx buf in_pipe out_pipe read_fut v r
   | KEchoed buf k ctx in_pipe out_pipe \<Rightarrow> echoed_lambda E H n buf k ctx in_pipe out_pipe v r
   | KClosePipes in_pipe out_pipe \<Rightarrow> close_pipes_lambda E H in_pipe out_pipe v r
   | KCloseOut w out_pipe \<Rightarrow> close_out_lambda E H w out_pipe v r
   | KClosedPipe w \<Rightarrow> closed_pipe_lambda E w v r
   | KCloseSocket pipe \<Rightarrow> close_socket_lambda E H pipe v r
   | KWaitAll ctx wg state \<Rightarrow> wait_all_lambda H n ctx wg state v r
   | KAccepted ctx listen_socket wg \<Rightarrow> accepted_lambda E H n ctx listen_socket wg v r
   | KAcceptFailed e \<Rightarrow> accept_failed_lambda E e r
   | KEchoDone \<Rightarrow> future_of_value r v
   | KSignalled signal_fd \<Rightarrow> signalled_lambda E H n signal_fd v r
   | KFinally signal_fd interruptor \<Rightarrow> finally_lambda E H n signal_fd interruptor v r
   | KFinallyValue w \<Rightarrow> future_of_value r w
   | KSignalFdClosed \<Rightarrow> future_of_value r VUnit
   | KFinished \<Rightarrow> failM (BadCast ''move_only_function'')
   | KStart signal_fd opts \<Rightarrow> failM (BadCast ''move_only_function''))"

text \<open>Closures without a result: main's last callback only prints.\<close>

definition run_callback :: "closure \<Rightarrow> val \<Rightarrow> (('os, 'm) sock_st_scheme, unit) M" where
  "run_callback u v = (case u of KFinished \<Rightarrow> ret () | _ \<Rightarrow> failM (BadCast ''move_only_function''))"

text \<open>The destructors of the captures of a closure that was never called.\<close>

definition drop_closure ::
  "'os env \<Rightarrow> ('os, 'm) sock_st_scheme prog_hooks \<Rightarrow> nat \<Rightarrow> closure \<Rightarrow> (('os, 'm) sock_st_scheme, unit) M" where
  "drop_closure E H n u = (case u of
     KInterruptible interruptor fut \<Rightarrow>
       bindM (get_fut fut) (\<lambda>F. thenM (future_destroy fut) (drop_value (sys E) (fut_value F)))
   | KRead ctx buf in_pipe out_pipe read_fut \<Rightarrow> thenM (future_destroy read_fut) (buf_destroy buf)
   | KEchoed buf k ctx in_pipe out_pipe \<Rightarrow> buf_destroy buf
   | KClosePipes in_pipe out_pipe \<Rightarrow>
       thenM (pipe_destroy (sys E) (strerror E) out_pipe) (pipe_destroy (sys E) (strerror E) in_pipe)
   | KCloseOut w out_pipe \<Rightarrow> pipe_destroy (sys E) (strerror E) out_pipe
   | KCloseSocket pipe \<Rightarrow> pipe_destroy (sys E) (strerror E) pipe
   | KWaitAll ctx wg state \<Rightarrow> wg_destroy H n wg
   | KAccepted ctx listen_socket wg \<Rightarrow>
       thenM (wg_destroy H n wg) (listen_socket_destroy (sys E) (strerror E) listen_socket)
   | KFinally signal_fd interruptor \<Rightarrow>
       thenM (future_destroy interruptor) (signal_fd_destroy (sys E) (strerror E) signal_fd)
   | KStart signal_fd opts \<Rightarrow> signal_fd_destroy (sys E) (strerror E) signal_fd
   | _ \<Rightarrow> ret ())"

primrec hooks :: "'os env \<Rightarrow> nat \<Rightarrow> ('os, 'm) sock_st_scheme prog_hooks" where
  "hooks E 0 = \<lparr>run_fn = (\<lambda>u v r. failM OutOfFuel), run_cb = (\<lambda>u v. failM OutOfFuel),
     drop_fn = (\<lambda>u. failM OutOfFuel), completed = (\<lambda>w. failM OutOfFuel), cancel_other = (\<lambda>k p. failM OutOfFuel)\<rparr>"
| "hooks E (Suc d) = \<lparr>run_fn = run_closure E (hooks E d) (Suc d), run_cb = run_callback,
     drop_fn = drop_closure E (hooks E d) (Suc d), completed = future_completed (hooks E d) (Suc d),
     cancel_other = pipe_promise_cancel\<rparr>"

definition on_update ::
  "'os env \<Rightarrow> ('os, 'm) sock_st_scheme prog_hooks \<Rightarrow> nat \<Rightarrow> addr \<Rightarrow> u32 \<Rightarrow> (('os, 'm) sock_st_scheme, unit) M" where
  "on_update E H n this events =
     bindM (getM (\<lambda>s. (pipes s this \<noteq> None, signal_fds s this \<noteq> None))) (\<lambda>(is_pipe, is_signal_fd).
     if is_pipe then pipe_on_update (sys E) H n this events
     else if is_signal_fd then sig_on_update (sys E) H n this events
     else sock_on_update (sys E) H n this events)"

definition run_action ::
  "'os env \<Rightarrow> ('os, 'm) sock_st_scheme prog_hooks \<Rightarrow> nat \<Rightarrow> (closure, val) action \<Rightarrow> (('os, 'm) sock_st_scheme, unit) M" where
  "run_action E H n ac = (case ac of
     Deferred u v \<Rightarrow> run_cb H u v
   | Task u \<Rightarrow> (case u of
       KStart signal_fd opts \<Rightarrow> start_action E H n signal_fd opts
     | _ \<Rightarrow> failM (BadCast ''move_only_function'')))"

section \<open>\<open>main\<close>\<close>

text \<open>The loop of \<open>main\<close>: the fuel \<open>k\<close> bounds its steps. The result is the exit status.\<close>

primrec main_loop ::
  "'os env \<Rightarrow> ('os, 'm) sock_st_scheme prog_hooks \<Rightarrow> nat \<Rightarrow> nat \<Rightarrow> (('os, 'm) sock_st_scheme, int) M" where
  "main_loop E H n 0 = failM OutOfFuel"
| "main_loop E H n (Suc k) = bindM has_stuff_to_do (\<lambda>b.
     if \<not> b then ret 0
     else bindM (full_step (sys E) (on_update E H n) (run_action E H n)) (\<lambda>result.
       case result of Inl e \<Rightarrow> ret 1 | Inr _ \<Rightarrow> main_loop E H n k))"

text \<open>The members of the one \<open>Loop\<close> are in the state. They are destroyed in the reverse of their order:
  the actions that never ran, then the descriptor.\<close>

definition loop_init :: "int \<Rightarrow> (('os, 'm) sock_st_scheme, unit) M" where
  "loop_init fd = modM (\<lambda>s. s\<lparr>epoll_fd := fd, mid_step := False, registrants := [],
     enqueued_actions := [], spare_actions_buf := []\<rparr>)"

definition drop_action ::
  "'os env \<Rightarrow> ('os, 'm) sock_st_scheme prog_hooks \<Rightarrow> nat \<Rightarrow> (closure, val) action \<Rightarrow> (('os, 'm) sock_st_scheme, unit) M" where
  "drop_action E H n ac = (case ac of Deferred u v \<Rightarrow> drop_closure E H n u | Task u \<Rightarrow> drop_closure E H n u)"

definition loop_destroy ::
  "'os env \<Rightarrow> ('os, 'm) sock_st_scheme prog_hooks \<Rightarrow> nat \<Rightarrow> (('os, 'm) sock_st_scheme, unit) M" where
  "loop_destroy E H n =
     bindM (getM spare_actions_buf) (\<lambda>spare.
     thenM (mapM (\<lambda>ac. case ac of None \<Rightarrow> ret () | Some ac \<Rightarrow> drop_action E H n ac) spare)
     (bindM (getM enqueued_actions) (\<lambda>enqueued.
      thenM (mapM (drop_action E H n) enqueued)
      (thenM (modM (\<lambda>s. s\<lparr>registrants := [], enqueued_actions := [], spare_actions_buf := []\<rparr>))
      (bindM (getM epoll_fd) (\<lambda>fd.
       thenM (fd_destroy (sys E) fd) (modM (\<lambda>s. s\<lparr>epoll_fd := -1\<rparr>))))))))"

definition main_body ::
  "'os env \<Rightarrow> nat \<Rightarrow> nat \<Rightarrow> Options \<Rightarrow> (('os, 'm) sock_st_scheme, int) M" where
  "main_body E d k opts =
     bindM (guard_new (sys E) (strerror E) sigint_sigterm_sigset) (\<lambda>g.
     bindM (make_signalfd (sys E) g) (\<lambda>sigfd.
     bindM (case sigfd of
         Inl e \<Rightarrow> ret 1
       | Inr sfd \<Rightarrow> bindM (make_epoll_fd (sys E)) (\<lambda>fd_expec. case fd_expec of
           Inl e \<Rightarrow> ret 1
         | Inr fd \<Rightarrow>
             thenM (loop_init fd)
             (bindM (signal_fd_new (sys E) (strerror E) sfd) (\<lambda>signal_fd.
              thenM (schedule (Task (KStart signal_fd opts)))
              (bindM (main_loop E (hooks E d) d k) (\<lambda>status.
               thenM (loop_destroy E (hooks E d) d) (ret status)))))))
       (\<lambda>status. thenM (guard_destroy (sys E) (strerror E) g) (ret status))))"

definition main :: "'os env \<Rightarrow> nat \<Rightarrow> nat \<Rightarrow> string list \<Rightarrow> (('os, 'm) sock_st_scheme, int) M" where
  "main E d k argv = (case parse_command_line argv of
     Inl msg \<Rightarrow> ret 2
   | Inr opts \<Rightarrow>
       if show_help opts then ret 0
       else thenM (tpf_assert ''argc > 0'' (argv \<noteq> [])) (main_body E d k opts))"

end
