(* ===== verification/Endpoint.thy ===== *)
theory Endpoint
  imports WaitAny
begin

text \<open>
  The contract that pipes, sockets and the signal descriptor share: one operation at a time may be
  pending on a descriptor that is registered edge-triggered, and a flag says whether the operation is
  worth trying. The kernel announces that the descriptor has become usable once, by an event; an
  object that waits for an announcement which was made already waits for ever. The locale has the
  laws that the four implementations keep (reading and writing of a pipe, accepting, reading of
  signals) and the invariant that follows from them for any order of requests, cancellations, events
  and changes of the kernel.
\<close>

section \<open>Runs\<close>

text \<open>An endpoint of an object in a state \<open>'s\<close> on a kernel \<open>'os\<close>: \<open>ep_request\<close> allocates a future and
  asks for the operation, \<open>ep_event\<close> is \<open>on_update\<close> with the bits that concern the operation,
  \<open>ep_cancel\<close> cancels the future, \<open>ep_arrive\<close> replaces the kernel's state; \<open>ep_pending\<close> is the future
  that waits.\<close>

record ('s, 'os) endpoint =
  ep_request :: "('s, addr) M"
  ep_event :: "('s, unit) M"
  ep_cancel :: "addr \<Rightarrow> ('s, unit) M"
  ep_arrive :: "'os \<Rightarrow> 's \<Rightarrow> 's"
  ep_ready :: "'s \<Rightarrow> bool"
  ep_pending :: "'s \<Rightarrow> addr option"

datatype 'os wake_op = Request | Event | Cancel | Arrive 'os

text \<open>The second component says that an event is on its way: the kernel owes one when the descriptor
  goes from \<open>stalled\<close> (nothing to be had, or the last call failed) to usable. Events that nobody owes
  may be delivered too. A request while another is pending and a cancellation of nothing are not
  made.\<close>

definition wake_allowed :: "('s, 'os, 'm) endpoint_scheme \<Rightarrow> 'os wake_op \<Rightarrow> 's \<Rightarrow> bool" where
  "wake_allowed A x s \<longleftrightarrow> (case x of Request \<Rightarrow> ep_pending A s = None | Cancel \<Rightarrow> ep_pending A s \<noteq> None | _ \<Rightarrow> True)"

definition wake_step ::
  "('s, 'os, 'm) endpoint_scheme \<Rightarrow> ('s \<Rightarrow> bool) \<Rightarrow> 'os wake_op \<Rightarrow> 's \<times> bool \<Rightarrow> fault + 's \<times> bool" where
  "wake_step A stalled x = (\<lambda>(s, owed). case x of
     Request \<Rightarrow> (case ep_request A s of Inl e \<Rightarrow> Inl e | Inr (_, s') \<Rightarrow> Inr (s', owed))
   | Event \<Rightarrow> (case ep_event A s of Inl e \<Rightarrow> Inl e | Inr (_, s') \<Rightarrow> Inr (s', False))
   | Cancel \<Rightarrow> (case ep_cancel A (the (ep_pending A s)) s of Inl e \<Rightarrow> Inl e | Inr (_, s') \<Rightarrow> Inr (s', owed))
   | Arrive k \<Rightarrow> (let s' = ep_arrive A k s in Inr (s', owed \<or> stalled s \<and> \<not> stalled s')))"

fun wake_run ::
  "('s, 'os, 'm) endpoint_scheme \<Rightarrow> ('s \<Rightarrow> bool) \<Rightarrow> 'os wake_op list \<Rightarrow> 's \<times> bool \<Rightarrow> fault + 's \<times> bool" where
  "wake_run A stalled [] st = Inr st"
| "wake_run A stalled (x # xs) st =
     (if wake_allowed A x (fst st) then
        (case wake_step A stalled x st of Inl e \<Rightarrow> Inl e | Inr st' \<Rightarrow> wake_run A stalled xs st')
      else wake_run A stalled xs st)"

section \<open>The contract\<close>

locale endpoint_laws =
  fixes A :: "('s, 'os, 'm) endpoint_scheme" and stalled :: "'s \<Rightarrow> bool" and good :: "'s \<Rightarrow> bool"
  assumes request: "good s \<Longrightarrow> ep_pending A s = None \<Longrightarrow> \<exists>f s'. ep_request A s = Inr (f, s') \<and> good s'
      \<and> (if ep_ready A s then ep_ready A s' \<or> stalled s' else \<not> ep_ready A s' \<and> (stalled s \<longrightarrow> stalled s'))
      \<and> (ep_pending A s' = None \<or> ep_pending A s' = Some f \<and> \<not> ep_ready A s')"
    and event: "good s \<Longrightarrow> (ep_pending A s \<noteq> None \<longrightarrow> \<not> ep_ready A s) \<Longrightarrow> \<exists>s'. ep_event A s = Inr ((), s') \<and> good s'
      \<and> (ep_ready A s' \<or> stalled s')
      \<and> (ep_pending A s' = None \<or> ep_pending A s' = ep_pending A s \<and> \<not> ep_ready A s')"
    and cancel: "good s \<Longrightarrow> ep_pending A s = Some f \<Longrightarrow> \<exists>s'. ep_cancel A f s = Inr ((), s') \<and> good s'
      \<and> ep_ready A s' = ep_ready A s \<and> stalled s' = stalled s \<and> ep_pending A s' = None"
    and arrive: "good s \<Longrightarrow> good (ep_arrive A k s) \<and> ep_ready A (ep_arrive A k s) = ep_ready A s
      \<and> ep_pending A (ep_arrive A k s) = ep_pending A s"
begin

definition wake_inv :: "'s \<times> bool \<Rightarrow> bool" where
  "wake_inv st \<longleftrightarrow> good (fst st) \<and> (ep_pending A (fst st) \<noteq> None \<longrightarrow> \<not> ep_ready A (fst st))
     \<and> (ep_ready A (fst st) \<or> stalled (fst st) \<or> snd st)"

lemma wake_step_inv:
  assumes inv: "wake_inv (s, owed)" and ok: "wake_allowed A x s"
  shows "\<exists>st'. wake_step A stalled x (s, owed) = Inr st' \<and> wake_inv st'"
proof (cases x)
  case Request
  then have "ep_pending A s = None" using ok by (simp add: wake_allowed_def)
  with request [of s] inv obtain f s' where s': "ep_request A s = Inr (f, s')" "good s'"
    "if ep_ready A s then ep_ready A s' \<or> stalled s' else \<not> ep_ready A s' \<and> (stalled s \<longrightarrow> stalled s')"
    "ep_pending A s' = None \<or> ep_pending A s' = Some f \<and> \<not> ep_ready A s'" by (auto simp: wake_inv_def)
  with inv Request show ?thesis by (auto simp: wake_step_def wake_inv_def split: if_splits)
next
  case Event
  with event [of s] inv obtain s' where "ep_event A s = Inr ((), s')" "good s'" "ep_ready A s' \<or> stalled s'"
    "ep_pending A s' = None \<or> ep_pending A s' = ep_pending A s \<and> \<not> ep_ready A s'" by (auto simp: wake_inv_def)
  with Event show ?thesis by (auto simp: wake_step_def wake_inv_def)
next
  case Cancel
  then obtain f where "ep_pending A s = Some f" using ok by (auto simp: wake_allowed_def)
  with cancel [of s f] inv Cancel show ?thesis by (auto simp: wake_step_def wake_inv_def)
next
  case (Arrive k)
  with arrive [of s k] inv show ?thesis by (auto simp: wake_step_def wake_inv_def Let_def)
qed

text \<open>No run faults, and an operation that still waits although the descriptor is usable is owed an
  event.\<close>

lemma wake_run_inv: "wake_inv st \<Longrightarrow> \<exists>st'. wake_run A stalled xs st = Inr st' \<and> wake_inv st'"
proof (induction xs arbitrary: st)
  case (Cons x xs)
  obtain s owed where st: "st = (s, owed)" by (cases st)
  show ?case
  proof (cases "wake_allowed A x s")
    case True
    with wake_step_inv [of s owed x] Cons.prems st obtain st' where
      "wake_step A stalled x (s, owed) = Inr st'" "wake_inv st'" by auto
    with Cons.IH [of st'] True st show ?thesis by simp
  next
    case False
    with Cons st show ?thesis by simp
  qed
qed simp

lemma no_lost_wakeup:
  assumes "good s" and "ep_ready A s" and "ep_pending A s = None"
  shows "\<exists>s' owed. wake_run A stalled xs (s, False) = Inr (s', owed)
     \<and> (ep_pending A s' \<noteq> None \<longrightarrow> \<not> ep_ready A s')
     \<and> (ep_pending A s' \<noteq> None \<longrightarrow> \<not> stalled s' \<longrightarrow> owed)
     \<and> (\<exists>s''. ep_event A s' = Inr ((), s'') \<and> (ep_pending A s'' = None \<or> ep_pending A s'' = ep_pending A s' \<and> stalled s''))"
proof -
  have "wake_inv (s, False)" using assms by (simp add: wake_inv_def)
  from wake_run_inv [OF this, of xs] obtain s' owed where
    r: "wake_run A stalled xs (s, False) = Inr (s', owed)" and i: "wake_inv (s', owed)" by auto
  from i event [of s'] obtain s'' where "ep_event A s' = Inr ((), s'')" "ep_ready A s'' \<or> stalled s''"
    "ep_pending A s'' = None \<or> ep_pending A s'' = ep_pending A s' \<and> \<not> ep_ready A s''" by (auto simp: wake_inv_def)
  with r i show ?thesis by (auto simp: wake_inv_def)
qed

end

section \<open>A promise and its future\<close>

text \<open>The promise of an endpoint: without a callback and without waiters, paired with the future that
  waits, if any.\<close>

definition op_promise :: "('os, 'm) prog \<Rightarrow> addr \<Rightarrow> addr option \<Rightarrow> bool" where
  "op_promise s p pend \<longleftrightarrow> quiet s p \<and> (\<exists>P. promises s p = Some P \<and> attached_callback P = None \<and> matching_future P = pend)
     \<and> (\<forall>f. pend = Some f \<longrightarrow> futures s f = Some (pending_future p))"

lemma op_promise_linked: "op_promise s p (Some f) \<Longrightarrow> \<exists>P. linked s f p P"
  by (auto simp: op_promise_def linked_def quiet_def)

definition waiting_for :: "('os, 'm) prog \<Rightarrow> addr \<Rightarrow> addr option" where
  "waiting_for s p = (case promises s p of None \<Rightarrow> None | Some P \<Rightarrow> matching_future P)"

lemma op_promise_waiting_for: "op_promise s p pend \<Longrightarrow> waiting_for s p = pend"
  by (auto simp: op_promise_def waiting_for_def)

text \<open>The state after the value \<open>v\<close> was supplied to a pending operation, and after one was started.\<close>

definition supplied :: "addr \<Rightarrow> addr \<Rightarrow> val \<Rightarrow> ('os, 'm) prog \<Rightarrow> ('os, 'm) prog" where
  "supplied f p v s = s\<lparr>futures := (futures s)(f \<mapsto> ready_future v),
     promises := (promises s)(p := map_option cleared (promises s p)), next_addr := Suc (next_addr s)\<rparr>"

definition started :: "addr \<Rightarrow> addr \<Rightarrow> ('os, 'm) prog \<Rightarrow> ('os, 'm) prog" where
  "started f p s = s\<lparr>futures := (futures s)(f \<mapsto> pending_future p),
     promises := (promises s)(p := map_option (matching_future_update (\<lambda>_. Some f)) (promises s p))\<rparr>"

lemma supply_op:
  assumes "op_promise s p (Some f)" and "fresh_ok s" and "2 \<le> n"
  shows "supply_value_and_detach H n p v s = Inr ((), supplied f p v s)"
proof -
  obtain m where n: "n = Suc m" "0 < m" using assms(3) by (cases n) auto
  from assms(1) obtain P where "promises s p = Some P" "matching_future P = Some f" "attached_callback P = None"
    "futures s f = Some (pending_future p)" "quiet s p" by (auto simp: op_promise_def)
  with supply_paired [of s p P f m H v] assms(2) n show ?thesis by (simp add: supplied_def del: supply_value_and_detach.simps)
qed

lemma start_op: "op_promise s p None \<Longrightarrow> future_of_promise f p s = Inr ((), started f p s)"
  by (auto simp: op_promise_def future_of_promise_def started_def)

lemma op_promise_supplied [simp]: "op_promise s p (Some f) \<Longrightarrow> op_promise (supplied f p v s) p None"
  by (auto simp: op_promise_def supplied_def cleared_def quiet_def)

lemma op_promise_started [simp]: "op_promise s p None \<Longrightarrow> op_promise (started f p s) p (Some f)"
  by (auto simp: op_promise_def started_def quiet_def)

lemma op_promise_cong:
  "promises s' = promises s \<Longrightarrow> futures s' = futures s \<Longrightarrow> lnodes s' = lnodes s \<Longrightarrow> op_promise s' p pend = op_promise s p pend"
  by (simp add: op_promise_def quiet_def)

lemma fresh_ok_cong:
  "promises s' = promises s \<Longrightarrow> futures s' = futures s \<Longrightarrow> lnodes s' = lnodes s \<Longrightarrow> next_addr s' = next_addr s
   \<Longrightarrow> fresh_ok s' = fresh_ok s"
  by (simp add: fresh_ok_def unused_def)

lemma supplied_fields [simp]:
  "reg_fd (supplied f p v s) = reg_fd s" "os (supplied f p v s) = os s"
  "map_option pclass (promises (supplied f p v s) q) = map_option pclass (promises s q)"
  by (auto simp: supplied_def cleared_def option.map_comp comp_def intro!: option.map_cong)

lemma started_fields [simp]:
  "reg_fd (started f p s) = reg_fd s" "os (started f p s) = os s"
  "map_option pclass (promises (started f p s) q) = map_option pclass (promises s q)"
  by (auto simp: started_def option.map_comp comp_def intro!: option.map_cong)

lemma op_promise_other:
  "op_promise s q pend \<Longrightarrow> p \<noteq> q \<Longrightarrow> pend \<noteq> Some f \<Longrightarrow> op_promise (supplied f p v s) q pend"
  "op_promise s q pend \<Longrightarrow> p \<noteq> q \<Longrightarrow> pend \<noteq> Some f \<Longrightarrow> op_promise (started f p s) q pend"
  by (auto simp: op_promise_def started_def supplied_def quiet_def)

lemma fresh_ok_supplied_op:
  assumes "op_promise s p (Some f)" and "fresh_ok s"
  shows "fresh_ok (supplied f p v s)"
  unfolding fresh_ok_def
proof (intro allI impI)
  fix n assume "next_addr (supplied f p v s) \<le> n"
  then have n: "next_addr s \<le> n" by (simp add: supplied_def)
  have "futures s f \<noteq> None" "promises s p \<noteq> None" using assms(1) by (auto simp: op_promise_def)
  then show "unused (supplied f p v s) (Addr n)"
    using fresh_okD [OF assms(2) n] by (auto simp: unused_def supplied_def)
qed

lemma fresh_ok_started:
  assumes "op_promise s p None" and "fresh_ok s" and "\<And>n. next_addr s \<le> n \<Longrightarrow> f \<noteq> Addr n"
  shows "fresh_ok (started f p s)"
  unfolding fresh_ok_def
proof (intro allI impI)
  fix n assume "next_addr (started f p s) \<le> n"
  then have n: "next_addr s \<le> n" by (simp add: started_def)
  have "promises s p \<noteq> None" using assms(1) by (auto simp: op_promise_def)
  then show "unused (started f p s) (Addr n)"
    using fresh_okD [OF assms(2) n] assms(3) [OF n] by (auto simp: unused_def started_def)
qed

lemma cancel_op:
  assumes "op_promise s p (Some f)" and P: "promises s p = Some P"
    and c: "prom_cancel H n p (s\<lparr>promises := (promises s)(p := map_option cleared (promises s p)),
        futures := (futures s)(f \<mapsto> empty_future)\<rparr>) = Inr ((), s')"
    and "futures s' f = Some empty_future"
  shows "future_cancel H n f s = Inr ((), s')"
proof -
  have f: "futures s f = Some (pending_future p)" "matching_future P = Some f" "lnodes s (ListOf p) = Some (self_node (ListOf p))"
      "attached_callback P = None"
    using assms(1) P by (auto simp: op_promise_def quiet_def)
  have "cleared P = P\<lparr>matching_future := None\<rparr>" using f(4) by (cases P) (simp add: cleared_def)
  with c f assms(4) P show ?thesis
    by (simp add: future_cancel_def fut_default_def fun_upd_twist)
qed

end
