(* ===== verification/PipeProps.thy ===== *)
theory PipeProps
  imports Pipe Endpoint
begin

text \<open>
  What the operations of a \<open>Pipe\<close> do: the outcome of every attempt to read or write, the contract of
  src/el/pipe.hpp as two endpoints, cancellation, and \<open>on_update\<close> with a callback that destroys the
  pipe.
\<close>

section \<open>Access\<close>

lemma get_pipe_run [simp]: "pipes s this = Some P \<Longrightarrow> get_pipe this s = Inr (P, s)"
  by (simp add: get_pipe_def)

lemma put_pipe_run [simp]: "put_pipe this P s = Inr ((), s\<lparr>pipes := (pipes s)(this := P)\<rparr>)"
  by (simp add: put_pipe_def)

lemma upd_pipe_run [simp]:
  "pipes s this = Some P \<Longrightarrow> upd_pipe this g s = Inr ((), s\<lparr>pipes := (pipes s)(this \<mapsto> g P)\<rparr>)"
  by (simp add: upd_pipe_def)

lemma get_flag_run [simp]:
  "flags s a = Some False \<Longrightarrow> get_flag a s = Inr (False, s)" "flags s a = Some True \<Longrightarrow> get_flag a s = Inr (True, s)"
  by (simp_all add: get_flag_def)

lemma put_flag_run [simp]: "put_flag a b s = Inr ((), s\<lparr>flags := (flags s)(a := b)\<rparr>)"
  by (simp add: put_flag_def)

section \<open>The outcome of a read\<close>

text \<open>What \<open>try_doing_read\<close> leaves, from the result \<open>res\<close> of the call: \<open>f\<close> is the future that waits.\<close>

definition overwrite :: "u8 list \<Rightarrow> nat \<Rightarrow> u8 list \<Rightarrow> u8 list" where
  "overwrite xs i bs = take i xs @ bs @ drop (i + length bs) xs"

definition read_outcome ::
  "addr \<Rightarrow> pipe \<Rightarrow> addr \<Rightarrow> int + u8 list \<Rightarrow> 'os \<Rightarrow> ('os, 'm) pipe_st_scheme \<Rightarrow> ('os, 'm) pipe_st_scheme" where
  "read_outcome this P f res k s = (case res of
     Inl e \<Rightarrow>
       if e = EAGAIN then s\<lparr>os := k, pipes := (pipes s)(this \<mapsto> P\<lparr>read_ready := False\<rparr>)\<rparr>
       else supplied f (read_promise P) (VCount (Inl (mk_error ''read'' e)))
         (s\<lparr>os := k, pipes := (pipes s)(this \<mapsto> P\<lparr>read_ready := False, read_buf := None, read_nbytes := 0\<rparr>)\<rparr>)
   | Inr bs \<Rightarrow>
       let (a, i) = the (read_buf P) in
       supplied f (read_promise P) (VCount (Inr (length bs)))
         (s\<lparr>os := k, mem := (mem s)(a \<mapsto> overwrite (the (mem s a)) i bs),
            pipes := (pipes s)(this \<mapsto> P\<lparr>read_ready := (length bs = read_nbytes P), read_buf := None, read_nbytes := 0\<rparr>)\<rparr>))"

definition write_outcome ::
  "addr \<Rightarrow> pipe \<Rightarrow> addr \<Rightarrow> int + nat \<Rightarrow> 'os \<Rightarrow> ('os, 'm) pipe_st_scheme \<Rightarrow> ('os, 'm) pipe_st_scheme" where
  "write_outcome this P f res k s = (case res of
     Inl e \<Rightarrow>
       if e = EAGAIN then s\<lparr>os := k, pipes := (pipes s)(this \<mapsto> P\<lparr>write_ready := False\<rparr>)\<rparr>
       else supplied f (write_promise P) (VCount (Inl (mk_error ''write'' e)))
         (s\<lparr>os := k, pipes := (pipes s)(this \<mapsto> P\<lparr>write_ready := False, write_buf := None, write_nbytes := 0\<rparr>)\<rparr>)
   | Inr m \<Rightarrow> supplied f (write_promise P) (VCount (Inr m))
       (s\<lparr>os := k, pipes := (pipes s)(this \<mapsto> P\<lparr>write_ready := (m = write_nbytes P), write_buf := None, write_nbytes := 0\<rparr>)\<rparr>))"

text \<open>Space for \<open>n\<close> bytes at \<open>p\<close>.\<close>

definition room :: "('os, 'm) pipe_st_scheme \<Rightarrow> ptr \<Rightarrow> nat \<Rightarrow> bool" where
  "room s p n \<longleftrightarrow> (\<exists>xs. mem s (fst p) = Some xs \<and> snd p + n \<le> length xs)"

definition bytes_at :: "('os, 'm) pipe_st_scheme \<Rightarrow> ptr \<Rightarrow> nat \<Rightarrow> u8 list" where
  "bytes_at s p n = take n (drop (snd p) (the (mem s (fst p))))"

lemma length_overwrite: "i + length bs \<le> length xs \<Longrightarrow> length (overwrite xs i bs) = length xs"
  by (simp add: overwrite_def)

lemma take_drop_overwrite: "i + length bs \<le> length xs \<Longrightarrow> take (length bs) (drop i (overwrite xs i bs)) = bs"
  by (simp add: overwrite_def)

lemma store_bytes_run:
  "room s p (length bs) \<Longrightarrow>
   store_bytes p bs s = Inr ((), s\<lparr>mem := (mem s)(fst p \<mapsto> overwrite (the (mem s (fst p))) (snd p) bs)\<rparr>)"
  by (auto simp: store_bytes_def room_def overwrite_def)

lemma load_bytes_run: "room s p n \<Longrightarrow> load_bytes p n s = Inr (bytes_at s p n, s)"
  by (auto simp: load_bytes_def room_def bytes_at_def)

lemma try_doing_read_run:
  assumes P: "pipes s this = Some P" "read_ready P" "read_buf P = Some buf" and fd: "reg_fd s this = Some fd"
    and p: "op_promise s (read_promise P) (Some f)" and fresh: "fresh_ok s" and n: "2 \<le> n"
    and k: "retry_eintr (sys_read sys fd (read_nbytes P)) (os s) = Some (res, k)"
    and room: "\<And>bs. res = Inr bs \<Longrightarrow> room s buf (length bs)"
  shows "try_doing_read sys H n this s = Inr ((), read_outcome this P f res k s)"
proof -
  obtain R where R: "promises s (read_promise P) = Some R" "prom_is_active R"
    using p by (auto simp: op_promise_def prom_is_active_def default_but_completions_def)
  have sup: "supply_value_and_detach H n (read_promise P) v t = Inr ((), supplied f (read_promise P) v t)"
    if "promises t = promises s" "futures t = futures s" "lnodes t = lnodes s" "next_addr t = next_addr s" for v t
    using supply_op [of t "read_promise P" f n H v] p fresh n op_promise_cong [OF that(1-3)] fresh_ok_cong [OF that] by simp
  show ?thesis
  proof (cases res)
    case (Inl e)
    with k show ?thesis
      by (simp add: try_doing_read_def P R fd read_outcome_def sup EWOULDBLOCK_def EAGAIN_def)
  next
    case (Inr bs)
    have "room (s\<lparr>os := k\<rparr>) buf (length bs)" using room [OF Inr] by (simp add: room_def)
    with k Inr show ?thesis
      by (simp add: try_doing_read_def P R fd read_outcome_def sup store_bytes_run split: prod.split)
  qed
qed

lemma try_doing_write_run:
  assumes P: "pipes s this = Some P" "write_ready P" "write_buf P = Some buf" and fd: "reg_fd s this = Some fd"
    and p: "op_promise s (write_promise P) (Some f)" and fresh: "fresh_ok s" and n: "2 \<le> n"
    and room: "room s buf (write_nbytes P)"
    and k: "retry_eintr (sys_write sys fd (bytes_at s buf (write_nbytes P))) (os s) = Some (res, k)"
  shows "try_doing_write sys H n this s = Inr ((), write_outcome this P f res k s)"
proof -
  obtain R where R: "promises s (write_promise P) = Some R" "prom_is_active R"
    using p by (auto simp: op_promise_def prom_is_active_def default_but_completions_def)
  have sup: "supply_value_and_detach H n (write_promise P) v t = Inr ((), supplied f (write_promise P) v t)"
    if "promises t = promises s" "futures t = futures s" "lnodes t = lnodes s" "next_addr t = next_addr s" for v t
    using supply_op [of t "write_promise P" f n H v] p fresh n op_promise_cong [OF that(1-3)] fresh_ok_cong [OF that] by simp
  show ?thesis using k
    by (cases res) (simp_all add: try_doing_write_def P R fd write_outcome_def sup load_bytes_run [OF room]
        EWOULDBLOCK_def EAGAIN_def)
qed

lemma pipe_read_run:
  assumes P: "pipes s this = Some P" "read_buf P = None" "read_nbytes P = 0" and p: "op_promise s (read_promise P) None"
  shows "pipe_read sys H n this buf nb f s = whenM (read_ready P) (try_doing_read sys H n this)
     ((started f (read_promise P) s)\<lparr>pipes := (pipes s)(this \<mapsto> P\<lparr>read_buf := Some buf, read_nbytes := nb\<rparr>)\<rparr>)"
proof -
  obtain R where R: "promises s (read_promise P) = Some R" "default_but_completions R"
    using p by (auto simp: op_promise_def default_but_completions_def)
  show ?thesis using P R by (simp add: pipe_read_def start_op [OF p] started_def)
qed

lemma pipe_write_run:
  assumes P: "pipes s this = Some P" "write_buf P = None" "write_nbytes P = 0" and p: "op_promise s (write_promise P) None"
  shows "pipe_write sys H n this buf nb f s = whenM (write_ready P) (try_doing_write sys H n this)
     ((started f (write_promise P) s)\<lparr>pipes := (pipes s)(this \<mapsto> P\<lparr>write_buf := Some buf, write_nbytes := nb\<rparr>)\<rparr>)"
proof -
  obtain R where R: "promises s (write_promise P) = Some R" "default_but_completions R"
    using p by (auto simp: op_promise_def default_but_completions_def)
  show ?thesis using P R by (simp add: pipe_write_def start_op [OF p] started_def)
qed

section \<open>Well-formed pipes\<close>

text \<open>\<open>read_buf_\<close> and \<open>read_nbytes_\<close>, or those of writing, while \<open>pend\<close> waits.\<close>

definition side_ok :: "('os, 'm) pipe_st_scheme \<Rightarrow> addr option \<Rightarrow> ptr option \<Rightarrow> nat \<Rightarrow> bool" where
  "side_ok s pend b n \<longleftrightarrow> (case pend of None \<Rightarrow> b = None \<and> n = 0 | Some _ \<Rightarrow> (case b of None \<Rightarrow> False | Some p \<Rightarrow> room s p n))"

lemma side_ok_simps [simp]:
  "side_ok s None b n \<longleftrightarrow> b = None \<and> n = 0" "side_ok s (Some f) (Some p) n = room s p n" "\<not> side_ok s (Some f) None n"
  by (simp_all add: side_ok_def)

lemma side_ok_cong: "(\<And>p n. room s' p n = room s p n) \<Longrightarrow> side_ok s' pend b n = side_ok s pend b n"
  by (simp add: side_ok_def split: option.split)

lemma side_ok_Some: "side_ok s (Some f) b n \<Longrightarrow> \<exists>p. b = Some p \<and> room s p n"
  by (cases b) auto

definition pipe_ok ::
  "('os, 'm) pipe_st_scheme \<Rightarrow> addr \<Rightarrow> Fd \<Rightarrow> pipe \<Rightarrow> addr option \<Rightarrow> addr option \<Rightarrow> bool" where
  "pipe_ok s this fd P r w \<longleftrightarrow> fresh_ok s \<and> reg_fd s this = Some fd \<and> pipes s this = Some P
     \<and> read_promise P \<noteq> write_promise P \<and> op_promise s (read_promise P) r \<and> op_promise s (write_promise P) w
     \<and> map_option pclass (promises s (read_promise P)) = Some (OtherCancellable (PipeRead this))
     \<and> map_option pclass (promises s (write_promise P)) = Some (OtherCancellable (PipeWrite this))
     \<and> side_ok s r (read_buf P) (read_nbytes P) \<and> side_ok s w (write_buf P) (write_nbytes P)"

lemma op_promise_apart: "op_promise s p (Some f) \<Longrightarrow> op_promise s q (Some g) \<Longrightarrow> p \<noteq> q \<Longrightarrow> f \<noteq> g"
  by (auto simp: op_promise_def)

lemma pipe_ok_apart:
  "pipe_ok s this fd P (Some f) w \<Longrightarrow> w \<noteq> Some f" "pipe_ok s this fd P r (Some g) \<Longrightarrow> r \<noteq> Some g"
  unfolding pipe_ok_def by (metis op_promise_apart)+

lemma supplied_pipes [simp]:
  "pipes (supplied f p v s) = pipes s" "mem (supplied f p v s) = mem s"
  by (simp_all add: supplied_def)

lemma started_pipes [simp]:
  "pipes (started f p s) = pipes s" "mem (started f p s) = mem s"
  by (simp_all add: started_def)

lemma room_mono: "room s p n \<Longrightarrow> m \<le> n \<Longrightarrow> room s p m"
  by (auto simp: room_def)

lemma room_cong: "mem s' = mem s \<Longrightarrow> room s' p n = room s p n"
  by (simp add: room_def)

lemma room_overwrite:
  assumes "room s p (length bs)" and "mem s' = (mem s)(fst p \<mapsto> overwrite (the (mem s (fst p))) (snd p) bs)"
  shows "room s' q n = room s q n"
  using assms by (auto simp: room_def length_overwrite)

lemma room_supplied [simp]: "room (supplied f p v s) q n = room s q n"
  by (rule room_cong) simp

lemma side_ok_supplied [simp]: "side_ok (supplied f p v s) pend b n = side_ok s pend b n"
  by (rule side_ok_cong) simp

text \<open>Changes that do not touch promises and futures.\<close>

lemma pipe_ok_update:
  assumes ok: "pipe_ok s this fd P r w"
    and s': "promises s' = promises s" "futures s' = futures s" "lnodes s' = lnodes s" "next_addr s' = next_addr s"
      "reg_fd s' = reg_fd s" "pipes s' = (pipes s)(this \<mapsto> P')" "\<And>p n. room s' p n = room s p n"
    and P': "read_promise P' = read_promise P" "write_promise P' = write_promise P"
      "read_buf P' = read_buf P" "read_nbytes P' = read_nbytes P" "write_buf P' = write_buf P" "write_nbytes P' = write_nbytes P"
  shows "pipe_ok s' this fd P' r w"
proof -
  have "side_ok s' q b n = side_ok s q b n" for q b n by (rule side_ok_cong) (rule s'(7))
  then show ?thesis using ok op_promise_cong [OF s'(1-3)] fresh_ok_cong [OF s'(1-4)]
    unfolding pipe_ok_def P' by (simp add: s' P')
qed

text \<open>An operation that ends: the value goes to its future.\<close>

lemma pipe_ok_read_done:
  assumes ok: "pipe_ok s this fd P (Some f) w"
    and s': "promises s' = promises s" "futures s' = futures s" "lnodes s' = lnodes s" "next_addr s' = next_addr s"
      "reg_fd s' = reg_fd s" "pipes s' = (pipes s)(this \<mapsto> P')" "\<And>p n. room s' p n = room s p n"
    and P': "read_promise P' = read_promise P" "write_promise P' = write_promise P"
      "read_buf P' = None" "read_nbytes P' = 0" "write_buf P' = write_buf P" "write_nbytes P' = write_nbytes P"
  shows "pipe_ok (supplied f (read_promise P) v s') this fd P' None w"
proof -
  have p: "op_promise s' (read_promise P) (Some f)" "op_promise s' (write_promise P) w" "fresh_ok s'"
    using ok op_promise_cong [OF s'(1-3)] fresh_ok_cong [OF s'(1-4)] by (simp_all add: pipe_ok_def)
  have "read_promise P \<noteq> write_promise P" using ok by (simp add: pipe_ok_def)
  moreover have "side_ok s' q b n = side_ok s q b n" for q b n by (rule side_ok_cong) (rule s'(7))
  ultimately show ?thesis using p op_promise_other(1) [OF p(2) _ pipe_ok_apart(1) [OF ok]] fresh_ok_supplied_op [OF p(1,3)] ok
    unfolding pipe_ok_def P' by (simp add: s' P')
qed

lemma pipe_ok_write_done:
  assumes ok: "pipe_ok s this fd P r (Some f)"
    and s': "promises s' = promises s" "futures s' = futures s" "lnodes s' = lnodes s" "next_addr s' = next_addr s"
      "reg_fd s' = reg_fd s" "pipes s' = (pipes s)(this \<mapsto> P')" "\<And>p n. room s' p n = room s p n"
    and P': "read_promise P' = read_promise P" "write_promise P' = write_promise P"
      "read_buf P' = read_buf P" "read_nbytes P' = read_nbytes P" "write_buf P' = None" "write_nbytes P' = 0"
  shows "pipe_ok (supplied f (write_promise P) v s') this fd P' r None"
proof -
  have p: "op_promise s' (write_promise P) (Some f)" "op_promise s' (read_promise P) r" "fresh_ok s'"
    using ok op_promise_cong [OF s'(1-3)] fresh_ok_cong [OF s'(1-4)] by (simp_all add: pipe_ok_def)
  have "write_promise P \<noteq> read_promise P" using ok by (auto simp: pipe_ok_def)
  moreover have "side_ok s' q b n = side_ok s q b n" for q b n by (rule side_ok_cong) (rule s'(7))
  ultimately show ?thesis using p op_promise_other(1) [OF p(2) _ pipe_ok_apart(2) [OF ok]] fresh_ok_supplied_op [OF p(1,3)] ok
    unfolding pipe_ok_def P' by (simp add: s' P')
qed

text \<open>A read that was tried: the pipe keeps its form, and the operation has ended or waits.\<close>

lemma pipe_ok_read_outcome:
  assumes ok: "pipe_ok s this fd P (Some f) w" and res: "\<And>bs. res = Inr bs \<Longrightarrow> length bs \<le> read_nbytes P"
  shows "pipe_ok (read_outcome this P f res k s) this fd
     (P\<lparr>read_ready := (case res of Inl e \<Rightarrow> False | Inr bs \<Rightarrow> length bs = read_nbytes P),
        read_buf := (if res = Inl EAGAIN then read_buf P else None),
        read_nbytes := (if res = Inl EAGAIN then read_nbytes P else 0)\<rparr>)
     (if res = Inl EAGAIN then Some f else None) w"
proof (cases res)
  case (Inl e)
  show ?thesis
  proof (cases "e = EAGAIN")
    case True
    with Inl show ?thesis by (simp add: read_outcome_def) (rule pipe_ok_update [OF ok]; simp add: room_def)
  next
    case False
    with Inl show ?thesis by (simp add: read_outcome_def) (rule pipe_ok_read_done [OF ok]; simp add: room_def)
  qed
next
  case (Inr bs)
  obtain a i where buf: "read_buf P = Some (a, i)" "room s (a, i) (read_nbytes P)"
    using ok side_ok_Some by (force simp: pipe_ok_def)
  then have "room s (a, i) (length bs)" using res [OF Inr] room_mono by blast
  note over = room_overwrite [OF this, unfolded fst_conv snd_conv]
  show ?thesis using Inr buf
    by (simp add: read_outcome_def)
      (rule pipe_ok_read_done [OF ok]; simp add: over)
qed

lemma pipe_ok_write_outcome:
  assumes ok: "pipe_ok s this fd P r (Some f)"
  shows "pipe_ok (write_outcome this P f res k s) this fd
     (P\<lparr>write_ready := (case res of Inl e \<Rightarrow> False | Inr m \<Rightarrow> m = write_nbytes P),
        write_buf := (if res = Inl EAGAIN then write_buf P else None),
        write_nbytes := (if res = Inl EAGAIN then write_nbytes P else 0)\<rparr>)
     r (if res = Inl EAGAIN then Some f else None)"
proof (cases "res = Inl EAGAIN")
  case True
  then show ?thesis by (simp add: write_outcome_def) (rule pipe_ok_update [OF ok]; simp add: room_def)
next
  case False
  then show ?thesis by (cases res; simp add: write_outcome_def) (rule pipe_ok_write_done [OF ok]; simp add: room_def)+
qed

lemma pipe_ok_read_started:
  assumes ok: "pipe_ok s this fd P None w" and room: "room s buf nb" and f: "\<And>n. next_addr s \<le> n \<Longrightarrow> f \<noteq> Addr n"
    and w: "w \<noteq> Some f"
  shows "pipe_ok ((started f (read_promise P) s)\<lparr>pipes := (pipes s)(this \<mapsto> P\<lparr>read_buf := Some buf, read_nbytes := nb\<rparr>)\<rparr>)
     this fd (P\<lparr>read_buf := Some buf, read_nbytes := nb\<rparr>) (Some f) w" (is "pipe_ok ?t _ _ ?P _ _")
proof -
  let ?u = "started f (read_promise P) s"
  have p: "op_promise s (read_promise P) None" "op_promise s (write_promise P) w" "fresh_ok s" "read_promise P \<noteq> write_promise P"
    using ok by (simp_all add: pipe_ok_def)
  have u: "promises ?t = promises ?u" "futures ?t = futures ?u" "lnodes ?t = lnodes ?u" "next_addr ?t = next_addr ?u" by simp_all
  have "side_ok ?t pend b m = side_ok s pend b m" for pend b m by (rule side_ok_cong) (simp add: room_def)
  moreover have "room ?t buf nb" using room by (simp add: room_def)
  ultimately show ?thesis using op_promise_other(2) [OF p(2) p(4) w] fresh_ok_started [OF p(1,3) f] ok p(1)
    unfolding pipe_ok_def by (simp add: op_promise_cong [OF u(1-3)] fresh_ok_cong [OF u])
qed

lemma pipe_ok_write_started:
  assumes ok: "pipe_ok s this fd P r None" and room: "room s buf nb" and f: "\<And>n. next_addr s \<le> n \<Longrightarrow> f \<noteq> Addr n"
    and r: "r \<noteq> Some f"
  shows "pipe_ok ((started f (write_promise P) s)\<lparr>pipes := (pipes s)(this \<mapsto> P\<lparr>write_buf := Some buf, write_nbytes := nb\<rparr>)\<rparr>)
     this fd (P\<lparr>write_buf := Some buf, write_nbytes := nb\<rparr>) r (Some f)" (is "pipe_ok ?t _ _ ?P _ _")
proof -
  let ?u = "started f (write_promise P) s"
  have p: "op_promise s (write_promise P) None" "op_promise s (read_promise P) r" "fresh_ok s" "write_promise P \<noteq> read_promise P"
    using ok by (auto simp: pipe_ok_def)
  have u: "promises ?t = promises ?u" "futures ?t = futures ?u" "lnodes ?t = lnodes ?u" "next_addr ?t = next_addr ?u" by simp_all
  have "side_ok ?t pend b m = side_ok s pend b m" for pend b m by (rule side_ok_cong) (simp add: room_def)
  moreover have "room ?t buf nb" using room by (simp add: room_def)
  ultimately show ?thesis using op_promise_other(2) [OF p(2) p(4) r] fresh_ok_started [OF p(1,3) f] ok p(1)
    unfolding pipe_ok_def by (simp add: op_promise_cong [OF u(1-3)] fresh_ok_cong [OF u])
qed

lemma pipe_ok_pending: "pipe_ok s this fd P r w \<Longrightarrow> waiting_for s (read_promise P) = r \<and> waiting_for s (write_promise P) = w"
  by (simp add: pipe_ok_def op_promise_waiting_for)

lemma pipe_ok_cong:
  "pipe_ok s this fd P r w \<Longrightarrow> promises s' = promises s \<Longrightarrow> futures s' = futures s \<Longrightarrow> lnodes s' = lnodes s \<Longrightarrow>
   next_addr s' = next_addr s \<Longrightarrow> reg_fd s' = reg_fd s \<Longrightarrow> pipes s' = pipes s \<Longrightarrow> mem s' = mem s \<Longrightarrow> pipe_ok s' this fd P r w"
  by (rule pipe_ok_update) (auto simp: pipe_ok_def room_def)

lemma pipe_ok_alloc: "pipe_ok s this fd P r w \<Longrightarrow> pipe_ok (s\<lparr>next_addr := Suc (next_addr s)\<rparr>) this fd P r w"
proof -
  have "side_ok (s\<lparr>next_addr := Suc (next_addr s)\<rparr>) q b n = side_ok s q b n" for q b n
    by (rule side_ok_cong) (simp add: room_def)
  then show "pipe_ok s this fd P r w \<Longrightarrow> pipe_ok (s\<lparr>next_addr := Suc (next_addr s)\<rparr>) this fd P r w"
    by (simp add: pipe_ok_def fresh_ok_alloc op_promise_def quiet_def)
qed

lemma pipe_ok_active:
  assumes "pipe_ok s this fd P r w"
  obtains R W where "promises s (read_promise P) = Some R" "prom_is_active R \<longleftrightarrow> r \<noteq> None"
    "promises s (write_promise P) = Some W" "prom_is_active W \<longleftrightarrow> w \<noteq> None"
  using assms by (fastforce simp: pipe_ok_def op_promise_def prom_is_active_def default_but_completions_def)

section \<open>Events\<close>

abbreviation read_bits :: "u32 \<Rightarrow> bool" where
  "read_bits ev \<equiv> has_event ev (or EPOLLIN (or EPOLLHUP EPOLLERR))"

abbreviation write_bits :: "u32 \<Rightarrow> bool" where
  "write_bits ev \<equiv> has_event ev (or EPOLLOUT (or EPOLLHUP EPOLLERR))"

text \<open>The state in which \<open>on_update\<close> tries to read: a flag of its own, which the pipe points at.\<close>

definition updating :: "addr \<Rightarrow> pipe \<Rightarrow> ('os, 'm) pipe_st_scheme \<Rightarrow> ('os, 'm) pipe_st_scheme" where
  "updating this P s = s\<lparr>next_addr := Suc (next_addr s), flags := (flags s)(Addr (next_addr s) \<mapsto> False),
     pipes := (pipes s)(this \<mapsto> P\<lparr>read_ready := True, destruct_pointer := Some (Addr (next_addr s))\<rparr>)\<rparr>"

text \<open>The part of \<open>on_update\<close> after the read side.\<close>

definition update_rest where
  "update_rest sys H n this ev a = bindM (get_flag a) (\<lambda>b.
     thenM (whenM (\<not> b)
       (thenM (upd_pipe this (destruct_pointer_update (\<lambda>_. None)))
       (whenM (write_bits ev) (bindM (get_pipe this) (\<lambda>P.
         whenM (\<not> write_ready P)
           (thenM (upd_pipe this (write_ready_update (\<lambda>_. True)))
           (bindM (get_prom (write_promise P)) (\<lambda>W.
            whenM (prom_is_active W) (try_doing_write sys H n this)))))))))
     (put_flag a None))"

lemma on_update_parts:
  "pipe_on_update sys H n this ev = bindM alloc (\<lambda>a. thenM (put_flag a (Some False)) (thenM
     (whenM (read_bits ev) (bindM (get_pipe this) (\<lambda>P.
        whenM (\<not> read_ready P)
          (thenM (upd_pipe this (read_ready_update (\<lambda>_. True)))
          (bindM (get_prom (read_promise P)) (\<lambda>R.
           whenM (prom_is_active R)
             (thenM (upd_pipe this (destruct_pointer_update (\<lambda>_. Some a)))
             (try_doing_read sys H n this))))))))
     (update_rest sys H n this ev a)))"
  unfolding pipe_on_update_def update_rest_def Let_def by (rule refl)

lemma on_update_pending_read:
  assumes "pipes s this = Some P" and "\<not> read_ready P" and "read_bits ev"
    and "promises s (read_promise P) = Some R" and "prom_is_active R"
  shows "pipe_on_update sys H n this ev s
   = thenM (try_doing_read sys H n this) (update_rest sys H n this ev (Addr (next_addr s))) (updating this P s)"
  using assms by (simp add: on_update_parts updating_def monad_assoc)

lemma on_update_no_read:
  assumes "pipes s this = Some P" and "read_bits ev \<Longrightarrow> \<not> read_ready P \<Longrightarrow> \<not> prom_is_active R"
    and "promises s (read_promise P) = Some R"
  shows "pipe_on_update sys H n this ev s = update_rest sys H n this ev (Addr (next_addr s))
     (s\<lparr>next_addr := Suc (next_addr s), flags := (flags s)(Addr (next_addr s) \<mapsto> False),
        pipes := (pipes s)(this \<mapsto> P\<lparr>read_ready := (read_ready P \<or> read_bits ev)\<rparr>)\<rparr>)"
proof (cases "read_bits ev \<and> \<not> read_ready P")
  case True
  with assms show ?thesis by (simp add: on_update_parts)
next
  case False
  then have "P\<lparr>read_ready := (read_ready P \<or> read_bits ev)\<rparr> = P" by (cases P) auto
  then have s: "s\<lparr>next_addr := m, flags := g, pipes := (pipes s)(this \<mapsto> P\<lparr>read_ready := (read_ready P \<or> read_bits ev)\<rparr>)\<rparr>
      = s\<lparr>next_addr := m, flags := g\<rparr>" for m g
    using assms(1) by (intro pipe_st.equality) (auto simp: fun_upd_idem)
  show ?thesis unfolding s using False assms(1)
    by (cases "read_bits ev") (simp_all add: on_update_parts)
qed

lemma update_rest_gone:
  "flags s a = Some True \<Longrightarrow> update_rest sys H n this ev a s = Inr ((), s\<lparr>flags := (flags s)(a := None)\<rparr>)"
  by (simp add: update_rest_def)

lemma update_rest_idle:
  assumes "flags s a = Some False" and "pipes s this = Some P"
    and "promises s (write_promise P) = Some W" and "\<not> prom_is_active W"
  shows "update_rest sys H n this ev a s = Inr ((), s\<lparr>
     pipes := (pipes s)(this \<mapsto> P\<lparr>destruct_pointer := None, write_ready := (write_ready P \<or> write_bits ev)\<rparr>),
     flags := (flags s)(a := None)\<rparr>)"
proof (cases "write_bits ev \<and> \<not> write_ready P")
  case True
  with assms show ?thesis by (simp add: update_rest_def)
next
  case False
  then have P: "P\<lparr>destruct_pointer := None, write_ready := (write_ready P \<or> write_bits ev)\<rparr> = P\<lparr>destruct_pointer := None\<rparr>"
    by (cases P) auto
  note f = False
  have g: "get_flag a s = Inr (False, s)" using assms(1) by simp
  show ?thesis
  proof (cases "write_bits ev")
    case True
    with f have r: "write_ready P" by simp
    show ?thesis unfolding P update_rest_def bindM_Inr [where m = "get_flag a", OF g] using assms(2) True r by simp
  next
    case False
    then show ?thesis unfolding P by (simp add: update_rest_def assms(1,2))
  qed
qed

section \<open>Reading as an endpoint\<close>

text \<open>What the kernel promises for a descriptor that is read edge-triggered: a call is not interrupted
  for ever, gives no more than was asked for, and after a failure or a short count the descriptor is
  stalled, so that the kernel will announce when it is usable again.\<close>

definition read_contract :: "'os syscalls \<Rightarrow> Fd \<Rightarrow> ('os \<Rightarrow> bool) \<Rightarrow> bool" where
  "read_contract sys fd stalled \<longleftrightarrow> (\<forall>n k. \<exists>r k'. retry_eintr (sys_read sys fd n) k = Some (r, k')
     \<and> (case r of Inl e \<Rightarrow> stalled k' | Inr bs \<Rightarrow> length bs \<le> n \<and> (length bs < n \<longrightarrow> stalled k')))"

definition pipe_read_end ::
  "'os syscalls \<Rightarrow> ('os, 'm) pipe_st_scheme prog_hooks \<Rightarrow> nat \<Rightarrow> addr \<Rightarrow> ptr \<Rightarrow> nat \<Rightarrow> u32
     \<Rightarrow> (('os, 'm) pipe_st_scheme, 'os) endpoint" where
  "pipe_read_end sys H n this buf nb ev = \<lparr>
     ep_request = bindM alloc (\<lambda>f. thenM (pipe_read sys H n this buf nb f) (ret f)),
     ep_event = pipe_on_update sys H n this ev,
     ep_cancel = future_cancel H n,
     ep_arrive = (\<lambda>k s. s\<lparr>os := k\<rparr>),
     ep_ready = (\<lambda>s. case pipes s this of None \<Rightarrow> False | Some P \<Rightarrow> read_ready P),
     ep_pending = (\<lambda>s. case pipes s this of None \<Rightarrow> None | Some P \<Rightarrow> waiting_for s (read_promise P))\<rparr>"

definition pipe_reading where
  "pipe_reading sys H n stalled this fd buf nb ev s \<longleftrightarrow> 2 \<le> n \<and> cancel_other H = pipe_promise_cancel \<and> read_bits ev
     \<and> read_contract sys fd stalled \<and> room s buf nb \<and> (\<exists>P r. pipe_ok s this fd P r None)"

lemma read_outcome_fields [simp]:
  "flags (read_outcome this P f res k s) = flags s" "os (read_outcome this P f res k s) = k"
  by (auto simp: read_outcome_def supplied_def split: sum.split prod.split)

lemma room_read_outcome:
  assumes "pipe_ok s this fd P (Some f) w" and "\<And>bs. res = Inr bs \<Longrightarrow> length bs \<le> read_nbytes P"
  shows "room (read_outcome this P f res k s) q m = room s q m"
proof (cases res)
  case (Inr bs)
  obtain a i where buf: "read_buf P = Some (a, i)" "room s (a, i) (read_nbytes P)"
    using assms(1) side_ok_Some by (force simp: pipe_ok_def)
  then have "room s (a, i) (length bs)" using assms(2) [OF Inr] room_mono by blast
  note over = room_overwrite [OF this, unfolded fst_conv snd_conv]
  show ?thesis by (simp add: read_outcome_def Inr buf(1) over)
qed (simp add: read_outcome_def room_def)

lemma try_reading:
  assumes ok: "pipe_ok s this fd P (Some f) w" and ready: "read_ready P" and n: "2 \<le> n" and C: "read_contract sys fd stalled"
  obtains s' P' r where "try_doing_read sys H n this s = Inr ((), s')" "pipe_ok s' this fd P' r w"
    "r = None \<or> r = Some f \<and> \<not> read_ready P'" "read_ready P' \<or> stalled (os s')" "\<And>q m. room s' q m = room s q m"
    "flags s' = flags s"
proof -
  obtain res k where k: "retry_eintr (sys_read sys fd (read_nbytes P)) (os s) = Some (res, k)"
    and res: "case res of Inl e \<Rightarrow> stalled k | Inr bs \<Rightarrow> length bs \<le> read_nbytes P \<and> (length bs < read_nbytes P \<longrightarrow> stalled k)"
    using C unfolding read_contract_def by blast
  then have le: "\<And>bs. res = Inr bs \<Longrightarrow> length bs \<le> read_nbytes P" by simp
  obtain buf where buf: "read_buf P = Some buf" "room s buf (read_nbytes P)"
    using ok side_ok_Some by (force simp: pipe_ok_def)
  have "try_doing_read sys H n this s = Inr ((), read_outcome this P f res k s)"
    by (rule try_doing_read_run [OF _ ready buf(1) _ _ _ n k])
      (use ok le room_mono [OF buf(2)] in \<open>auto simp: pipe_ok_def\<close>)
  note run = that [OF this pipe_ok_read_outcome [OF ok le] _ _ room_read_outcome [OF ok le]]
  show ?thesis by (rule run) (use res in \<open>auto split: sum.splits\<close>)
qed

text \<open>Cancelling a pending read empties the members of the pipe and leaves the rest of it alone.\<close>

lemma cancel_read:
  assumes ok: "pipe_ok s this fd P (Some f) w" and H: "cancel_other H = pipe_promise_cancel" and n: "0 < n"
  shows "\<exists>s'. future_cancel H n f s = Inr ((), s') \<and> pipe_ok s' this fd (P\<lparr>read_buf := None, read_nbytes := 0\<rparr>) None w
    \<and> os s' = os s \<and> mem s' = mem s \<and> flags s' = flags s \<and> futures s' = (futures s)(f \<mapsto> empty_future)"
proof -
  let ?p = "read_promise P" and ?P = "P\<lparr>read_buf := None, read_nbytes := 0\<rparr>"
  have p: "op_promise s ?p (Some f)" "op_promise s (write_promise P) w" "?p \<noteq> write_promise P" "pipes s this = Some P"
    using ok by (simp_all add: pipe_ok_def)
  obtain R where R: "promises s ?p = Some R" "pclass R = OtherCancellable (PipeRead this)" "attached_callback R = None"
    using ok by (auto simp: pipe_ok_def op_promise_def)
  let ?t = "s\<lparr>promises := (promises s)(?p := map_option cleared (promises s ?p)), futures := (futures s)(f \<mapsto> empty_future)\<rparr>"
  let ?s' = "?t\<lparr>pipes := (pipes s)(this \<mapsto> ?P)\<rparr>"
  obtain m where m: "n = Suc m" using n by (cases n) auto
  obtain buf where buf: "read_buf P = Some buf" using ok side_ok_Some by (force simp: pipe_ok_def)
  have "prom_cancel H n ?p ?t = Inr ((), ?s')"
    by (simp add: m R H pipe_promise_cancel_def cleared_def p(4) buf)
  then have run: "future_cancel H n f s = Inr ((), ?s')"
    by (rule cancel_op [OF p(1) R(1)]) simp
  have ne: "w \<noteq> Some f" using pipe_ok_apart(1) [OF ok] .
  have o: "op_promise ?s' ?p None" "op_promise ?s' (write_promise P) w"
    using p ne R by (auto simp: op_promise_def quiet_def cleared_def)
  have "fresh_ok ?s'" unfolding fresh_ok_def
  proof (intro allI impI)
    fix k assume "next_addr ?s' \<le> k"
    then have k: "next_addr s \<le> k" and "fresh_ok s" "futures s f \<noteq> None" using ok by (auto simp: pipe_ok_def op_promise_def)
    then show "unused ?s' (Addr k)" using fresh_okD [OF \<open>fresh_ok s\<close> k] R(1) by (auto simp: unused_def)
  qed
  moreover have "side_ok ?s' q b k = side_ok s q b k" for q b k by (rule side_ok_cong) (simp add: room_def)
  ultimately have "pipe_ok ?s' this fd ?P None w"
    using ok o by (auto simp: pipe_ok_def cleared_def)
  with run show ?thesis by (intro exI [of _ ?s']) simp
qed

lemma read_request:
  assumes good: "pipe_reading sys H n stalled this fd buf nb ev s" and ok: "pipe_ok s this fd P None None"
  shows "\<exists>f s' P' r. bindM alloc (\<lambda>f. thenM (pipe_read sys H n this buf nb f) (ret f)) s = Inr (f, s')
     \<and> pipe_ok s' this fd P' r None \<and> room s' buf nb
     \<and> (if read_ready P then read_ready P' \<or> stalled (os s') else \<not> read_ready P' \<and> os s' = os s)
     \<and> (r = None \<or> r = Some f \<and> \<not> read_ready P')"
proof -
  let ?f = "Addr (next_addr s)" and ?s0 = "s\<lparr>next_addr := Suc (next_addr s)\<rparr>"
  let ?P = "P\<lparr>read_buf := Some buf, read_nbytes := nb\<rparr>"
  let ?s1 = "(started ?f (read_promise P) ?s0)\<lparr>pipes := (pipes ?s0)(this \<mapsto> ?P)\<rparr>"
  have C: "read_contract sys fd stalled" "2 \<le> n" "room s buf nb" using good by (simp_all add: pipe_reading_def)
  have ok0: "pipe_ok ?s0 this fd P None None" by (rule pipe_ok_alloc [OF ok])
  have ok1: "pipe_ok ?s1 this fd ?P (Some ?f) None"
    by (rule pipe_ok_read_started [OF ok0]) (use C(3) in \<open>auto simp: room_def\<close>)
  have "pipe_read sys H n this buf nb ?f ?s0 = whenM (read_ready P) (try_doing_read sys H n this) ?s1"
    by (rule pipe_read_run) (use ok0 in \<open>auto simp: pipe_ok_def\<close>)
  then have run: "bindM alloc (\<lambda>f. thenM (pipe_read sys H n this buf nb f) (ret f)) s
      = thenM (whenM (read_ready P) (try_doing_read sys H n this)) (ret ?f) ?s1"
    by (simp add: thenM_def bindM_def)
  have room1: "room ?s1 buf nb" using C(3) by (simp add: room_def)
  show ?thesis
  proof (cases "read_ready P")
    case True
    obtain s' P' r where "try_doing_read sys H n this ?s1 = Inr ((), s')" "pipe_ok s' this fd P' r None"
      "r = None \<or> r = Some ?f \<and> \<not> read_ready P'" "read_ready P' \<or> stalled (os s')" "\<And>q m. room s' q m = room ?s1 q m"
      by (rule try_reading [OF ok1 _ C(2,1)]) (use True in auto)
    with run True room1 show ?thesis by (auto simp: whenM_def)
  next
    case False
    with run ok1 room1 show ?thesis by (intro exI [of _ ?f] exI [of _ ?s1] exI [of _ ?P] exI [of _ "Some ?f"]) simp
  qed
qed

lemma read_event:
  assumes good: "pipe_reading sys H n stalled this fd buf nb ev s" and ok: "pipe_ok s this fd P r None"
    and r: "r \<noteq> None \<longrightarrow> \<not> read_ready P"
  shows "\<exists>s' P' r'. pipe_on_update sys H n this ev s = Inr ((), s') \<and> pipe_ok s' this fd P' r' None \<and> room s' buf nb
     \<and> (read_ready P' \<or> stalled (os s')) \<and> (r' = None \<or> r' = r \<and> \<not> read_ready P')"
proof -
  have C: "read_contract sys fd stalled" "2 \<le> n" "room s buf nb" "read_bits ev" using good by (simp_all add: pipe_reading_def)
  let ?a = "Addr (next_addr s)"
  obtain R W where RW: "promises s (read_promise P) = Some R" "prom_is_active R \<longleftrightarrow> r \<noteq> None"
    "promises s (write_promise P) = Some W" "\<not> prom_is_active W" using ok by (rule pipe_ok_active) simp
  have P: "pipes s this = Some P" using ok by (simp add: pipe_ok_def)
  show ?thesis
  proof (cases r)
    case None
    let ?P = "P\<lparr>read_ready := True\<rparr>"
    let ?s1 = "s\<lparr>next_addr := Suc (next_addr s), flags := (flags s)(?a \<mapsto> False), pipes := (pipes s)(this \<mapsto> ?P)\<rparr>"
    let ?P' = "?P\<lparr>destruct_pointer := None, write_ready := (write_ready ?P \<or> write_bits ev)\<rparr>"
    let ?s' = "?s1\<lparr>pipes := (pipes ?s1)(this \<mapsto> ?P'), flags := (flags ?s1)(?a := None)\<rparr>"
    have "pipe_on_update sys H n this ev s = update_rest sys H n this ev ?a ?s1"
      using on_update_no_read [OF P _ RW(1), of ev sys H n] RW(2) None C(4) by simp
    also have "\<dots> = Inr ((), ?s')"
      by (rule update_rest_idle [where W = W]) (use RW in simp_all)
    finally have run: "pipe_on_update sys H n this ev s = Inr ((), ?s')" .
    have "pipe_ok ?s' this fd ?P' r None"
      by (rule pipe_ok_update [OF pipe_ok_alloc [OF ok]]) (simp_all add: room_def)
    with run None C(3) show ?thesis by (intro exI [of _ ?s'] exI [of _ ?P'] exI [of _ r]) (simp add: room_def)
  next
    case (Some f)
    let ?P = "P\<lparr>read_ready := True, destruct_pointer := Some ?a\<rparr>"
    have ok1: "pipe_ok (updating this P s) this fd ?P (Some f) None"
      by (rule pipe_ok_update [OF pipe_ok_alloc [OF ok [unfolded Some]]]) (simp_all add: updating_def room_def)
    obtain s2 P2 r2 where s2: "try_doing_read sys H n this (updating this P s) = Inr ((), s2)" "pipe_ok s2 this fd P2 r2 None"
      "r2 = None \<or> r2 = Some f \<and> \<not> read_ready P2" "read_ready P2 \<or> stalled (os s2)" "\<And>q m. room s2 q m = room (updating this P s) q m"
      "flags s2 = flags (updating this P s)"
      by (rule try_reading [OF ok1 _ C(2,1)]) auto
    obtain W2 where W2: "promises s2 (write_promise P2) = Some W2" "\<not> prom_is_active W2" using s2(2) by (rule pipe_ok_active) simp
    let ?P' = "P2\<lparr>destruct_pointer := None, write_ready := (write_ready P2 \<or> write_bits ev)\<rparr>"
    let ?s' = "s2\<lparr>pipes := (pipes s2)(this \<mapsto> ?P'), flags := (flags s2)(?a := None)\<rparr>"
    have "pipe_on_update sys H n this ev s = thenM (try_doing_read sys H n this) (update_rest sys H n this ev ?a) (updating this P s)"
      by (rule on_update_pending_read [OF P _ C(4) RW(1)]) (use r Some RW(2) in auto)
    also have "\<dots> = update_rest sys H n this ev ?a s2" using s2(1) by simp
    also have "\<dots> = Inr ((), ?s')"
      by (rule update_rest_idle [OF _ _ W2]) (use s2(2) in \<open>simp_all add: s2(6) updating_def pipe_ok_def\<close>)
    finally have run: "pipe_on_update sys H n this ev s = Inr ((), ?s')" .
    have "pipe_ok ?s' this fd ?P' r2 None"
      by (rule pipe_ok_update [OF s2(2)]) (simp_all add: room_def)
    with run s2(3,4) Some C(3) s2(5) [unfolded updating_def] show ?thesis
      by (intro exI [of _ ?s'] exI [of _ ?P'] exI [of _ r2]) (auto simp: room_def)
  qed
qed

lemma pipe_ok_pipe: "pipe_ok s this fd P r w \<Longrightarrow> pipes s this = Some P"
  by (simp add: pipe_ok_def)

lemmas read_end_simps = pipe_read_end_def pipe_ok_pipe pipe_ok_pending

interpretation pipe_reads: endpoint_laws "pipe_read_end sys H n this buf nb ev" "\<lambda>s. stalled (os s)"
  "pipe_reading sys H n stalled this fd buf nb ev"
proof
  let ?A = "pipe_read_end sys H n this buf nb ev" and ?G = "pipe_reading sys H n stalled this fd buf nb ev"
  fix s assume good: "?G s"
    and idle: "ep_pending ?A s = None"
  obtain P r where "pipe_ok s this fd P r None" using good by (auto simp: pipe_reading_def)
  with idle have ok: "pipe_ok s this fd P None None" by (simp add: read_end_simps)
  from read_request [OF good ok] obtain f s' P' r where
    "bindM alloc (\<lambda>f. thenM (pipe_read sys H n this buf nb f) (ret f)) s = Inr (f, s')" "pipe_ok s' this fd P' r None"
    "room s' buf nb" "if read_ready P then read_ready P' \<or> stalled (os s') else \<not> read_ready P' \<and> os s' = os s"
    "r = None \<or> r = Some f \<and> \<not> read_ready P'" by blast
  with ok good show "\<exists>f s'. ep_request ?A s = Inr (f, s') \<and> ?G s'
      \<and> (if ep_ready ?A s then ep_ready ?A s' \<or> stalled (os s') else \<not> ep_ready ?A s' \<and> (stalled (os s) \<longrightarrow> stalled (os s')))
      \<and> (ep_pending ?A s' = None
         \<or> ep_pending ?A s' = Some f \<and> \<not> ep_ready ?A s')"
    by (intro exI [of _ f] exI [of _ s']) (auto simp: read_end_simps pipe_reading_def split: if_splits)
next
  let ?A = "pipe_read_end sys H n this buf nb ev" and ?G = "pipe_reading sys H n stalled this fd buf nb ev"
  fix s assume good: "?G s"
    and r: "ep_pending ?A s \<noteq> None \<longrightarrow> \<not> ep_ready ?A s"
  obtain P r where ok: "pipe_ok s this fd P r None" using good by (auto simp: pipe_reading_def)
  with r have "r \<noteq> None \<longrightarrow> \<not> read_ready P" by (simp add: read_end_simps)
  from read_event [OF good ok this] ok good
  show "\<exists>s'. ep_event ?A s = Inr ((), s') \<and> ?G s'
      \<and> (ep_ready ?A s' \<or> stalled (os s'))
      \<and> (ep_pending ?A s' = None
         \<or> ep_pending ?A s' = ep_pending ?A s \<and> \<not> ep_ready ?A s')"
    by (fastforce simp: read_end_simps pipe_reading_def)
next
  let ?A = "pipe_read_end sys H n this buf nb ev" and ?G = "pipe_reading sys H n stalled this fd buf nb ev"
  fix s f assume good: "?G s"
    and f: "ep_pending ?A s = Some f"
  obtain P r where "pipe_ok s this fd P r None" using good by (auto simp: pipe_reading_def)
  with f have ok: "pipe_ok s this fd P (Some f) None" by (simp add: read_end_simps)
  have "cancel_other H = pipe_promise_cancel" "0 < n" using good by (simp_all add: pipe_reading_def)
  from cancel_read [OF ok this] obtain s' where "future_cancel H n f s = Inr ((), s')"
    "pipe_ok s' this fd (P\<lparr>read_buf := None, read_nbytes := 0\<rparr>) None None" "os s' = os s" "mem s' = mem s" by blast
  moreover from this(2) have "waiting_for s' (read_promise P) = None" using pipe_ok_pending by fastforce
  ultimately show "\<exists>s'. ep_cancel ?A f s = Inr ((), s') \<and> ?G s'
      \<and> ep_ready ?A s' = ep_ready ?A s
      \<and> stalled (os s') = stalled (os s) \<and> ep_pending ?A s' = None"
    using ok good by (intro exI [of _ s']) (auto simp: read_end_simps pipe_reading_def room_def)
next
  fix s :: "('a, 'b) pipe_st_scheme" and k :: 'a
  assume good: "pipe_reading sys H n stalled this fd buf nb ev s" then obtain P r where ok: "pipe_ok s this fd P r None" by (auto simp: pipe_reading_def) then have "pipe_ok (s\<lparr>os := k\<rparr>) this fd P r None" by (rule pipe_ok_cong) simp_all
  with ok good show "pipe_reading sys H n stalled this fd buf nb ev (ep_arrive (pipe_read_end sys H n this buf nb ev) k s)
      \<and> ep_ready (pipe_read_end sys H n this buf nb ev) (ep_arrive (pipe_read_end sys H n this buf nb ev) k s) = ep_ready (pipe_read_end sys H n this buf nb ev) s
      \<and> ep_pending (pipe_read_end sys H n this buf nb ev) (ep_arrive (pipe_read_end sys H n this buf nb ev) k s) = ep_pending (pipe_read_end sys H n this buf nb ev) s"
    by (auto simp: read_end_simps pipe_reading_def room_def waiting_for_def)
qed

section \<open>An example\<close>

text \<open>A kernel whose state is the bytes that wait in the one pipe, and a program with that pipe at
  address 0 and a buffer of four bytes at address 3.\<close>

definition queue_sys :: "u8 list syscalls" where
  "queue_sys = idle_sys\<lparr>sys_read := (\<lambda>fd n k. if k = [] then (Inl EAGAIN, k) else (Inr (take n k), drop n k))\<rparr>"

definition ex_pipe :: "u8 list \<Rightarrow> u8 list pipe_st" where
  "ex_pipe k = \<lparr>lnodes = [ListOf (Addr 1) \<mapsto> self_node (ListOf (Addr 1)), ListOf (Addr 2) \<mapsto> self_node (ListOf (Addr 2))],
     os = k, epoll_fd = 3, mid_step = False, registrants = [Addr 0], enqueued_actions = [], spare_actions_buf = [],
     regs = [Addr 0 \<mapsto> \<lparr>loop_ptr = Some (), registered_index = 0\<rparr>], reg_fd = [Addr 0 \<mapsto> 5],
     futures = Map.empty, promises = [
       Addr 1 \<mapsto> \<lparr>pclass = OtherCancellable (PipeRead (Addr 0)), matching_future = None, attached_callback = None,
          attached_promise_ptr = None, backwards_pointed_promise = None\<rparr>,
       Addr 2 \<mapsto> \<lparr>pclass = OtherCancellable (PipeWrite (Addr 0)), matching_future = None, attached_callback = None,
          attached_promise_ptr = None, backwards_pointed_promise = None\<rparr>],
     next_addr = 4, wait_states = Map.empty, mem = [Addr 3 \<mapsto> [0, 0, 0, 0]], flags = Map.empty,
     pipes = [Addr 0 \<mapsto> \<lparr>read_ready = True, write_ready = True, read_buf = None, read_nbytes = 0, read_promise = Addr 1,
        write_buf = None, write_nbytes = 0, write_promise = Addr 2, destruct_pointer = None\<rparr>]\<rparr>"

definition pipe_hooks :: "('os, 'm) pipe_st_scheme prog_hooks" where
  "pipe_hooks = \<lparr>run_fn = (\<lambda>u v r. failM OutOfFuel), run_cb = (\<lambda>u v. failM OutOfFuel), drop_fn = (\<lambda>u. failM OutOfFuel),
     completed = (\<lambda>w. failM OutOfFuel), cancel_other = pipe_promise_cancel\<rparr>"

lemma ex_pipe_ok: "pipe_ok (ex_pipe k) (Addr 0) 5 (the (pipes (ex_pipe k) (Addr 0))) None None"
  by (auto simp: pipe_ok_def ex_pipe_def op_promise_def quiet_def fresh_ok_def unused_def)

lemma queue_contract: "read_contract queue_sys fd (\<lambda>k. k = [])"
  unfolding read_contract_def
proof (intro allI)
  fix n and k :: "u8 list"
  show "\<exists>r k'. retry_eintr (sys_read queue_sys fd n) k = Some (r, k')
     \<and> (case r of Inl e \<Rightarrow> k' = [] | Inr bs \<Rightarrow> length bs \<le> n \<and> (length bs < n \<longrightarrow> k' = []))"
  proof (cases k)
    case Nil
    then show ?thesis by (intro exI [of _ "Inl EAGAIN"] exI [of _ "[]"]) (simp add: queue_sys_def EAGAIN_def EINTR_def)
  next
    case (Cons b bs)
    then show ?thesis
      by (intro exI [of _ "Inr (take n k)"] exI [of _ "drop n k"]) (simp add: queue_sys_def min_def)
  qed
qed

section \<open>Properties\<close>

text \<open>
  C26. No wakeup is lost when a pipe is read. However requests to read, cancellations of a pending
  read, events and arrivals of data follow each other, no assertion of the pipe fails; a read waits
  only while the pipe is marked as not ready; and if one waits although there is something to read,
  the kernel still owes an event, at which the read completes or finds the pipe empty. The kernel is
  edge-triggered: it announces only the change from stalled to readable.
\<close>

theorem pipe_read_no_lost_wakeup:
  assumes "pipe_ok s this fd P None None" and "read_ready P" and "room s buf nb"
    and "read_contract sys fd stalled" and "read_bits ev" and "cancel_other H = pipe_promise_cancel" and "2 \<le> n"
  shows "\<exists>s' owed. wake_run (pipe_read_end sys H n this buf nb ev) (\<lambda>s. stalled (os s)) xs (s, False) = Inr (s', owed)
     \<and> (ep_pending (pipe_read_end sys H n this buf nb ev) s' \<noteq> None \<longrightarrow>
          \<not> ep_ready (pipe_read_end sys H n this buf nb ev) s' \<and> (\<not> stalled (os s') \<longrightarrow> owed))
     \<and> (\<exists>s''. pipe_on_update sys H n this ev s' = Inr ((), s'')
          \<and> (ep_pending (pipe_read_end sys H n this buf nb ev) s'' = None
             \<or> ep_pending (pipe_read_end sys H n this buf nb ev) s'' = ep_pending (pipe_read_end sys H n this buf nb ev) s'
               \<and> stalled (os s'')))"
proof -
  have "pipe_reading sys H n stalled this fd buf nb ev s" using assms by (auto simp: pipe_reading_def)
  moreover have "ep_ready (pipe_read_end sys H n this buf nb ev) s" "ep_pending (pipe_read_end sys H n this buf nb ev) s = None"
    using assms(1,2) by (simp_all add: read_end_simps)
  moreover have "ep_event (pipe_read_end sys H n this buf nb ev) = pipe_on_update sys H n this ev"
    by (simp add: pipe_read_end_def)
  ultimately show ?thesis using pipe_reads.no_lost_wakeup [of sys H n stalled this fd buf nb ev s xs] by metis
qed

theorem pipe_read_no_lost_wakeup_witness:
  "\<exists>s' owed s''. wake_run (pipe_read_end queue_sys pipe_hooks 5 (Addr 0) (Addr 3, 0) 4 EPOLLIN) (\<lambda>s. os s = [])
       [Request, Arrive [1, 2], Event, Request, Cancel, Arrive [3], Request] (ex_pipe [], False) = Inr (s', owed)
     \<and> pipe_on_update queue_sys pipe_hooks 5 (Addr 0) EPOLLIN s' = Inr ((), s'')"
proof -
  have "read_ready (the (pipes (ex_pipe []) (Addr 0)))" "room (ex_pipe []) (Addr 3, 0) 4"
    by (simp_all add: ex_pipe_def room_def)
  moreover have "read_bits EPOLLIN" "cancel_other pipe_hooks = pipe_promise_cancel" "(2 :: nat) \<le> 5"
    by (simp_all add: has_event_def EPOLLIN_def EPOLLHUP_def EPOLLERR_def pipe_hooks_def)
  ultimately show ?thesis
    using pipe_read_no_lost_wakeup [OF ex_pipe_ok _ _ queue_contract,
      of "[]" "(Addr 3, 0)" 4 EPOLLIN pipe_hooks 5 "[Request, Arrive [1, 2], Event, Request, Cancel, Arrive [3], Request]"]
    by blast
qed

end
