(* ===== verification/OpenersProps.thy ===== *)
theory OpenersProps
  imports Openers PipeProps
begin

text \<open>
  Calls that are retried while they are interrupted, and the descriptors of the functions that open
  fifos and sockets: whatever fails on the way, a descriptor that was opened is returned or closed.
\<close>

section \<open>Retried calls\<close>

text \<open>\<open>n\<close> interruptions in a row lead from \<open>k\<close> to \<open>k'\<close>.\<close>

fun interruptions :: "('os, 'r) syscall \<Rightarrow> nat \<Rightarrow> 'os \<Rightarrow> 'os \<Rightarrow> bool" where
  "interruptions f 0 k k' \<longleftrightarrow> k' = k"
| "interruptions f (Suc n) k k' \<longleftrightarrow> (\<exists>k1. f k = (Inl EINTR, k1) \<and> interruptions f n k1 k')"

lemma retry_step_EINTR: "f k = (Inl EINTR, k1) \<Longrightarrow> retry_eintr f k = retry_eintr f k1"
  by (subst retry_eintr.simps) simp

lemma retry_step_other: "f k = (r, k1) \<Longrightarrow> r \<noteq> Inl EINTR \<Longrightarrow> retry_eintr f k = Some (r, k1)"
  by (subst retry_eintr.simps) (auto split: sum.split)

lemma diverges_interrupted: "retry_eintr f k = None \<Longrightarrow> \<exists>k'. interruptions f n k k' \<and> retry_eintr f k' = None"
proof (induction n arbitrary: k)
  case (Suc n)
  obtain r k1 where fk: "f k = (r, k1)" by (cases "f k")
  with Suc.prems have "r = Inl EINTR" using retry_step_other by fastforce
  with fk Suc.prems have "retry_eintr f k1 = None" using retry_step_EINTR by metis
  with Suc.IH [of k1] fk \<open>r = Inl EINTR\<close> show ?case by auto
qed simp

lemma interruptions_retry: "interruptions f n k k' \<Longrightarrow> retry_eintr f k = retry_eintr f k'"
  by (induction n arbitrary: k) (auto simp: retry_step_EINTR)

lemma interrupted_stops: "interrupted f n k r k' \<Longrightarrow> \<not> interruptions f (Suc n) k k''"
  by (induction n arbitrary: k) auto

section \<open>The kernel's table of descriptors\<close>

definition keeps :: "('os \<Rightarrow> 'b) \<Rightarrow> ('os, 'r) syscall \<Rightarrow> bool" where
  "keeps tb c \<longleftrightarrow> (\<forall>k. tb (snd (c k)) = tb k)"

definition opened :: "('os \<Rightarrow> int set) \<Rightarrow> 'os \<Rightarrow> 'e + int \<Rightarrow> 'os \<Rightarrow> bool" where
  "opened tb k r k' \<longleftrightarrow> (case r of Inl _ \<Rightarrow> tb k' = tb k | Inr fd \<Rightarrow> 0 \<le> fd \<and> fd \<notin> tb k \<and> tb k' = insert fd (tb k))"

definition gives_fd :: "('os \<Rightarrow> int set) \<Rightarrow> ('os, int) syscall \<Rightarrow> bool" where
  "gives_fd tb c \<longleftrightarrow> (\<forall>k. opened tb k (fst (c k)) (snd (c k)))"

definition ends :: "('os, 'r) syscall \<Rightarrow> bool" where
  "ends c \<longleftrightarrow> (\<forall>k. retry_eintr c k \<noteq> None)"

text \<open>\<open>tb\<close> is the set of open descriptors of the process: \<open>open\<close> and \<open>socket\<close> add a new one or none,
  \<open>close\<close> removes its argument whatever it reports, the other calls leave the table alone; no call is
  interrupted for ever.\<close>

definition fd_contract :: "'os env \<Rightarrow> ('os \<Rightarrow> int set) \<Rightarrow> bool" where
  "fd_contract E tb \<longleftrightarrow>
     (\<forall>p fl. gives_fd tb (sys_open (sys E) p fl) \<and> ends (sys_open (sys E) p fl))
   \<and> (\<forall>a t. gives_fd tb (sys_socket (sys E) a t) \<and> ends (sys_socket (sys E) a t))
   \<and> (\<forall>fd k. tb (snd (sys_close (sys E) fd k)) = tb k - {fd})
   \<and> (\<forall>h. keeps tb (gai_call E h) \<and> ends (gai_call E h))
   \<and> (\<forall>fd a. keeps tb (sys_connect (sys E) fd a) \<and> ends (sys_connect (sys E) fd a))
   \<and> (\<forall>fd a. keeps tb (sys_bind (sys E) fd a) \<and> ends (sys_bind (sys E) fd a))
   \<and> (\<forall>fd n. keeps tb (sys_listen (sys E) fd n) \<and> ends (sys_listen (sys E) fd n))
   \<and> (\<forall>fd. keeps tb (sys_fstat_mode (sys E) fd)) \<and> (\<forall>fd. keeps tb (sys_getfl (sys E) fd))
   \<and> (\<forall>fd fl. keeps tb (sys_setfl (sys E) fd fl) \<and> ends (sys_setfl (sys E) fd fl))
   \<and> (\<forall>ep fd ev r. keeps tb (sys_epoll_add (sys E) ep fd ev r)) \<and> (\<forall>ep fd. keeps tb (sys_epoll_del (sys E) ep fd))"

lemma retry_keeps:
  assumes "keeps tb c" and "ends c"
  obtains r k' where "retry_eintr c k = Some (r, k')" "tb k' = tb k"
proof -
  obtain r k' where k: "retry_eintr c k = Some (r, k')" using assms(2) by (metis ends_def not_None_eq surj_pair)
  from retry_eintr_result [OF k] obtain n where n: "interrupted c n k r k'" ..
  have "tb (snd (c k)) = tb k" for k using assms(1) by (simp add: keeps_def)
  then have "interrupted c n k r k' \<Longrightarrow> tb k' = tb k" for n k
    by (induction n arbitrary: k) (simp, metis snd_conv, simp, metis snd_conv)
  with n k that show ?thesis by blast
qed

lemma retry_gives_fd:
  assumes "gives_fd tb c" and "ends c"
  obtains r k' where "retry_eintr c k = Some (r, k')" "opened tb k r k'"
proof -
  obtain r k' where k: "retry_eintr c k = Some (r, k')" using assms(2) by (metis ends_def not_None_eq surj_pair)
  from retry_eintr_result [OF k] obtain n where n: "interrupted c n k r k'" ..
  have c: "opened tb k r k'" if "c k = (r, k')" for k r k' using assms(1) that by (auto simp: gives_fd_def dest: spec [of _ k])
  have "interrupted c n k r k' \<Longrightarrow> opened tb k r k'" for n k
  proof (induction n arbitrary: k)
    case (Suc n)
    then obtain k1 where k1: "c k = (Inl EINTR, k1)" "interrupted c n k1 r k'" by auto
    with Suc.IH [of k1] c [OF k1(1)] show ?case by (simp add: opened_def split: sum.splits)
  qed (simp add: c)
  with n k that show ?thesis by blast
qed

text \<open>An operation that changes only the kernel, from a table \<open>T\<close> to one that \<open>Q\<close> allows; it returns.\<close>

named_theorems table_intros \<open>rules for table\<close>

definition table ::
  "('os \<Rightarrow> int set) \<Rightarrow> int set \<Rightarrow> (('n, 'os, 'm) os_state_scheme, 'a) M \<Rightarrow> ('a \<Rightarrow> int set \<Rightarrow> bool) \<Rightarrow> bool" where
  "table tb T m Q \<longleftrightarrow> (\<forall>s. tb (os s) = T \<longrightarrow> (\<exists>r k'. m s = Inr (r, s\<lparr>os := k'\<rparr>) \<and> Q r (tb k')))"

lemma table_bind: "table tb T m Q \<Longrightarrow> (\<And>r T'. Q r T' \<Longrightarrow> table tb T' (f r) R) \<Longrightarrow> table tb T (bindM m f) R"
  unfolding table_def
proof (intro allI impI)
  fix s :: "('b, 'a, 'c) os_state_scheme"
  assume m: "\<forall>s. tb (os s) = T \<longrightarrow> (\<exists>r k'. m s = Inr (r, s\<lparr>os := k'\<rparr>) \<and> Q r (tb k'))"
    and f: "\<And>r T'. Q r T' \<Longrightarrow> \<forall>s. tb (os s) = T' \<longrightarrow> (\<exists>x k'. f r s = Inr (x, s\<lparr>os := k'\<rparr>) \<and> R x (tb k'))"
    and T: "tb (os s) = T"
  from m T obtain r k' where r: "m s = Inr (r, s\<lparr>os := k'\<rparr>)" "Q r (tb k')" by blast
  from f [OF r(2), rule_format, of "s\<lparr>os := k'\<rparr>"] r(1)
  show "\<exists>x k'. bindM m f s = Inr (x, s\<lparr>os := k'\<rparr>) \<and> R x (tb k')" by auto
qed

lemma table_then: "table tb T m Q \<Longrightarrow> (\<And>r T'. Q r T' \<Longrightarrow> table tb T' k R) \<Longrightarrow> table tb T (thenM m k) R"
  unfolding thenM_def by (rule table_bind)

lemma table_ret: "Q x T \<Longrightarrow> table tb T (ret x) Q"
  unfolding table_def ret_run by (metis os_state.surjective os_state.update_convs(1))

lemma table_assert: "b \<Longrightarrow> Q () T \<Longrightarrow> table tb T (tpf_assert p b) Q"
  unfolding table_def tpf_assert_run by simp (metis os_state.surjective os_state.update_convs(1))

lemma table_assert_then: "b \<Longrightarrow> table tb T k Q \<Longrightarrow> table tb T (thenM (tpf_assert p b) k) Q"
  unfolding table_def by simp

lemma table_syscall: "keeps tb c \<Longrightarrow> table tb T (syscall c) (\<lambda>r T'. T' = T)"
  unfolding table_def keeps_def by (metis prod.collapse syscall_run)

lemma table_retry: "keeps tb c \<and> ends c \<Longrightarrow> table tb T (syscall_retry c) (\<lambda>r T'. T' = T)"
  unfolding table_def by (metis retry_keeps syscall_retry_run)

definition got_fd :: "int set \<Rightarrow> 'e + int \<Rightarrow> int set \<Rightarrow> bool" where
  "got_fd T r T' \<longleftrightarrow> (case r of Inl _ \<Rightarrow> T' = T | Inr fd \<Rightarrow> 0 \<le> fd \<and> fd \<notin> T \<and> T' = insert fd T)"

lemma table_open:
  assumes "gives_fd tb c \<and> ends c"
  shows "table tb T (syscall_retry c) (got_fd T)"
  unfolding table_def
proof (intro allI impI)
  fix s :: "('b, 'a, 'c) os_state_scheme"
  assume "tb (os s) = T"
  moreover obtain r k' where "retry_eintr c (os s) = Some (r, k')" "opened tb (os s) r k'"
    by (rule retry_gives_fd [of tb c "os s"]) (use assms in auto)
  ultimately show "\<exists>r k'. syscall_retry c s = Inr (r, s\<lparr>os := k'\<rparr>) \<and> got_fd T r (tb k')"
    by (auto simp: opened_def got_fd_def)
qed

lemma close_failed_run:
  "fd \<noteq> -1 \<Longrightarrow> close_failed E fd msg s = Inr (Inl msg, s\<lparr>os := snd (sys_close (sys E) fd (os s))\<rparr>)"
  by (cases "sys_close (sys E) fd (os s)") (simp add: close_failed_def fd_close_def fd_destroy_def)

lemma table_close_failed:
  assumes "\<forall>fd k. tb (snd (sys_close (sys E) fd k)) = tb k - {fd}" and "0 \<le> fd" and "Q (Inl msg) (T - {fd})"
  shows "table tb T (close_failed E fd msg) Q"
  unfolding table_def using assms by (auto simp: close_failed_run)

section \<open>Opening\<close>

lemma table_get_addr_info:
  assumes "fd_contract E tb"
  shows "table tb T (get_addr_info E host port) (\<lambda>r T'. T' = T)"
  unfolding get_addr_info_def
  by (rule table_bind [OF table_retry]) (use assms in \<open>auto simp: fd_contract_def split: sum.split intro!: table_ret\<close>)

definition inet :: "sockaddr \<Rightarrow> bool" where
  "inet a \<longleftrightarrow> sa_family a = AF_INET \<or> sa_family a = AF_INET6"

lemma table_generic:
  assumes C: "fd_contract E tb"
  shows "table tb T (open_generic_stream_socket E host port fl)
    (\<lambda>r T'. got_fd T (map_sum id snd r) T' \<and> (\<forall>a fd. r = Inr (a, fd) \<longrightarrow> inet a))"
proof -
  have so: "table tb T (syscall_retry (sys_socket (sys E) a t)) (got_fd T)" for a t
    using C by (intro table_open) (simp add: fd_contract_def)
  show ?thesis unfolding open_generic_stream_socket_def
    by (rule table_bind [OF table_get_addr_info [OF C]])
      (auto split: sum.split simp: got_fd_def inet_def intro!: table_ret table_bind [OF so])
qed

lemma table_with_port:
  "inet a \<Longrightarrow> table tb T (with_port a port) (\<lambda>_ T'. T' = T)"
  by (auto simp: with_port_def inet_def intro!: table_ret table_then [where Q = "\<lambda>_ T'. T' = T"] table_assert)

lemma table_listen:
  assumes C: "fd_contract E tb"
  shows "table tb T (open_listen_socket_helper E host port backlog) (got_fd T)"
proof -
  have cl: "\<forall>fd k. tb (snd (sys_close (sys E) fd k)) = tb k - {fd}" using C by (simp add: fd_contract_def)
  have sy: "table tb T' (syscall_retry (sys_bind (sys E) fd a)) (\<lambda>_ T2. T2 = T')"
    "table tb T' (syscall_retry (sys_listen (sys E) fd n)) (\<lambda>_ T2. T2 = T')" for fd a n T'
    using C by (intro table_retry; simp add: fd_contract_def)+
  show ?thesis unfolding open_listen_socket_helper_def
    by (rule table_bind [OF table_generic [OF C]])
      (auto split: sum.split simp: got_fd_def
        intro!: table_ret table_bind [OF table_with_port] table_bind [OF sy(1)] table_bind [OF sy(2)] table_close_failed [OF cl])
qed

text \<open>The client's socket is made without \<open>O_NONBLOCK\<close>, and \<open>F_GETFL\<close> on it does not fail.\<close>

definition getfl_blocking :: "'os env \<Rightarrow> bool" where
  "getfl_blocking E \<longleftrightarrow> (\<forall>fd k. \<exists>fl k'. sys_getfl (sys E) fd k = (Inr fl, k') \<and> and fl O_NONBLOCK = 0)"

lemma table_getfl:
  assumes "keeps tb (sys_getfl (sys E) fd)" and "getfl_blocking E"
  shows "table tb T (syscall (sys_getfl (sys E) fd)) (\<lambda>r T'. T' = T \<and> (\<exists>fl. r = Inr fl \<and> and fl O_NONBLOCK = 0))"
  unfolding table_def
proof (intro allI impI)
  fix s :: "('b, 'a, 'c) os_state_scheme"
  assume "tb (os s) = T"
  moreover obtain fl k' where "sys_getfl (sys E) fd (os s) = (Inr fl, k')" "and fl O_NONBLOCK = 0"
    using assms(2) unfolding getfl_blocking_def by blast
  moreover from this(1) have "tb k' = tb (os s)" using assms(1) by (auto simp: keeps_def dest: spec [of _ "os s"])
  ultimately show "\<exists>r k'. syscall (sys_getfl (sys E) fd) s = Inr (r, s\<lparr>os := k'\<rparr>) \<and> tb k' = T
      \<and> (\<exists>fl. r = Inr fl \<and> and fl O_NONBLOCK = 0)" by auto
qed

lemma table_client:
  assumes C: "fd_contract E tb" and G: "getfl_blocking E"
  shows "table tb T (open_client_tcp_socket_helper E host port) (got_fd T)"
proof -
  have cl: "\<forall>fd k. tb (snd (sys_close (sys E) fd k)) = tb k - {fd}" using C by (simp add: fd_contract_def)
  have sy: "table tb T' (syscall_retry (sys_connect (sys E) fd a)) (\<lambda>_ T2. T2 = T')"
    "table tb T' (syscall_retry (sys_setfl (sys E) fd fl)) (\<lambda>_ T2. T2 = T')" for fd a fl T'
    using C by (intro table_retry; simp add: fd_contract_def)+
  have gf: "table tb T' (syscall (sys_getfl (sys E) fd)) (\<lambda>r T2. T2 = T' \<and> (\<exists>fl. r = Inr fl \<and> and fl O_NONBLOCK = 0))" for fd T'
    using C by (intro table_getfl [OF _ G]) (simp add: fd_contract_def)
  show ?thesis unfolding open_client_tcp_socket_helper_def
    by (rule table_bind [OF table_generic [OF C]])
      (auto split: sum.split simp: got_fd_def
        intro!: table_ret table_bind [OF table_with_port] table_bind [OF sy(1)] table_bind [OF gf] table_bind [OF sy(2)]
          table_assert_then table_close_failed [OF cl])
qed

section \<open>Pipes from descriptors\<close>

text \<open>A fresh object: two idle promises, both directions assumed to be ready.\<close>

lemma pipe_new_run:
  assumes fresh: "fresh_ok s" and ep: "epoll_fd s \<noteq> -1"
    and add: "sys_epoll_add (sys E) (epoll_fd s) fd (or (or EPOLLIN EPOLLOUT) EPOLLET) (Addr (next_addr s)) (os s) = (Inr (), k)"
  shows "\<exists>s' P. pipe_new (sys E) se fd s = Inr (Addr (next_addr s), s')
     \<and> pipe_ok s' (Addr (next_addr s)) fd P None None \<and> read_ready P \<and> write_ready P
     \<and> registrants s' = registrants s @ [Addr (next_addr s)] \<and> os s' = k
     \<and> pipes s' = (pipes s)(Addr (next_addr s) \<mapsto> P) \<and> futures s' = futures s"
proof -
  let ?n = "next_addr s"
  let ?me = "Addr ?n" and ?rp = "Addr (Suc ?n)" and ?wp = "Addr (Suc (Suc ?n))"
  let ?P = "\<lparr>read_ready = True, write_ready = True, read_buf = None, read_nbytes = 0, read_promise = ?rp,
      write_buf = None, write_nbytes = 0, write_promise = ?wp, destruct_pointer = None\<rparr>"
  obtain s' where s': "pipe_new (sys E) se fd s = Inr (?me, s')" "pipes s' = (pipes s)(?me \<mapsto> ?P)"
     "registrants s' = registrants s @ [?me]" "os s' = k" "futures s' = futures s" "next_addr s' = Suc (Suc (Suc ?n))"
     "reg_fd s' = (reg_fd s)(?me \<mapsto> fd)"
     "lnodes s' = (lnodes s)(ListOf ?rp \<mapsto> self_node (ListOf ?rp), ListOf ?wp \<mapsto> self_node (ListOf ?wp))"
     "promises s' = (promises s)(?rp \<mapsto> \<lparr>pclass = OtherCancellable (PipeRead ?me), matching_future = None,
          attached_callback = None, attached_promise_ptr = None, backwards_pointed_promise = None\<rparr>,
        ?wp \<mapsto> \<lparr>pclass = OtherCancellable (PipeWrite ?me), matching_future = None,
          attached_callback = None, attached_promise_ptr = None, backwards_pointed_promise = None\<rparr>)"
    using ep add by (simp add: pipe_new_def registrant_new_def set_reg_fd_def register_for_epoll_def fd_has_value_def
        new_registrant_def)
  have "fresh_ok s'" unfolding fresh_ok_def
  proof (intro allI impI)
    fix m assume "next_addr s' \<le> m"
    then have m: "?n \<le> m" "m \<noteq> Suc ?n" "m \<noteq> Suc (Suc ?n)" using s'(6) by auto
    then show "unused s' (Addr m)" using fresh_okD [OF fresh m(1)] by (simp add: unused_def s')
  qed
  then have "pipe_ok s' ?me fd ?P None None"
    by (simp add: pipe_ok_def s' op_promise_def quiet_def)
  with s' show ?thesis by (intro exI [of _ s'] exI [of _ ?P]) simp
qed

text \<open>\<open>epoll_ctl\<close> with \<open>EPOLL_CTL_ADD\<close> does not fail.\<close>

definition epoll_add_ok :: "'os env \<Rightarrow> bool" where
  "epoll_add_ok E \<longleftrightarrow> (\<forall>ep fd ev r k. \<exists>k'. sys_epoll_add (sys E) ep fd ev r k = (Inr (), k'))"

definition same_objects where
  "same_objects s s' \<longleftrightarrow> pipes s' = pipes s \<and> registrants s' = registrants s \<and> futures s' = futures s
     \<and> promises s' = promises s \<and> next_addr s' = next_addr s"

definition made_pipe ::
  "('os \<Rightarrow> int set) \<Rightarrow> ('os, 'm) pipe_st_scheme \<Rightarrow> message_error + addr \<Rightarrow> ('os, 'm) pipe_st_scheme \<Rightarrow> int \<Rightarrow> bool" where
  "made_pipe tb s r s' fd \<longleftrightarrow> (case r of
     Inl _ \<Rightarrow> tb (os s') = tb (os s) - {fd} \<and> same_objects s s'
   | Inr p \<Rightarrow> tb (os s') = tb (os s) \<and> registrants s' = registrants s @ [p]
       \<and> (\<exists>P. pipe_ok s' p fd P None None \<and> read_ready P \<and> write_ready P))"

text \<open>The descriptor object given to \<open>make_pipe_or_socket_from_fd\<close> is destroyed by its owner
  afterwards.\<close>

lemma make_pipe_owns:
  assumes C: "fd_contract E tb" and A: "epoll_add_ok E" and fd: "0 \<le> fd" and s: "fresh_ok s" "epoll_fd s \<noteq> -1"
  shows "\<exists>r s'. bindM (make_pipe_or_socket_from_fd (sys E) (strerror E) fd ty) (\<lambda>(r, fd'). thenM (fd_destroy (sys E) fd') (ret r)) s
     = Inr (r, s') \<and> made_pipe tb s r s' fd"
proof -
  note [simp] = same_objects_def made_pipe_def
  have K: "tb (snd (sys_fstat_mode (sys E) fd k)) = tb k" "tb (snd (sys_getfl (sys E) fd k)) = tb k"
    "tb (snd (sys_setfl (sys E) fd fl k)) = tb k" "tb (snd (sys_close (sys E) fd k)) = tb k - {fd}"
    "tb (snd (sys_epoll_add (sys E) ep fd ev r k)) = tb k" for k fl ep ev r
    using C by (simp_all add: fd_contract_def keeps_def)
  have close: "\<exists>s'. thenM (fd_destroy (sys E) fd) (ret (Inl msg :: message_error + addr)) (s\<lparr>os := k\<rparr>) = Inr (Inl msg, s')
      \<and> made_pipe tb s (Inl msg) s' fd" if "tb k = tb (os s)" for k msg
    using K(4) [of k] that fd by (cases "sys_close (sys E) fd k") (simp add: fd_destroy_def)
  have new: "\<exists>p s'. bindM (pipe_new (sys E) (strerror E) fd) (\<lambda>p. thenM (fd_destroy (sys E) (-1)) (ret (Inr p :: message_error + addr)))
      (s\<lparr>os := k\<rparr>) = Inr (Inr p, s') \<and> made_pipe tb s (Inr p) s' fd"
    if k: "tb k = tb (os s)" for k
  proof -
    obtain k' where k': "sys_epoll_add (sys E) (epoll_fd s) fd (or (or EPOLLIN EPOLLOUT) EPOLLET) (Addr (next_addr s)) k = (Inr (), k')"
      using A unfolding epoll_add_ok_def by blast
    have "tb k' = tb (os s)" using K(5) [of "epoll_fd s" _ _ k] k k' by (metis snd_conv)
    with pipe_new_run [of "s\<lparr>os := k\<rparr>" E fd k' "strerror E"] s k' show ?thesis
      by (auto simp: fd_destroy_def fresh_ok_def unused_def)
  qed
  obtain r1 k1 where f: "sys_fstat_mode (sys E) fd (os s) = (r1, k1)" "tb k1 = tb (os s)" using K(1) by (metis prod.collapse)
  obtain r2 k2 where g: "sys_getfl (sys E) fd k1 = (r2, k2)" "tb k2 = tb (os s)" using K(2) f(2) by (metis prod.collapse)
  define fl where "fl = (case r2 of Inl _ \<Rightarrow> -1 | Inr fl \<Rightarrow> fl)"
  obtain r3 k3 where h: "sys_setfl (sys E) fd (or fl O_NONBLOCK) k2 = (r3, k3)" "tb k3 = tb (os s)" using K(3) g(2) by (metis prod.collapse)
  note runs = make_pipe_or_socket_from_fd_def f(1) g(1) h(1) fl_def [symmetric] Let_def fd_release_def
  let ?m = "bindM (make_pipe_or_socket_from_fd (sys E) (strerror E) fd ty) (\<lambda>(r, fd'). thenM (fd_destroy (sys E) fd') (ret r)) s"
  note [simp del] = made_pipe_def
  consider msg k where "tb k = tb (os s)" "?m = thenM (fd_destroy (sys E) fd) (ret (Inl msg :: message_error + addr)) (s\<lparr>os := k\<rparr>)"
    | k where "tb k = tb (os s)"
        "?m = bindM (pipe_new (sys E) (strerror E) fd) (\<lambda>p. thenM (fd_destroy (sys E) (-1)) (ret (Inr p :: message_error + addr))) (s\<lparr>os := k\<rparr>)"
  proof (cases r1)
    case (Inl e)
    with that(1) [OF f(2)] show ?thesis by (simp add: runs)
  next
    case (Inr st_mode)
    then show ?thesis
      using that(1) [OF f(2)] that(2) [OF g(2)] that(1) [OF h(2)] that(2) [OF h(2)]
      by (cases "and st_mode S_IFMT = ty"; cases "and fl O_NONBLOCK = 0"; cases r3) (simp_all add: runs bindM_assoc)
  qed
  then show ?thesis
  proof cases
    case (1 msg k)
    from close [OF 1(1), of msg] obtain s' where
      "thenM (fd_destroy (sys E) fd) (ret (Inl msg :: message_error + addr)) (s\<lparr>os := k\<rparr>) = Inr (Inl msg, s')" "made_pipe tb s (Inl msg) s' fd" by blast
    then show ?thesis unfolding 1(2) by (intro exI [of _ "Inl msg"] exI [of _ s'] conjI)
  next
    case (2 k)
    from new [OF 2(1)] obtain p s' where
      "bindM (pipe_new (sys E) (strerror E) fd) (\<lambda>p. thenM (fd_destroy (sys E) (-1)) (ret (Inr p :: message_error + addr))) (s\<lparr>os := k\<rparr>)
        = Inr (Inr p, s')" "made_pipe tb s (Inr p) s' fd" by blast
    then show ?thesis unfolding 2(2) by (intro exI [of _ "Inr p"] exI [of _ s'] conjI)
  qed
qed

text \<open>
  C35. A system call that is retried while it is interrupted terminates exactly when it is not
  interrupted for ever, with the result of the first call that is not interrupted; it diverges
  exactly when every number of calls in a row is interrupted.
\<close>

theorem retry_terminates:
  "(retry_eintr f k = Some (r, k') \<longleftrightarrow> (\<exists>n. interrupted f n k r k'))
   \<and> (retry_eintr f k = None \<longleftrightarrow> (\<forall>n. \<exists>k1. interruptions f n k k1))"
proof (intro conjI iffI)
  show "\<exists>n. interrupted f n k r k'" if "retry_eintr f k = Some (r, k')" using retry_eintr_result [OF that] .
  show "retry_eintr f k = Some (r, k')" if "\<exists>n. interrupted f n k r k'"
    using that by (auto intro: retry_eintr_interrupted)
  show "\<forall>n. \<exists>k1. interruptions f n k k1" if "retry_eintr f k = None" using diverges_interrupted [OF that] by blast
  show "retry_eintr f k = None" if always: "\<forall>n. \<exists>k1. interruptions f n k k1"
  proof (rule ccontr)
    assume "retry_eintr f k \<noteq> None"
    then obtain r k' where "retry_eintr f k = Some (r, k')" by auto
    from retry_eintr_result [OF this] obtain n where n: "interrupted f n k r k'" ..
    from always obtain k1 where "interruptions f (Suc n) k k1" by blast
    with interrupted_stops [OF n, of k1] show False by blast
  qed
qed


text \<open>A kernel whose state is its table of descriptors: the smallest free one is handed out, and every
  other call works.\<close>

definition table_sys :: "nat list syscalls" where
  "table_sys = idle_sys\<lparr>
     sys_open := (\<lambda>_ _ k. let n = Suc (foldr max k 0) in (Inr (int n), n # k)),
     sys_socket := (\<lambda>_ _ k. let n = Suc (foldr max k 0) in (Inr (int n), n # k)),
     sys_close := (\<lambda>fd k. (Inr (), filter (\<lambda>n. int n \<noteq> fd) k)),
     sys_getaddrinfo := (\<lambda>_ k. (Inr \<lparr>sa_family = AF_INET, sin_port = 0, sa_data = []\<rparr>, k)),
     sys_connect := (\<lambda>_ _ k. (Inr (), k)), sys_bind := (\<lambda>_ _ k. (Inr (), k)),
     sys_listen := (\<lambda>_ _ k. (Inl 98, k)), sys_getfl := (\<lambda>_ k. (Inr 2, k))\<rparr>"

definition table_env :: "nat list env" where
  "table_env = \<lparr>sys = table_sys, strerror = (\<lambda>_. ''error''), gai_strerror = (\<lambda>_. ''gai error'')\<rparr>"

definition ex_table :: "nat list \<Rightarrow> (unit, nat list) os_state" where
  "ex_table k = \<lparr>lnodes = Map.empty, os = k\<rparr>"

lemma max_bound: "n \<in> set k \<Longrightarrow> n < Suc (foldr max k (0 :: nat))"
  by (induction k) auto

lemma ends_immediate: "(\<And>k. fst (c k) \<noteq> Inl EINTR) \<Longrightarrow> ends c"
  unfolding ends_def by (metis option.distinct(1) prod.collapse retry_step_other)

lemma table_env_contract: "fd_contract table_env (\<lambda>k. int ` set k)" "getfl_blocking table_env"
proof -
  have fresh: "1 + int (foldr max k 0) \<notin> int ` set k" for k
    using max_bound by fastforce
  show "fd_contract table_env (\<lambda>k. int ` set k)"
    unfolding fd_contract_def gives_fd_def opened_def keeps_def
    by (intro conjI allI ends_immediate)
      (auto simp: table_env_def table_sys_def idle_sys_def Let_def gai_call_def EINTR_def EAGAIN_def fresh)
  show "getfl_blocking table_env"
    by (simp add: getfl_blocking_def table_env_def table_sys_def O_NONBLOCK_def)
qed



definition table_pipe_st :: "nat list \<Rightarrow> nat list pipe_st" where
  "table_pipe_st k = \<lparr>lnodes = Map.empty, os = k, epoll_fd = 1, mid_step = False, registrants = [], enqueued_actions = [],
     spare_actions_buf = [], regs = Map.empty, reg_fd = Map.empty, futures = Map.empty, promises = Map.empty, next_addr = 0,
     wait_states = Map.empty, mem = Map.empty, flags = Map.empty, pipes = Map.empty\<rparr>"


end
