(* ===== verification/Source.thy ===== *)
theory Source
  imports PipeProps
begin

text \<open>
  Descriptors with one operation and no buffer: the signal descriptor and the listening socket. The
  locale \<open>source_laws\<close> says what such a class does with its flag and its promise; from it follow the
  laws of an endpoint.
\<close>

section \<open>The endpoint of a source\<close>

text \<open>\<open>obj\<close> reads the flag and the promise of the object.\<close>

definition source_end ::
  "('os, 'm) prog prog_hooks \<Rightarrow> nat \<Rightarrow> (('os, 'm) prog \<Rightarrow> (bool \<times> addr) option) \<Rightarrow> (addr \<Rightarrow> (('os, 'm) prog, unit) M)
     \<Rightarrow> (('os, 'm) prog, unit) M \<Rightarrow> (('os, 'm) prog, 'os) endpoint" where
  "source_end H n obj start ev = \<lparr>
     ep_request = bindM alloc (\<lambda>f. thenM (start f) (ret f)),
     ep_event = ev,
     ep_cancel = future_cancel H n,
     ep_arrive = (\<lambda>k s. s\<lparr>os := k\<rparr>),
     ep_ready = (\<lambda>s. case obj s of None \<Rightarrow> False | Some (b, p) \<Rightarrow> b),
     ep_pending = (\<lambda>s. case obj s of None \<Rightarrow> None | Some (b, p) \<Rightarrow> waiting_for s p)\<rparr>"

text \<open>A well-formed object with its descriptor, and the future \<open>r\<close> that waits.\<close>

definition source_ok ::
  "(('os, 'm) prog \<Rightarrow> (bool \<times> addr) option) \<Rightarrow> addr \<Rightarrow> Fd \<Rightarrow> ('os, 'm) prog \<Rightarrow> bool \<Rightarrow> addr \<Rightarrow> addr option \<Rightarrow> bool" where
  "source_ok obj this fd s b p r \<longleftrightarrow> fresh_ok s \<and> reg_fd s this = Some fd \<and> obj s = Some (b, p)
     \<and> op_promise s p r \<and> map_option pclass (promises s p) = Some DefaultCancellable"

lemma source_okD:
  assumes "source_ok obj this fd s b p r"
  shows "fresh_ok s" "reg_fd s this = Some fd" "obj s = Some (b, p)" "op_promise s p r"
    "map_option pclass (promises s p) = Some DefaultCancellable" "waiting_for s p = r"
  using assms by (simp_all add: source_ok_def op_promise_waiting_for)

lemma default_cancel:
  assumes p: "op_promise s p (Some f)" and fresh: "fresh_ok s" and c: "map_option pclass (promises s p) = Some DefaultCancellable"
    and n: "0 < n"
  defines "t \<equiv> s\<lparr>promises := (promises s)(p := map_option cleared (promises s p)), futures := (futures s)(f \<mapsto> empty_future)\<rparr>"
  shows "future_cancel H n f s = Inr ((), t)" and "fresh_ok t" and "op_promise t p None"
    and "map_option pclass (promises t p) = Some DefaultCancellable"
proof -
  obtain R where R: "promises s p = Some R" "pclass R = DefaultCancellable" "quiet s p" "futures s f \<noteq> None"
    using p c by (auto simp: op_promise_def)
  obtain m where m: "n = Suc m" using n by (cases n) auto
  have "prom_cancel H n p t = Inr ((), t)"
    using R(3) by (simp add: m t_def R(1,2) cleared_def prom_default_constructed_def default_but_completions_def quiet_def)
  then show "future_cancel H n f s = Inr ((), t)" unfolding t_def by (rule cancel_op [OF p R(1)]) simp
  show "fresh_ok t" unfolding fresh_ok_def
  proof (intro allI impI)
    fix k assume "next_addr t \<le> k"
    then have "next_addr s \<le> k" by (simp add: t_def)
    from fresh_okD [OF fresh this] R show "unused t (Addr k)" by (auto simp: unused_def t_def)
  qed
  show "op_promise t p None" using p R by (auto simp: op_promise_def quiet_def cleared_def t_def)
  show "map_option pclass (promises t p) = Some DefaultCancellable" using R by (simp add: t_def cleared_def)
qed

section \<open>The contract of a source\<close>

text \<open>\<open>mark b\<close> sets the flag. An attempt finds nothing, fails, or gives a value; in the first two cases
  it clears the flag and the descriptor is stalled. \<open>apt\<close> stands for the conditions on the kernel, the
  bits of the event and the fuel.\<close>

locale source_laws =
  fixes H :: "('os, 'm) prog prog_hooks" and n :: nat and this :: addr and fd :: Fd
    and obj :: "('os, 'm) prog \<Rightarrow> (bool \<times> addr) option" and mark :: "bool \<Rightarrow> ('os, 'm) prog \<Rightarrow> ('os, 'm) prog"
    and attempt :: "(('os, 'm) prog, unit) M" and start :: "addr \<Rightarrow> (('os, 'm) prog, unit) M"
    and ev :: "(('os, 'm) prog, unit) M" and stalled :: "'os \<Rightarrow> bool" and apt :: bool
  assumes obj_other: "obj (s\<lparr>os := k\<rparr>) = obj s" "obj (s\<lparr>next_addr := a\<rparr>) = obj s"
      "obj (s\<lparr>promises := R\<rparr>) = obj s" "obj (s\<lparr>futures := F\<rparr>) = obj s"
    and obj_mark: "obj s = Some (b, p) \<Longrightarrow> obj (mark c s) = Some (c, p)"
    and mark_other: "promises (mark c s) = promises s" "futures (mark c s) = futures s" "lnodes (mark c s) = lnodes s"
      "next_addr (mark c s) = next_addr s" "reg_fd (mark c s) = reg_fd s" "os (mark c s) = os s"
    and start: "obj s = Some (b, p) \<Longrightarrow> op_promise s p None \<Longrightarrow> obj (started f p s) = Some (b, p)
      \<Longrightarrow> start f s = whenM b attempt (started f p s)"
    and event: "apt \<Longrightarrow> obj s = Some (b, p) \<Longrightarrow> op_promise s p r
      \<Longrightarrow> ev s = (if b then Inr ((), s) else whenM (r \<noteq> None) attempt (mark True s))"
    and attempt: "apt \<Longrightarrow> source_ok obj this fd s True p (Some f)
      \<Longrightarrow> \<exists>k s'. attempt s = Inr ((), s')
        \<and> (s' = mark False (s\<lparr>os := k\<rparr>) \<and> stalled k \<or> (\<exists>v. s' = supplied f p v (mark False (s\<lparr>os := k\<rparr>)) \<and> stalled k)
           \<or> (\<exists>v. s' = supplied f p v (s\<lparr>os := k\<rparr>)))"
    and fuel: "apt \<Longrightarrow> 0 < n"
begin

lemma obj_ops: "obj (supplied f p v s) = obj s" "obj (started f p s) = obj s"
  by (simp_all add: supplied_def started_def obj_other)

lemma ok_mark: "source_ok obj this fd s b p r \<Longrightarrow> source_ok obj this fd (mark c s) c p r"
  using op_promise_cong [OF mark_other(1-3)] fresh_ok_cong [OF mark_other(1-4)]
  by (simp add: source_ok_def mark_other obj_mark)

lemma ok_os: "source_ok obj this fd s b p r \<Longrightarrow> source_ok obj this fd (s\<lparr>os := k\<rparr>) b p r"
  by (simp add: source_ok_def obj_other fresh_ok_def unused_def op_promise_def quiet_def)

lemma ok_supplied: "source_ok obj this fd s b p (Some f) \<Longrightarrow> source_ok obj this fd (supplied f p v s) b p None"
  unfolding source_ok_def obj_ops supplied_fields using fresh_ok_supplied_op op_promise_supplied by blast

lemma try_cases:
  assumes a: "apt" and ok: "source_ok obj this fd s True p (Some f)"
  obtains s' b r where "attempt s = Inr ((), s')" "source_ok obj this fd s' b p r"
    "r = None \<or> r = Some f \<and> \<not> b" "b \<or> stalled (os s')"
proof -
  obtain k s' where run: "attempt s = Inr ((), s')"
    and s': "s' = mark False (s\<lparr>os := k\<rparr>) \<and> stalled k \<or> (\<exists>v. s' = supplied f p v (mark False (s\<lparr>os := k\<rparr>)) \<and> stalled k)
       \<or> (\<exists>v. s' = supplied f p v (s\<lparr>os := k\<rparr>))"
    using attempt [OF a ok] by blast
  have m: "source_ok obj this fd (mark False (s\<lparr>os := k\<rparr>)) False p (Some f)" by (rule ok_mark [OF ok_os [OF ok]])
  from s' show ?thesis
  proof (elim disjE exE conjE)
    assume "s' = mark False (s\<lparr>os := k\<rparr>)" "stalled k"
    with run m show ?thesis by (intro that [of s' False "Some f"]) (simp_all add: mark_other)
  next
    fix v assume "s' = supplied f p v (mark False (s\<lparr>os := k\<rparr>))" "stalled k"
    with run ok_supplied [OF m] show ?thesis by (intro that [of s' False None]) (simp_all add: mark_other)
  next
    fix v assume "s' = supplied f p v (s\<lparr>os := k\<rparr>)"
    with run ok_supplied [OF ok_os [OF ok]] show ?thesis by (intro that [of s' True None]) simp_all
  qed
qed

abbreviation A :: "(('os, 'm) prog, 'os) endpoint" where
  "A \<equiv> source_end H n obj start ev"

definition good :: "('os, 'm) prog \<Rightarrow> bool" where
  "good s \<longleftrightarrow> apt \<and> (\<exists>b p r. source_ok obj this fd s b p r)"

lemma end_simps:
  "ep_request A = bindM alloc (\<lambda>f. thenM (start f) (ret f))" "ep_event A = ev" "ep_cancel A = future_cancel H n"
  "ep_arrive A k s = s\<lparr>os := k\<rparr>"
  by (simp_all add: source_end_def)

lemma end_state: "source_ok obj this fd s b p r \<Longrightarrow> ep_ready A s = b" "source_ok obj this fd s b p r \<Longrightarrow> ep_pending A s = r"
  by (simp_all add: source_end_def source_ok_def op_promise_waiting_for)

lemma goodI: "apt \<Longrightarrow> source_ok obj this fd s b p r \<Longrightarrow> good s"
  unfolding good_def by blast

lemma source_request:
  assumes a: "apt" and ok: "source_ok obj this fd s b p None"
  shows "\<exists>f s' b' r. bindM alloc (\<lambda>f. thenM (start f) (ret f)) s = Inr (f, s') \<and> source_ok obj this fd s' b' p r
     \<and> (if b then b' \<or> stalled (os s') else \<not> b' \<and> os s' = os s) \<and> (r = None \<or> r = Some f \<and> \<not> b')"
proof -
  let ?f = "Addr (next_addr s)" and ?s0 = "s\<lparr>next_addr := Suc (next_addr s)\<rparr>"
  let ?s1 = "started ?f p ?s0"
  have p: "op_promise ?s0 p None" "fresh_ok ?s0" "obj ?s0 = Some (b, p)" using source_okD [OF ok]
    by (simp_all add: fresh_ok_alloc op_promise_def quiet_def obj_other)
  have "fresh_ok ?s1" by (rule fresh_ok_started [OF p(1,2)]) simp
  moreover have "op_promise ?s1 p (Some ?f)" by (rule op_promise_started [OF p(1)])
  ultimately have ok1: "source_ok obj this fd ?s1 b p (Some ?f)"
    using source_okD [OF ok] unfolding source_ok_def obj_ops started_fields by (simp add: obj_other)
  have "start ?f ?s0 = whenM b attempt ?s1" by (rule start [OF p(3,1)]) (simp add: obj_ops p(3))
  then have run: "bindM alloc (\<lambda>f. thenM (start f) (ret f)) s = thenM (whenM b attempt) (ret ?f) ?s1"
    by (simp add: thenM_def bindM_def)
  show ?thesis
  proof (cases b)
    case True
    obtain s' b' r where "attempt ?s1 = Inr ((), s')" "source_ok obj this fd s' b' p r"
      "r = None \<or> r = Some ?f \<and> \<not> b'" "b' \<or> stalled (os s')"
      by (rule try_cases [OF a ok1 [unfolded True eqTrueI [OF True]]])
    with run True show ?thesis by (auto simp: whenM_def)
  next
    case False
    with run ok1 show ?thesis by (intro exI [of _ ?f] exI [of _ ?s1] exI [of _ False] exI [of _ "Some ?f"]) simp
  qed
qed

lemma source_event:
  assumes a: "apt" and ok: "source_ok obj this fd s b p r" and r: "r \<noteq> None \<longrightarrow> \<not> b"
  shows "\<exists>s' b' r'. ev s = Inr ((), s') \<and> source_ok obj this fd s' b' p r'
     \<and> (b' \<or> stalled (os s')) \<and> (r' = None \<or> r' = r \<and> \<not> b')"
proof (cases b)
  case True
  with r ok event [OF a source_okD(3,4) [OF ok]] show ?thesis by auto
next
  case False
  have run: "ev s = whenM (r \<noteq> None) attempt (mark True s)"
    using event [OF a source_okD(3,4) [OF ok]] False by simp
  have ok1: "source_ok obj this fd (mark True s) True p r" by (rule ok_mark [OF ok])
  show ?thesis
  proof (cases r)
    case None
    with run ok1 show ?thesis by auto
  next
    case (Some f)
    obtain s' b' r' where "attempt (mark True s) = Inr ((), s')" "source_ok obj this fd s' b' p r'"
      "r' = None \<or> r' = Some f \<and> \<not> b'" "b' \<or> stalled (os s')"
      by (rule try_cases [OF a ok1 [unfolded Some]])
    with run Some show ?thesis by auto
  qed
qed

end

sublocale source_laws \<subseteq> wake: endpoint_laws A "\<lambda>s. stalled (os s)" good
proof
  fix s assume "good s" and idle: "ep_pending A s = None"
  then obtain b p where a: "apt" and ok: "source_ok obj this fd s b p None" using end_state by (fastforce simp: good_def)
  from source_request [OF a ok] obtain f s' b' r where "bindM alloc (\<lambda>f. thenM (start f) (ret f)) s = Inr (f, s')"
    "source_ok obj this fd s' b' p r" "if b then b' \<or> stalled (os s') else \<not> b' \<and> os s' = os s"
    "r = None \<or> r = Some f \<and> \<not> b'" by blast
  with goodI [OF a, of s' b' p r] end_state [OF ok] end_state [of s' b' p r]
  show "\<exists>f s'. ep_request A s = Inr (f, s') \<and> good s'
      \<and> (if ep_ready A s then ep_ready A s' \<or> stalled (os s')
         else \<not> ep_ready A s' \<and> (stalled (os s) \<longrightarrow> stalled (os s')))
      \<and> (ep_pending A s' = None \<or> ep_pending A s' = Some f \<and> \<not> ep_ready A s')"
    by (intro exI [of _ f] exI [of _ s']) (auto simp: end_simps split: if_splits)
next
  fix s assume "good s" and r: "ep_pending A s \<noteq> None \<longrightarrow> \<not> ep_ready A s"
  then obtain b p r where a: "apt" and ok: "source_ok obj this fd s b p r" by (auto simp: good_def)
  with r end_state [OF ok] have "r \<noteq> None \<longrightarrow> \<not> b" by simp
  from source_event [OF a ok this] obtain s' b' r' where "ev s = Inr ((), s')" "source_ok obj this fd s' b' p r'"
    "b' \<or> stalled (os s')" "r' = None \<or> r' = r \<and> \<not> b'" by blast
  with goodI [OF a, of s' b' p r'] end_state [OF ok] end_state [of s' b' p r']
  show "\<exists>s'. ep_event A s = Inr ((), s') \<and> good s' \<and> (ep_ready A s' \<or> stalled (os s'))
      \<and> (ep_pending A s' = None \<or> ep_pending A s' = ep_pending A s \<and> \<not> ep_ready A s')"
    by (intro exI [of _ s']) (auto simp: end_simps)
next
  fix s f assume "good s" and f: "ep_pending A s = Some f"
  then obtain b p where a: "apt" and ok: "source_ok obj this fd s b p (Some f)" using end_state by (fastforce simp: good_def)
  let ?t = "s\<lparr>promises := (promises s)(p := map_option cleared (promises s p)), futures := (futures s)(f \<mapsto> empty_future)\<rparr>"
  note c = default_cancel [OF source_okD(4,1,5) [OF ok] fuel [OF a]]
  have "source_ok obj this fd ?t b p None" using c(2-4) source_okD [OF ok] unfolding source_ok_def by (simp add: obj_other)
  with c(1) goodI [OF a, of ?t b p None] end_state [OF ok] end_state [of ?t b p None]
  show "\<exists>s'. ep_cancel A f s = Inr ((), s') \<and> good s' \<and> ep_ready A s' = ep_ready A s
      \<and> stalled (os s') = stalled (os s) \<and> ep_pending A s' = None"
    by (intro exI [of _ ?t]) (auto simp: end_simps)
next
  fix s :: "('os, 'm) prog" and k :: 'os
  assume "good s"
  then obtain b p r where a: "apt" and ok: "source_ok obj this fd s b p r" by (auto simp: good_def)
  with goodI [OF a ok_os [OF ok]] end_state [OF ok] end_state [OF ok_os [OF ok]]
  show "good (ep_arrive A k s) \<and> ep_ready A (ep_arrive A k s) = ep_ready A s \<and> ep_pending A (ep_arrive A k s) = ep_pending A s"
    by (auto simp: end_simps)
qed

end
