(* ===== verification/SignalProps.thy ===== *)
theory SignalProps
  imports SignalFd Source
begin

text \<open>Reading signals is a source in the sense of \<open>Source\<close>.\<close>

section \<open>Access\<close>

lemma get_sig_run [simp]: "signal_fds s this = Some P \<Longrightarrow> get_sig this s = Inr (P, s)"
  by (simp add: get_sig_def)

lemma upd_sig_run [simp]:
  "signal_fds s this = Some P \<Longrightarrow> upd_sig this g s = Inr ((), s\<lparr>signal_fds := (signal_fds s)(this \<mapsto> g P)\<rparr>)"
  by (simp add: upd_sig_def put_sig_def)

definition signal_obj :: "addr \<Rightarrow> ('os, 'm) sig_st_scheme \<Rightarrow> (bool \<times> addr) option" where
  "signal_obj this s = map_option (\<lambda>P. (sig_read_ready P, sig_read_promise P)) (signal_fds s this)"

definition signal_mark :: "addr \<Rightarrow> bool \<Rightarrow> ('os, 'm) sig_st_scheme \<Rightarrow> ('os, 'm) sig_st_scheme" where
  "signal_mark this b s =
     s\<lparr>signal_fds := (signal_fds s)(this := map_option (sig_read_ready_update (\<lambda>_. b)) (signal_fds s this))\<rparr>"

lemma signal_mark_run:
  "signal_fds s this = Some P \<Longrightarrow>
   signal_mark this b s = s\<lparr>signal_fds := (signal_fds s)(this \<mapsto> P\<lparr>sig_read_ready := b\<rparr>)\<rparr>"
  by (simp add: signal_mark_def)

section \<open>An attempt to read\<close>

text \<open>The kernel gives whole records, does not interrupt a call for ever, and after a failure the
  descriptor is stalled.\<close>

definition signal_contract :: "'os syscalls \<Rightarrow> Fd \<Rightarrow> ('os \<Rightarrow> bool) \<Rightarrow> bool" where
  "signal_contract sys fd stalled \<longleftrightarrow> (\<forall>k. \<exists>r k'. retry_eintr (sys_read_siginfo sys fd) k = Some (r, k')
     \<and> (case r of Inl e \<Rightarrow> stalled k' | Inr (len, signo) \<Rightarrow> len = 128))"

lemma try_signal_run:
  assumes ok: "source_ok (signal_obj this) this fd s True p (Some f)" and n: "2 \<le> n"
    and k: "retry_eintr (sys_read_siginfo sys fd) (os s) = Some (res, k)"
    and len: "\<And>l sg. res = Inr (l, sg) \<Longrightarrow> l = 128"
  shows "sig_try_doing_read sys H n this s = Inr ((), case res of
      Inl e \<Rightarrow> (if e = EAGAIN then signal_mark this False (s\<lparr>os := k\<rparr>)
        else supplied f p (VSignal (Inl (mk_error ''read'' e))) (signal_mark this False (s\<lparr>os := k\<rparr>)))
    | Inr (l, signo) \<Rightarrow> supplied f p (VSignal (Inr signo)) (s\<lparr>os := k\<rparr>))"
proof -
  obtain P where P: "signal_fds s this = Some P" "sig_read_ready P" "sig_read_promise P = p"
    using source_okD(3) [OF ok] by (auto simp: signal_obj_def)
  obtain R where R: "promises s p = Some R" "prom_is_active R"
    using source_okD(4) [OF ok] by (auto simp: op_promise_def prom_is_active_def default_but_completions_def)
  have sup: "supply_value_and_detach H n p v t = Inr ((), supplied f p v t)"
    if "promises t = promises s" "futures t = futures s" "lnodes t = lnodes s" "next_addr t = next_addr s" for v t
    using supply_op [of t p f n H v] source_okD(1,4) [OF ok] n op_promise_cong [OF that(1-3)] fresh_ok_cong [OF that] by simp
  show ?thesis using k len
    by (auto simp: sig_try_doing_read_def P R source_okD(2) [OF ok] signal_mark_run sup EWOULDBLOCK_def EAGAIN_def
        split: sum.split prod.split)
qed

text \<open>The conditions under which the descriptor is used.\<close>

definition signal_apt :: "'os syscalls \<Rightarrow> nat \<Rightarrow> Fd \<Rightarrow> u32 \<Rightarrow> ('os \<Rightarrow> bool) \<Rightarrow> bool" where
  "signal_apt sys n fd ev stalled \<longleftrightarrow> 2 \<le> n \<and> read_bits ev \<and> signal_contract sys fd stalled"

interpretation signals: source_laws H n this fd "signal_obj this" "signal_mark this" "sig_try_doing_read sys H n this"
  "sig_read sys H n this" "sig_on_update sys H n this ev" stalled "signal_apt sys n fd ev stalled"
proof
  fix s :: "('a, 'b) sig_st_scheme" and p f
  assume a: "signal_apt sys n fd ev stalled" and ok: "source_ok (signal_obj this) this fd s True p (Some f)"
  obtain res k where k: "retry_eintr (sys_read_siginfo sys fd) (os s) = Some (res, k)"
    and res: "case res of Inl e \<Rightarrow> stalled k | Inr (len, signo) \<Rightarrow> len = 128"
    using a unfolding signal_apt_def signal_contract_def by blast
  have "2 \<le> n" using a by (simp add: signal_apt_def)
  from try_signal_run [OF ok this k, of H] res
  show "\<exists>k s'. sig_try_doing_read sys H n this s = Inr ((), s')
      \<and> (s' = signal_mark this False (s\<lparr>os := k\<rparr>) \<and> stalled k
         \<or> (\<exists>v. s' = supplied f p v (signal_mark this False (s\<lparr>os := k\<rparr>)) \<and> stalled k)
         \<or> (\<exists>v. s' = supplied f p v (s\<lparr>os := k\<rparr>)))"
    by (intro exI [of _ k]) (auto split: sum.splits prod.splits)
next
  fix s :: "('a, 'b) sig_st_scheme" and b p f
  assume "signal_obj this s = Some (b, p)" and p: "op_promise s p None" and "signal_obj this (started f p s) = Some (b, p)"
  then obtain P R where "signal_fds s this = Some P" "sig_read_ready P = b" "sig_read_promise P = p"
    "promises s p = Some R" "default_but_completions R"
    by (auto simp: signal_obj_def op_promise_def default_but_completions_def)
  then show "sig_read sys H n this f s = whenM b (sig_try_doing_read sys H n this) (started f p s)"
    by (simp add: sig_read_def start_op [OF p])
next
  fix s :: "('a, 'b) sig_st_scheme" and b p r
  assume a: "signal_apt sys n fd ev stalled" and o: "signal_obj this s = Some (b, p)" and p: "op_promise s p r"
  obtain P where P: "signal_fds s this = Some P" "sig_read_ready P = b" "sig_read_promise P = p"
    using o by (auto simp: signal_obj_def)
  obtain R where R: "promises s p = Some R" "prom_is_active R \<longleftrightarrow> r \<noteq> None"
    using p by (fastforce simp: op_promise_def prom_is_active_def default_but_completions_def)
  show "sig_on_update sys H n this ev s
      = (if b then Inr ((), s) else whenM (r \<noteq> None) (sig_try_doing_read sys H n this) (signal_mark this True s))"
    using a P R unfolding signal_apt_def sig_on_update_def
    by (simp add: whenM_def) (simp add: signal_mark_run whenM_def)
qed (auto simp: signal_obj_def signal_mark_def signal_apt_def)

definition signal_end ::
  "'os syscalls \<Rightarrow> ('os, 'm) sig_st_scheme prog_hooks \<Rightarrow> nat \<Rightarrow> addr \<Rightarrow> u32 \<Rightarrow> (('os, 'm) sig_st_scheme, 'os) endpoint" where
  "signal_end sys H n this ev = source_end H n (signal_obj this) (sig_read sys H n this) (sig_on_update sys H n this ev)"

section \<open>A kernel with a queue of signals\<close>

definition signal_sys :: "u32 list syscalls" where
  "signal_sys = idle_sys\<lparr>sys_read_siginfo := (\<lambda>fd k. case k of [] \<Rightarrow> (Inl EAGAIN, k) | g # gs \<Rightarrow> (Inr (128, g), gs))\<rparr>"

lemma signal_sys_contract: "signal_contract signal_sys fd (\<lambda>k. k = [])"
  unfolding signal_contract_def
proof
  fix k :: "u32 list"
  show "\<exists>r k'. retry_eintr (sys_read_siginfo signal_sys fd) k = Some (r, k')
     \<and> (case r of Inl e \<Rightarrow> k' = [] | Inr (len, signo) \<Rightarrow> len = 128)"
  proof (cases k)
    case Nil
    then show ?thesis by (intro exI [of _ "Inl EAGAIN"] exI [of _ "[]"]) (simp add: signal_sys_def EAGAIN_def EINTR_def)
  next
    case (Cons g gs)
    then show ?thesis by (intro exI [of _ "Inr (128, g)"] exI [of _ gs]) (simp add: signal_sys_def)
  qed
qed

definition ex_signal :: "u32 list \<Rightarrow> u32 list sig_st" where
  "ex_signal k = \<lparr>lnodes = [ListOf (Addr 1) \<mapsto> self_node (ListOf (Addr 1))],
     os = k, epoll_fd = 3, mid_step = False, registrants = [Addr 0], enqueued_actions = [], spare_actions_buf = [],
     regs = [Addr 0 \<mapsto> \<lparr>loop_ptr = Some (), registered_index = 0\<rparr>], reg_fd = [Addr 0 \<mapsto> 5],
     futures = Map.empty, promises = [
       Addr 1 \<mapsto> \<lparr>pclass = DefaultCancellable, matching_future = None, attached_callback = None,
          attached_promise_ptr = None, backwards_pointed_promise = None\<rparr>],
     next_addr = 2, wait_states = Map.empty, mem = Map.empty, flags = Map.empty, pipes = Map.empty,
     signal_fds = [Addr 0 \<mapsto> \<lparr>sig_read_ready = True, sig_read_promise = Addr 1\<rparr>]\<rparr>"

lemma ex_signal_ok: "source_ok (signal_obj (Addr 0)) (Addr 0) 5 (ex_signal k) True (Addr 1) None"
  by (auto simp: source_ok_def signal_obj_def ex_signal_def op_promise_def quiet_def fresh_ok_def unused_def)

section \<open>Properties\<close>

text \<open>
  C27. No signal is waited for in vain. However requests to read a signal, cancellations, events and
  arrivals of signals follow each other, no assertion of \<open>SignalFd\<close> fails; a request waits only while
  the descriptor is marked as not ready; and if one waits although a signal can be read, the kernel
  still owes an event, at which the request completes or finds nothing to read.
\<close>

theorem signal_no_lost_wakeup:
  assumes "source_ok (signal_obj this) this fd s True p None"
    and "signal_contract sys fd stalled" and "read_bits ev" and "2 \<le> n"
  shows "\<exists>s' owed. wake_run (signal_end sys H n this ev) (\<lambda>s. stalled (os s)) xs (s, False) = Inr (s', owed)
     \<and> (ep_pending (signal_end sys H n this ev) s' \<noteq> None \<longrightarrow>
          \<not> ep_ready (signal_end sys H n this ev) s' \<and> (\<not> stalled (os s') \<longrightarrow> owed))
     \<and> (\<exists>s''. sig_on_update sys H n this ev s' = Inr ((), s'')
          \<and> (ep_pending (signal_end sys H n this ev) s'' = None
             \<or> ep_pending (signal_end sys H n this ev) s'' = ep_pending (signal_end sys H n this ev) s'
               \<and> stalled (os s'')))"
proof -
  have apt: "signal_apt sys n fd ev stalled" using assms(2-4) by (simp add: signal_apt_def)
  have A: "ep_event (signal_end sys H n this ev) = sig_on_update sys H n this ev"
    by (simp add: signal_end_def source_end_def)
  have "ep_ready (signal_end sys H n this ev) s" "ep_pending (signal_end sys H n this ev) s = None"
    using signals.end_state [OF assms(1)] by (simp_all add: signal_end_def)
  then show ?thesis
    using signals.wake.no_lost_wakeup [OF signals.goodI [OF apt assms(1)], where H = H and xs = xs]
    unfolding signal_end_def [symmetric] A by metis
qed

theorem signal_no_lost_wakeup_witness:
  "\<exists>s' owed s''. wake_run (signal_end signal_sys pipe_hooks 5 (Addr 0) EPOLLIN) (\<lambda>s. os s = [])
       [Request, Arrive [SIGINT], Event, Request, Cancel, Arrive [SIGTERM, SIGINT], Request] (ex_signal [], False) = Inr (s', owed)
     \<and> sig_on_update signal_sys pipe_hooks 5 (Addr 0) EPOLLIN s' = Inr ((), s'')"
proof -
  have "read_bits EPOLLIN" "(2 :: nat) \<le> 5" by (simp_all add: has_event_def EPOLLIN_def EPOLLHUP_def EPOLLERR_def)
  then show ?thesis
    using signal_no_lost_wakeup [OF ex_signal_ok signal_sys_contract, of EPOLLIN 5 pipe_hooks
      "[Request, Arrive [SIGINT], Event, Request, Cancel, Arrive [SIGTERM, SIGINT], Request]" "[]"]
    by blast
qed

end
