(* ===== verification/PipeClose.thy ===== *)
theory PipeClose
  imports PipeProps
begin

text \<open>
  Closing a pipe, and a callback of a read that closes the pipe in the middle of its \<open>on_update\<close>.
\<close>

lemma thenM_ret_unit: "thenM a (ret ()) = a"
proof -
  have "(\<lambda>_ :: unit. ret ()) = ret" by (rule ext) simp
  then show ?thesis by (simp add: thenM_def)
qed

section \<open>\<open>Pipe::close\<close>\<close>

lemma deregister_frame:
  assumes "\<And>s k. f (s\<lparr>os := k\<rparr>) = f s" "\<And>s R. f (s\<lparr>regs := R\<rparr>) = f s" "\<And>s rs. f (s\<lparr>registrants := rs\<rparr>) = f s"
    "\<And>s R. f (s\<lparr>reg_fd := R\<rparr>) = f s"
  shows "preserves f (deregister_and_close sys this)"
  unfolding deregister_and_close_def get_reg_fd_def set_reg_fd_def fd_release_def
  using assms by (intro preserve_intros) (auto intro!: preserve_intros simp: preserves_def split: option.splits)

lemma deregister_ok:
  assumes "loop_wf s" and "in_service s this fd" and k: "sys_epoll_del sys (epoll_fd s) fd (os s) = (Inr (), k)"
  obtains c s' where "deregister_and_close sys this s = Inr (Inr c, s')" "loop_wf s'" "reg_fd s' this = Some (-1)"
    "set (registrants s') = set (registrants s) - {this}" "os s' = snd (sys_close sys fd k)"
proof -
  from deregister_and_close_spec [OF assms(1,2), of sys] obtain res s1 where
    s1: "deregister_and_close sys this s = Inr (res, s1)" "loop_wf s1" "reg_fd s1 this = Some (-1)"
      "case res of
         Inl _ \<Rightarrow> set (registrants s1) = set (registrants s)
           \<and> sys_epoll_del sys (epoll_fd s) fd (os s) = (Inl (errsv (projl res)), os s1)
       | Inr c \<Rightarrow> set (registrants s1) = set (registrants s) - {this} \<and> unregistered s1 this
           \<and> (\<exists>k r. sys_epoll_del sys (epoll_fd s) fd (os s) = (Inr (), k)
               \<and> sys_close sys fd k = (r, os s1) \<and> close_errno c = (case r of Inl e \<Rightarrow> e | Inr _ \<Rightarrow> 0))"
    by blast
  obtain c where c: "res = Inr c" using k s1(4) by (cases res) auto
  from s1(4) obtain k' r where r: "set (registrants s1) = set (registrants s) - {this}"
    "sys_epoll_del sys (epoll_fd s) fd (os s) = (Inr (), k')" "sys_close sys fd k' = (r, os s1)"
    unfolding c by auto
  with k have "os s1 = snd (sys_close sys fd k)" by simp
  with r(1) s1(1-3) c show ?thesis by (intro that) simp_all
qed

text \<open>The object with both promises free, on a loop that can deregister it.\<close>

definition pipe_closable :: "('os, 'm) pipe_st_scheme \<Rightarrow> addr \<Rightarrow> Fd \<Rightarrow> pipe \<Rightarrow> bool" where
  "pipe_closable s this fd P \<longleftrightarrow> loop_wf s \<and> in_service s this fd \<and> pipes s this = Some P
     \<and> read_promise P \<noteq> write_promise P
     \<and> (\<forall>p \<in> {read_promise P, write_promise P}. quiet s p \<and> map_option default_but_completions (promises s p) = Some True)"

lemma registrant_destroy_released:
  "reg_fd s this = Some (-1) \<Longrightarrow> registrant_destroy sys strerror this s
     = Inr ((), s\<lparr>regs := (regs s)(this := None), reg_fd := (reg_fd s)(this := None)\<rparr>)"
  by (simp add: registrant_destroy_def fd_has_value_def fd_destroy_def)

text \<open>What closing changes: the kernel, the registry, the object and its promises, the flag of an
  \<open>on_update\<close> under way, and the future.\<close>

definition closed_pipe ::
  "'os syscalls \<Rightarrow> ('os, 'm) pipe_st_scheme \<Rightarrow> addr \<Rightarrow> Fd \<Rightarrow> pipe \<Rightarrow> ('os, 'm) pipe_st_scheme \<Rightarrow> bool" where
  "closed_pipe sys s this fd P s' \<longleftrightarrow> loop_wf s' \<and> set (registrants s') = set (registrants s) - {this}
     \<and> regs s' this = None \<and> reg_fd s' this = None \<and> pipes s' = (pipes s)(this := None)
     \<and> promises s' = (promises s)(write_promise P := None, read_promise P := None)
     \<and> flags s' = (case destruct_pointer P of None \<Rightarrow> flags s | Some d \<Rightarrow> (flags s)(d \<mapsto> True))
     \<and> os s' = snd (sys_close sys fd (snd (sys_epoll_del sys (epoll_fd s) fd (os s))))"

lemma pipe_destroy_run:
  assumes P: "pipes s this = Some P" and pr: "read_promise P \<noteq> write_promise P"
      "\<forall>p \<in> {read_promise P, write_promise P}. quiet s p \<and> map_option default_but_completions (promises s p) = Some True"
    and d: "\<forall>d. destruct_pointer P = Some d \<longrightarrow> flags s d = Some False"
    and fd: "reg_fd s this = Some (-1)"
  shows "\<exists>s'. pipe_destroy sys strerror this s = Inr ((), s') \<and> registrants s' = registrants s
     \<and> regs s' = (regs s)(this := None) \<and> reg_fd s' this = None \<and> pipes s' = (pipes s)(this := None)
     \<and> promises s' = (promises s)(write_promise P := None, read_promise P := None)
     \<and> flags s' = (case destruct_pointer P of None \<Rightarrow> flags s | Some d \<Rightarrow> (flags s)(d \<mapsto> True))
     \<and> os s' = os s \<and> epoll_fd s' = epoll_fd s"
proof -
  obtain R W where "promises s (read_promise P) = Some R" "matching_future R = None" "attached_callback R = None"
    "quiet s (read_promise P)" "promises s (write_promise P) = Some W" "matching_future W = None"
    "attached_callback W = None" "quiet s (write_promise P)"
    using pr by (auto simp: default_but_completions_def)
  then show ?thesis
    using P d fd pr(1) by (cases "destruct_pointer P")
      (auto simp: pipe_destroy_def registrant_destroy_released quiet_def)
qed

lemma pipe_close_run:
  assumes c: "pipe_closable s this fd P" and d: "\<forall>d. destruct_pointer P = Some d \<longrightarrow> flags s d = Some False"
    and del: "\<And>k. \<exists>k'. sys_epoll_del sys (epoll_fd s) fd k = (Inr (), k')"
  shows "\<exists>s'. pipe_close sys strerror this f s = Inr ((), s') \<and> closed_pipe sys s this fd P s'"
proof -
  have wf: "loop_wf s" "in_service s this fd" and P: "pipes s this = Some P" "read_promise P \<noteq> write_promise P"
    using c by (simp_all add: pipe_closable_def)
  obtain R W where R: "promises s (read_promise P) = Some R" "default_but_completions R"
    "promises s (write_promise P) = Some W" "default_but_completions W"
    using c by (auto simp: pipe_closable_def)
  obtain k1 where k1: "sys_epoll_del sys (epoll_fd s) fd (os s) = (Inr (), k1)" using del by blast
  obtain e s1 where s1: "deregister_and_close sys this s = Inr (Inr e, s1)" "loop_wf s1" "reg_fd s1 this = Some (-1)"
    "set (registrants s1) = set (registrants s) - {this}" "os s1 = snd (sys_close sys fd k1)"
    by (rule deregister_ok [OF wf k1])
  have fr: "promises s1 = promises s" "lnodes s1 = lnodes s" "pipes s1 = pipes s" "flags s1 = flags s"
    by (rule preservesD [where f = promises, OF deregister_frame s1(1)] preservesD [where f = lnodes, OF deregister_frame s1(1)]
        preservesD [where f = pipes, OF deregister_frame s1(1)] preservesD [where f = flags, OF deregister_frame s1(1)]; simp)+
  have "\<exists>s2. pipe_destroy sys strerror this s1 = Inr ((), s2) \<and> registrants s2 = registrants s1
     \<and> regs s2 = (regs s1)(this := None) \<and> reg_fd s2 this = None \<and> pipes s2 = (pipes s1)(this := None)
     \<and> promises s2 = (promises s1)(write_promise P := None, read_promise P := None)
     \<and> flags s2 = (case destruct_pointer P of None \<Rightarrow> flags s1 | Some d \<Rightarrow> (flags s1)(d \<mapsto> True))
     \<and> os s2 = os s1 \<and> epoll_fd s2 = epoll_fd s1"
    using pipe_destroy_run [of s1 this P sys strerror] c d s1(3) fr by (simp add: pipe_closable_def quiet_def)
  then obtain s2 where s2: "pipe_destroy sys strerror this s1 = Inr ((), s2)" "registrants s2 = registrants s1"
    "regs s2 = (regs s1)(this := None)" "reg_fd s2 this = None" "pipes s2 = (pipes s1)(this := None)"
    "promises s2 = (promises s1)(write_promise P := None, read_promise P := None)"
    "flags s2 = (case destruct_pointer P of None \<Rightarrow> flags s1 | Some d \<Rightarrow> (flags s1)(d \<mapsto> True))"
    "os s2 = os s1" "epoll_fd s2 = epoll_fd s1" by blast
  let ?s3 = "s2\<lparr>futures := (futures s2)(f \<mapsto> \<lparr>matching_promise = None, fut_value = Some (VClosed (Inr e))\<rparr>)\<rparr>"
  have "loop_wf ?s3" using s1(2,4) s2(2,3,9) reg_inv_drop [of "registrants s1" "regs s1" this] by (simp add: loop_wf_def)
  moreover have "pipe_close sys strerror this f s = Inr ((), ?s3)"
    using P R s1(1) s2(1) by (simp add: pipe_close_def future_of_value_def)
  ultimately show ?thesis using s1 s2 fr k1 by (intro exI [of _ ?s3]) (simp add: closed_pipe_def split: option.split)
qed

section \<open>A callback that closes the pipe\<close>

text \<open>A pipe with a read under way whose value goes to the callback \<open>u\<close>, and nothing to write.\<close>

definition read_with_callback :: "('os, 'm) pipe_st_scheme \<Rightarrow> addr \<Rightarrow> Fd \<Rightarrow> pipe \<Rightarrow> closure \<Rightarrow> bool" where
  "read_with_callback s this fd P u \<longleftrightarrow> loop_wf s \<and> in_service s this fd \<and> pipes s this = Some P
     \<and> read_promise P \<noteq> write_promise P \<and> quiet s (read_promise P) \<and> quiet s (write_promise P)
     \<and> map_option (\<lambda>R. (matching_future R, attached_callback R)) (promises s (read_promise P)) = Some (None, Some (UserCb u))
     \<and> map_option default_but_completions (promises s (write_promise P)) = Some True
     \<and> \<not> read_ready P \<and> (\<exists>p. read_buf P = Some p \<and> room s p (read_nbytes P))"

lemma supply_user_callback:
  assumes "promises s p = Some R" and "matching_future R = None" and "attached_callback R = Some (UserCb u)" and "quiet s p"
    and "0 < n"
  shows "supply_value_and_detach H n p v s = run_cb H u v (s\<lparr>promises := (promises s)(p \<mapsto> R\<lparr>attached_callback := None\<rparr>)\<rparr>)"
proof -
  obtain m where m: "n = Suc m" using assms(5) by (cases n) auto
  show ?thesis using assms(1-4)
    by (simp add: m prom_default_constructed_def default_but_completions_def quiet_def call_callback_def destroy_called_def thenM_ret_unit)
qed

text \<open>The state in which the callback is called, after the call \<open>read\<close> gave \<open>res\<close>.\<close>

definition callback_value :: "int + u8 list \<Rightarrow> val" where
  "callback_value res = VCount (case res of Inl e \<Rightarrow> Inl (mk_error ''read'' e) | Inr bs \<Rightarrow> Inr (length bs))"

lemma try_read_callback:
  assumes c: "read_with_callback s this fd P u" and n: "0 < n"
    and k: "retry_eintr (sys_read sys fd (read_nbytes P)) (os s) = Some (res, k)" and res: "res \<noteq> Inl EAGAIN"
    and len: "\<And>bs. res = Inr bs \<Longrightarrow> length bs \<le> read_nbytes P"
  shows "\<exists>t b. try_doing_read sys H n this (updating this P s) = run_cb H u (callback_value res) t
     \<and> pipes t = (pipes s)(this \<mapsto> P\<lparr>destruct_pointer := Some (Addr (next_addr s)), read_ready := b,
          read_buf := None, read_nbytes := 0\<rparr>)
     \<and> flags t = (flags s)(Addr (next_addr s) \<mapsto> False) \<and> os t = k \<and> epoll_fd t = epoll_fd s \<and> registrants t = registrants s
     \<and> regs t = regs s \<and> reg_fd t = reg_fd s \<and> lnodes t = lnodes s
     \<and> promises t = (promises s)(read_promise P := map_option (attached_callback_update (\<lambda>_. None)) (promises s (read_promise P)))"
proof -
  obtain R p where R: "promises s (read_promise P) = Some R" "matching_future R = None" "attached_callback R = Some (UserCb u)"
    "quiet s (read_promise P)" "reg_fd s this = Some fd" and p: "read_buf P = Some p" "room s p (read_nbytes P)"
    using c by (auto simp: read_with_callback_def in_service_def)
  have act: "prom_is_active R" using R by (simp add: prom_is_active_def default_but_completions_def)
  have run: "supply_value_and_detach H n (read_promise P) v t
      = run_cb H u v (t\<lparr>promises := (promises t)(read_promise P \<mapsto> R\<lparr>attached_callback := None\<rparr>)\<rparr>)"
    if "promises t = promises s" "lnodes t = lnodes s" for t v
    using supply_user_callback [of t "read_promise P" R u n H v] that R n by (simp add: quiet_def)
  let ?u = "updating this P s" and ?a = "Addr (next_addr s)"
  let ?P = "\<lambda>b. P\<lparr>destruct_pointer := Some ?a, read_ready := b, read_buf := None, read_nbytes := 0\<rparr>"
    and ?R = "(promises s)(read_promise P \<mapsto> R\<lparr>attached_callback := None\<rparr>)"
  show ?thesis
  proof (cases res)
    case (Inl e)
    let ?t = "?u\<lparr>os := k, pipes := (pipes s)(this \<mapsto> ?P False), promises := ?R\<rparr>"
    have "e \<noteq> EAGAIN" using Inl res by simp
    with Inl k R(1,5) p act have "try_doing_read sys H n this ?u = run_cb H u (callback_value res) ?t"
      by (simp add: try_doing_read_def updating_def run EWOULDBLOCK_def EAGAIN_def callback_value_def)
    then show ?thesis by (intro exI [of _ ?t] exI [of _ False]) (simp add: updating_def R)
  next
    case (Inr bs)
    obtain a i where ai: "p = (a, i)" by (cases p)
    let ?b = "length bs = read_nbytes P"
    let ?t = "?u\<lparr>os := k, mem := (mem s)(a \<mapsto> overwrite (the (mem s a)) i bs), pipes := (pipes s)(this \<mapsto> ?P ?b),
      promises := ?R\<rparr>"
    have "room (?u\<lparr>os := k\<rparr>) (a, i) (length bs)"
      using room_mono [OF p(2) len [OF Inr]] ai by (simp add: room_def updating_def)
    from store_bytes_run [OF this] Inr k R(1,5) p ai act
    have "try_doing_read sys H n this ?u = run_cb H u (callback_value res) ?t"
      by (simp add: try_doing_read_def updating_def run callback_value_def)
    then show ?thesis by (intro exI [of _ ?t] exI [of _ ?b]) (simp add: updating_def R)
  qed
qed

section \<open>A pipe whose reader closes it\<close>

definition ex_busy_pipe :: "int list pipe_st" where
  "ex_busy_pipe = \<lparr>lnodes = [ListOf (Addr 1) \<mapsto> self_node (ListOf (Addr 1)), ListOf (Addr 2) \<mapsto> self_node (ListOf (Addr 2))],
     os = [], epoll_fd = 3, mid_step = False, registrants = [Addr 0], enqueued_actions = [], spare_actions_buf = [],
     regs = [Addr 0 \<mapsto> \<lparr>loop_ptr = Some (), registered_index = 0\<rparr>], reg_fd = [Addr 0 \<mapsto> 5],
     futures = Map.empty, promises = [
       Addr 1 \<mapsto> \<lparr>pclass = OtherCancellable (PipeRead (Addr 0)), matching_future = None,
          attached_callback = Some (UserCb KEchoDone), attached_promise_ptr = None, backwards_pointed_promise = None\<rparr>,
       Addr 2 \<mapsto> \<lparr>pclass = OtherCancellable (PipeWrite (Addr 0)), matching_future = None, attached_callback = None,
          attached_promise_ptr = None, backwards_pointed_promise = None\<rparr>],
     next_addr = 4, wait_states = Map.empty, mem = [Addr 3 \<mapsto> [0, 0, 0, 0]], flags = Map.empty,
     pipes = [Addr 0 \<mapsto> \<lparr>read_ready = False, write_ready = True, read_buf = Some (Addr 3, 0), read_nbytes = 4,
        read_promise = Addr 1, write_buf = None, write_nbytes = 0, write_promise = Addr 2, destruct_pointer = None\<rparr>]\<rparr>"

definition two_bytes_sys :: "int list syscalls" where
  "two_bytes_sys = closing_sys\<lparr>sys_read := (\<lambda>fd n k. (Inr (take n [1, 2]), k))\<rparr>"

definition closing_hooks :: "int list pipe_st prog_hooks" where
  "closing_hooks = pipe_hooks\<lparr>run_cb := (\<lambda>u v. bindM alloc (\<lambda>f.
     thenM (pipe_close two_bytes_sys (\<lambda>_. []) (Addr 0) f) (ret ())))\<rparr>"

lemma ex_busy_pipe_ok:
  "read_with_callback ex_busy_pipe (Addr 0) 5 (the (pipes ex_busy_pipe (Addr 0))) KEchoDone"
  by (simp add: read_with_callback_def ex_busy_pipe_def loop_wf_def reg_inv_def in_service_def quiet_def room_def
      default_but_completions_def SIZE_MAX_def)

section \<open>Properties\<close>

text \<open>
  C31. A callback may close the pipe whose event is being handled. When the read that an event
  completes has a callback that closes the pipe, and does anything else after that, \<open>on_update\<close> runs
  to its end without looking at the pipe again: the pipe is gone, its descriptor was deregistered and
  then closed once, and the flag on the stack of \<open>on_update\<close> is the only trace.
\<close>

theorem pipe_closed_in_callback:
  assumes c: "read_with_callback s this fd P u" and ev: "read_bits ev" and n: "0 < n"
    and k: "retry_eintr (sys_read sys fd (read_nbytes P)) (os s) = Some (res, k)" and res: "res \<noteq> Inl EAGAIN"
    and len: "\<And>bs. res = Inr bs \<Longrightarrow> length bs \<le> read_nbytes P"
    and del: "\<And>k. \<exists>k'. sys_epoll_del sys (epoll_fd s) fd k = (Inr (), k')"
    and cb: "run_cb H u (callback_value res) = bindM alloc (\<lambda>f. thenM (pipe_close sys strerror this f) (K f))"
    and K: "\<And>f t. \<exists>t'. K f t = Inr ((), t') \<and> flags t' = flags t"
  shows "\<exists>f t t'. pipes t this = None \<and> reg_fd t this = None \<and> this \<notin> set (registrants t)
     \<and> os t = snd (sys_close sys fd (snd (sys_epoll_del sys (epoll_fd s) fd k)))
     \<and> K f t = Inr ((), t')
     \<and> pipe_on_update sys H n this ev s = Inr ((), t'\<lparr>flags := (flags s)(Addr (next_addr s) := None)\<rparr>)"
proof -
  let ?a = "Addr (next_addr s)"
  from try_read_callback [OF c n k res len, of H] obtain t b where
    run: "try_doing_read sys H n this (updating this P s) = run_cb H u (callback_value res) t"
    and t: "pipes t = (pipes s)(this \<mapsto> P\<lparr>destruct_pointer := Some ?a, read_ready := b, read_buf := None, read_nbytes := 0\<rparr>)"
      "flags t = (flags s)(?a \<mapsto> False)" "os t = k" "epoll_fd t = epoll_fd s" "registrants t = registrants s"
      "regs t = regs s" "reg_fd t = reg_fd s" "lnodes t = lnodes s"
      "promises t = (promises s)(read_promise P := map_option (attached_callback_update (\<lambda>_. None)) (promises s (read_promise P)))"
    by blast
  let ?P = "P\<lparr>destruct_pointer := Some ?a, read_ready := b, read_buf := None, read_nbytes := 0\<rparr>"
  let ?t = "t\<lparr>next_addr := Suc (next_addr t)\<rparr>" and ?f = "Addr (next_addr t)"
  have "pipe_closable ?t this fd ?P"
    using c t by (auto simp: read_with_callback_def pipe_closable_def loop_wf_def in_service_def quiet_def default_but_completions_def)
  from pipe_close_run [OF this, of sys strerror ?f] t(2,4) del obtain t1 where
    t1: "pipe_close sys strerror this ?f ?t = Inr ((), t1)" "closed_pipe sys ?t this fd ?P t1" by auto
  obtain t2 where t2: "K ?f t1 = Inr ((), t2)" "flags t2 = flags t1" using K by blast
  have fl: "flags t2 ?a = Some True" "(flags t2)(?a := None) = (flags s)(?a := None)"
    using t1(2) t2(2) t(2) by (auto simp: closed_pipe_def)
  obtain R where R: "promises s (read_promise P) = Some R" "prom_is_active R" "pipes s this = Some P" "\<not> read_ready P"
    using c by (auto simp: read_with_callback_def prom_is_active_def default_but_completions_def)
  have "try_doing_read sys H n this (updating this P s) = Inr ((), t2)"
    using t1(1) t2(1) by (simp add: run cb)
  then have "pipe_on_update sys H n this ev s = Inr ((), t2\<lparr>flags := (flags s)(?a := None)\<rparr>)"
    unfolding on_update_pending_read [OF R(3,4) ev R(1,2)] by (simp add: update_rest_gone [OF fl(1)] fl(2))
  with t1(2) t2(1) t show ?thesis
    by (intro exI [of _ ?f] exI [of _ t1] exI [of _ t2]) (simp add: closed_pipe_def)
qed

theorem pipe_closed_in_callback_witness:
  "\<exists>t f t'. pipes t (Addr 0) = None \<and> Addr 0 \<notin> set (registrants t) \<and> os t = [5] \<and> ret () t = Inr ((), t')
     \<and> pipe_on_update two_bytes_sys closing_hooks 3 (Addr 0) EPOLLIN ex_busy_pipe = Inr ((), t'\<lparr>flags := f\<rparr>)"
proof -
  have "read_bits EPOLLIN" by (simp add: has_event_def EPOLLIN_def EPOLLHUP_def EPOLLERR_def)
  moreover have "retry_eintr (sys_read two_bytes_sys 5 (read_nbytes (the (pipes ex_busy_pipe (Addr 0))))) (os ex_busy_pipe)
      = Some (Inr [1, 2], [])"
    by (simp add: two_bytes_sys_def ex_busy_pipe_def)
  moreover have "read_nbytes (the (pipes ex_busy_pipe (Addr 0))) = 4" by (simp add: ex_busy_pipe_def)
  moreover have "\<exists>k'. sys_epoll_del two_bytes_sys (epoll_fd ex_busy_pipe) 5 k = (Inr (), k')" for k
    by (simp add: two_bytes_sys_def closing_sys_def idle_sys_def)
  moreover have "snd (sys_close two_bytes_sys 5 (snd (sys_epoll_del two_bytes_sys (epoll_fd ex_busy_pipe) 5 []))) = [5]"
    by (simp add: two_bytes_sys_def closing_sys_def idle_sys_def)
  moreover have "run_cb closing_hooks KEchoDone (callback_value (Inr [1, 2]))
      = bindM alloc (\<lambda>f. thenM (pipe_close two_bytes_sys (\<lambda>_. []) (Addr 0) f) (ret ()))"
    by (simp add: closing_hooks_def)
  ultimately show ?thesis
    using pipe_closed_in_callback [OF ex_busy_pipe_ok, of EPOLLIN 3 two_bytes_sys "Inr [1, 2]" "[]" closing_hooks "\<lambda>_. []" "\<lambda>_. ret ()"]
    by force
qed

end
