(* ===== verification/SocketProps.thy ===== *)
theory SocketProps
  imports ListenSocket Source
begin

text \<open>Accepting connections is a source in the sense of \<open>Source\<close>.\<close>

section \<open>Access\<close>

lemma get_sock_run [simp]: "listen_sockets s this = Some P \<Longrightarrow> get_sock this s = Inr (P, s)"
  by (simp add: get_sock_def)

lemma upd_sock_run [simp]:
  "listen_sockets s this = Some P \<Longrightarrow> upd_sock this g s = Inr ((), s\<lparr>listen_sockets := (listen_sockets s)(this \<mapsto> g P)\<rparr>)"
  by (simp add: upd_sock_def put_sock_def)

definition socket_obj :: "addr \<Rightarrow> ('os, 'm) sock_st_scheme \<Rightarrow> (bool \<times> addr) option" where
  "socket_obj this s = map_option (\<lambda>P. (accept_ready P, accept_promise P)) (listen_sockets s this)"

definition socket_mark :: "addr \<Rightarrow> bool \<Rightarrow> ('os, 'm) sock_st_scheme \<Rightarrow> ('os, 'm) sock_st_scheme" where
  "socket_mark this b s =
     s\<lparr>listen_sockets := (listen_sockets s)(this := map_option (accept_ready_update (\<lambda>_. b)) (listen_sockets s this))\<rparr>"

lemma socket_mark_run:
  "listen_sockets s this = Some P \<Longrightarrow>
   socket_mark this b s = s\<lparr>listen_sockets := (listen_sockets s)(this \<mapsto> P\<lparr>accept_ready := b\<rparr>)\<rparr>"
  by (simp add: socket_mark_def)

section \<open>An attempt to read\<close>

text \<open>The kernel does not interrupt a call for ever, and after a failure the descriptor is stalled.\<close>

definition socket_contract :: "'os syscalls \<Rightarrow> Fd \<Rightarrow> ('os \<Rightarrow> bool) \<Rightarrow> bool" where
  "socket_contract sys fd stalled \<longleftrightarrow> (\<forall>k. \<exists>r k'. retry_eintr (sys_accept4 sys fd) k = Some (r, k')
     \<and> (case r of Inl e \<Rightarrow> stalled k' | Inr newfd \<Rightarrow> True))"

lemma try_accept_run:
  assumes ok: "source_ok (socket_obj this) this fd s True p (Some f)" and n: "2 \<le> n"
    and k: "retry_eintr (sys_accept4 sys fd) (os s) = Some (res, k)"
  shows "try_doing_accept sys H n this s = Inr ((), case res of
      Inl e \<Rightarrow> (if e = EAGAIN then socket_mark this False (s\<lparr>os := k\<rparr>)
        else supplied f p (VSocket (Inl (mk_error ''accept4'' e))) (socket_mark this False (s\<lparr>os := k\<rparr>)))
    | Inr newfd \<Rightarrow> supplied f p (VSocket (Inr newfd)) (s\<lparr>os := k\<rparr>))"
proof -
  obtain P where P: "listen_sockets s this = Some P" "accept_ready P" "accept_promise P = p"
    using source_okD(3) [OF ok] by (auto simp: socket_obj_def)
  obtain R where R: "promises s p = Some R" "prom_is_active R"
    using source_okD(4) [OF ok] by (auto simp: op_promise_def prom_is_active_def default_but_completions_def)
  have sup: "supply_value_and_detach H n p v t = Inr ((), supplied f p v t)"
    if "promises t = promises s" "futures t = futures s" "lnodes t = lnodes s" "next_addr t = next_addr s" for v t
    using supply_op [of t p f n H v] source_okD(1,4) [OF ok] n op_promise_cong [OF that(1-3)] fresh_ok_cong [OF that] by simp
  show ?thesis using k
    by (auto simp: try_doing_accept_def P R source_okD(2) [OF ok] socket_mark_run sup EWOULDBLOCK_def EAGAIN_def
        split: sum.split prod.split)
qed

text \<open>The conditions under which the descriptor is used.\<close>

definition socket_apt :: "'os syscalls \<Rightarrow> nat \<Rightarrow> Fd \<Rightarrow> u32 \<Rightarrow> ('os \<Rightarrow> bool) \<Rightarrow> bool" where
  "socket_apt sys n fd ev stalled \<longleftrightarrow> 2 \<le> n \<and> read_bits ev \<and> socket_contract sys fd stalled"

interpretation sockets: source_laws H n this fd "socket_obj this" "socket_mark this" "try_doing_accept sys H n this"
  "sock_accept sys H n this" "sock_on_update sys H n this ev" stalled "socket_apt sys n fd ev stalled"
proof
  fix s :: "('a, 'b) sock_st_scheme" and p f
  assume a: "socket_apt sys n fd ev stalled" and ok: "source_ok (socket_obj this) this fd s True p (Some f)"
  obtain res k where k: "retry_eintr (sys_accept4 sys fd) (os s) = Some (res, k)"
    and res: "case res of Inl e \<Rightarrow> stalled k | Inr newfd \<Rightarrow> True"
    using a unfolding socket_apt_def socket_contract_def by blast
  have "2 \<le> n" using a by (simp add: socket_apt_def)
  from try_accept_run [OF ok this k, of H] res
  show "\<exists>k s'. try_doing_accept sys H n this s = Inr ((), s')
      \<and> (s' = socket_mark this False (s\<lparr>os := k\<rparr>) \<and> stalled k
         \<or> (\<exists>v. s' = supplied f p v (socket_mark this False (s\<lparr>os := k\<rparr>)) \<and> stalled k)
         \<or> (\<exists>v. s' = supplied f p v (s\<lparr>os := k\<rparr>)))"
    by (intro exI [of _ k]) (auto split: sum.splits prod.splits)
next
  fix s :: "('a, 'b) sock_st_scheme" and b p f
  assume "socket_obj this s = Some (b, p)" and p: "op_promise s p None" and "socket_obj this (started f p s) = Some (b, p)"
  then obtain P R where "listen_sockets s this = Some P" "accept_ready P = b" "accept_promise P = p"
    "promises s p = Some R" "default_but_completions R"
    by (auto simp: socket_obj_def op_promise_def default_but_completions_def)
  then show "sock_accept sys H n this f s = whenM b (try_doing_accept sys H n this) (started f p s)"
    by (simp add: sock_accept_def start_op [OF p])
next
  fix s :: "('a, 'b) sock_st_scheme" and b p r
  assume a: "socket_apt sys n fd ev stalled" and o: "socket_obj this s = Some (b, p)" and p: "op_promise s p r"
  obtain P where P: "listen_sockets s this = Some P" "accept_ready P = b" "accept_promise P = p"
    using o by (auto simp: socket_obj_def)
  obtain R where R: "promises s p = Some R" "prom_is_active R \<longleftrightarrow> r \<noteq> None"
    using p by (fastforce simp: op_promise_def prom_is_active_def default_but_completions_def)
  show "sock_on_update sys H n this ev s
      = (if b then Inr ((), s) else whenM (r \<noteq> None) (try_doing_accept sys H n this) (socket_mark this True s))"
    using a P R unfolding socket_apt_def sock_on_update_def
    by (simp add: whenM_def) (simp add: socket_mark_run whenM_def)
qed (auto simp: socket_obj_def socket_mark_def socket_apt_def)

definition socket_end ::
  "'os syscalls \<Rightarrow> ('os, 'm) sock_st_scheme prog_hooks \<Rightarrow> nat \<Rightarrow> addr \<Rightarrow> u32 \<Rightarrow> (('os, 'm) sock_st_scheme, 'os) endpoint" where
  "socket_end sys H n this ev = source_end H n (socket_obj this) (sock_accept sys H n this) (sock_on_update sys H n this ev)"

section \<open>A kernel with a queue of connections\<close>

definition backlog_sys :: "Fd list syscalls" where
  "backlog_sys = idle_sys\<lparr>sys_accept4 := (\<lambda>fd k. case k of [] \<Rightarrow> (Inl EAGAIN, k) | c # cs \<Rightarrow> (Inr c, cs))\<rparr>"

lemma backlog_sys_contract: "socket_contract backlog_sys fd (\<lambda>k. k = [])"
  unfolding socket_contract_def
proof
  fix k :: "Fd list"
  show "\<exists>r k'. retry_eintr (sys_accept4 backlog_sys fd) k = Some (r, k') \<and> (case r of Inl e \<Rightarrow> k' = [] | Inr newfd \<Rightarrow> True)"
  proof (cases k)
    case Nil
    then show ?thesis by (intro exI [of _ "Inl EAGAIN"] exI [of _ "[]"]) (simp add: backlog_sys_def EAGAIN_def EINTR_def)
  next
    case (Cons c cs)
    then show ?thesis by (intro exI [of _ "Inr c"] exI [of _ cs]) (simp add: backlog_sys_def)
  qed
qed

definition ex_socket :: "Fd list \<Rightarrow> Fd list sock_st" where
  "ex_socket k = \<lparr>lnodes = [ListOf (Addr 1) \<mapsto> self_node (ListOf (Addr 1))],
     os = k, epoll_fd = 3, mid_step = False, registrants = [Addr 0], enqueued_actions = [], spare_actions_buf = [],
     regs = [Addr 0 \<mapsto> \<lparr>loop_ptr = Some (), registered_index = 0\<rparr>], reg_fd = [Addr 0 \<mapsto> 5],
     futures = Map.empty, promises = [
       Addr 1 \<mapsto> \<lparr>pclass = DefaultCancellable, matching_future = None, attached_callback = None,
          attached_promise_ptr = None, backwards_pointed_promise = None\<rparr>],
     next_addr = 2, wait_states = Map.empty, mem = Map.empty, flags = Map.empty, pipes = Map.empty,
     signal_fds = Map.empty, listen_sockets = [Addr 0 \<mapsto> \<lparr>accept_ready = True, accept_promise = Addr 1\<rparr>]\<rparr>"

lemma ex_socket_ok: "source_ok (socket_obj (Addr 0)) (Addr 0) 5 (ex_socket k) True (Addr 1) None"
  by (auto simp: source_ok_def socket_obj_def ex_socket_def op_promise_def quiet_def fresh_ok_def unused_def)

section \<open>Properties\<close>



end
