(* ===== verification/ProgramProps.thy ===== *)
theory ProgramProps
  imports Program SocketProps
begin

text \<open>
  Properties of the program as a whole: the exit status of \<open>main\<close>, the steps of its loop, waiting for
  all connections, and an error of the accept loop.
\<close>

section \<open>The loop of \<open>main\<close>\<close>

text \<open>\<open>j\<close> steps of the loop, each with something to do and each successful.\<close>

fun loop_steps ::
  "'os env \<Rightarrow> ('os, 'm) sock_st_scheme prog_hooks \<Rightarrow> nat \<Rightarrow> nat \<Rightarrow> ('os, 'm) sock_st_scheme \<Rightarrow> ('os, 'm) sock_st_scheme \<Rightarrow> bool" where
  "loop_steps E H n 0 s s' \<longleftrightarrow> s' = s"
| "loop_steps E H n (Suc j) s s' \<longleftrightarrow> (\<exists>s1. has_stuff_to_do s = Inr (True, s)
     \<and> full_step (sys E) (on_update E H n) (run_action E H n) s = Inr (Inr (), s1) \<and> loop_steps E H n j s1 s')"

lemma has_stuff_to_do_result: "has_stuff_to_do s = Inr (b, s') \<Longrightarrow> s' = s"
  by (auto simp: has_stuff_to_do_def bindM_eq_Inr thenM_eq_Inr getM_def split: if_splits)

lemma has_stuff_to_do_idle:
  "has_stuff_to_do s = Inr (False, s) \<longleftrightarrow> \<not> mid_step s \<and> enqueued_actions s = [] \<and> registrants s = []"
  by (auto simp: has_stuff_to_do_def bindM_eq_Inr thenM_eq_Inr getM_def)

definition loop_ended ::
  "'os env \<Rightarrow> ('os, 'm) sock_st_scheme prog_hooks \<Rightarrow> nat \<Rightarrow> ('os, 'm) sock_st_scheme \<Rightarrow> int \<Rightarrow> ('os, 'm) sock_st_scheme \<Rightarrow> bool" where
  "loop_ended E H n s1 status s' \<longleftrightarrow>
     (status = 0 \<and> s' = s1 \<and> has_stuff_to_do s1 = Inr (False, s1)
      \<or> status = 1 \<and> has_stuff_to_do s1 = Inr (True, s1)
        \<and> (\<exists>e. full_step (sys E) (on_update E H n) (run_action E H n) s1 = Inr (Inl e, s')))"

lemma main_loop_steps:
  "main_loop E H n k s = Inr (status, s') \<longleftrightarrow> (\<exists>j s1. j < k \<and> loop_steps E H n j s s1 \<and> loop_ended E H n s1 status s')"
proof (induction k arbitrary: s)
  case (Suc k)
  show ?case
  proof
    assume "main_loop E H n (Suc k) s = Inr (status, s')"
    then obtain b t where b: "has_stuff_to_do s = Inr (b, t)"
      and r: "(if \<not> b then ret 0 else bindM (full_step (sys E) (on_update E H n) (run_action E H n)) (\<lambda>result.
         case result of Inl e \<Rightarrow> ret 1 | Inr _ \<Rightarrow> main_loop E H n k)) t = Inr (status, s')"
      by (auto simp: bindM_eq_Inr)
    have t: "t = s" by (rule has_stuff_to_do_result [OF b])
    show "\<exists>j s1. j < Suc k \<and> loop_steps E H n j s s1 \<and> loop_ended E H n s1 status s'"
    proof (cases b)
      case False
      with b r t show ?thesis by (intro exI [of _ 0] exI [of _ s]) (simp add: loop_ended_def)
    next
      case True
      with r t obtain result s1 where
        st: "full_step (sys E) (on_update E H n) (run_action E H n) s = Inr (result, s1)"
          "(case result of Inl e \<Rightarrow> ret 1 | Inr _ \<Rightarrow> main_loop E H n k) s1 = Inr (status, s')"
        by (auto simp: bindM_eq_Inr)
      show ?thesis
      proof (cases result)
        case (Inl e)
        with st True b t show ?thesis by (intro exI [of _ 0] exI [of _ s]) (auto simp: loop_ended_def)
      next
        case (Inr u)
        with st Suc.IH [of s1] obtain j s2 where "j < k" "loop_steps E H n j s1 s2" "loop_ended E H n s2 status s'" by auto
        with st(1) Inr True b t show ?thesis by (intro exI [of _ "Suc j"] exI [of _ s2]) auto
      qed
    qed
  next
    assume "\<exists>j s1. j < Suc k \<and> loop_steps E H n j s s1 \<and> loop_ended E H n s1 status s'"
    then obtain j s1 where j: "j < Suc k" "loop_steps E H n j s s1" "loop_ended E H n s1 status s'" by blast
    show "main_loop E H n (Suc k) s = Inr (status, s')"
    proof (cases j)
      case 0
      with j have "(status = 0 \<and> s' = s \<and> has_stuff_to_do s = Inr (False, s))
          \<or> (status = 1 \<and> has_stuff_to_do s = Inr (True, s)
             \<and> (\<exists>e. full_step (sys E) (on_update E H n) (run_action E H n) s = Inr (Inl e, s')))"
        by (simp add: loop_ended_def)
      then show ?thesis by (auto simp: bindM_Inr [where m = has_stuff_to_do, of s False s])
    next
      case (Suc i)
      with j obtain s2 where "has_stuff_to_do s = Inr (True, s)"
        "full_step (sys E) (on_update E H n) (run_action E H n) s = Inr (Inr (), s2)" "loop_steps E H n i s2 s1" by auto
      moreover have "main_loop E H n k s2 = Inr (status, s')"
        using Suc.IH [of s2] calculation(3) j Suc by auto
      ultimately show ?thesis by simp
    qed
  qed
qed simp

lemma main_loop_status: "main_loop E H n k s = Inr (status, s') \<Longrightarrow> status = 0 \<or> status = 1"
  by (auto simp: main_loop_steps loop_ended_def)

lemma case_sum_eq_Inr:
  "(case x of Inl e \<Rightarrow> f e | Inr y \<Rightarrow> g y) s = Inr r \<longleftrightarrow>
     (\<exists>e. x = Inl e \<and> f e s = Inr r) \<or> (\<exists>y. x = Inr y \<and> g y s = Inr r)"
  by (cases x) auto

lemma main_body_status:
  assumes "main_body E d k opts s = Inr (status, s')"
  shows "status = 0 \<or> status = 1"
  using assms by (auto simp: main_body_def bindM_eq_Inr thenM_eq_Inr case_sum_eq_Inr dest: main_loop_status)

section \<open>The group of connections\<close>

lemma active_group_aborts:
  assumes "set fs \<subseteq> dom (futures t)" and "f \<in> set fs" and "futures t f = Some (pending_future p)"
  shows "mapM (\<lambda>f. bindM (get_fut f) (\<lambda>F. tpf_assert ''!fut.is_active()'' (\<not> fut_is_active F))) fs t
    = Inl (Abort ''!fut.is_active()'')"
  using assms
proof (induction fs)
  case (Cons g fs)
  then obtain G where G: "futures t g = Some G" by auto
  show ?case
  proof (cases "fut_is_active G")
    case True
    with G show ?thesis by simp
  next
    case False
    with G Cons.prems have "f \<in> set fs" by (auto simp: fut_is_active_def)
    with False G Cons show ?thesis by simp
  qed
qed simp

section \<open>Properties\<close>





end
