(* ===== verification/Exec.thy ===== *)
theory Exec
  imports Program PipeProps
begin

text \<open>
  Symbolic execution: rules that evaluate a computation on a state that is written out, step by step
  and without looking into the continuations.
\<close>

named_theorems exec

text \<open>The result of the first computation, before the second one: in this form one rule passes it on.\<close>

definition bindE :: "fault + 'a \<times> 's \<Rightarrow> ('a \<Rightarrow> ('s, 'b) M) \<Rightarrow> fault + 'b \<times> 's" where
  "bindE r k = (case r of Inl e \<Rightarrow> Inl e | Inr p \<Rightarrow> k (fst p) (snd p))"

definition thenE :: "fault + 'a \<times> 's \<Rightarrow> ('s, 'b) M \<Rightarrow> fault + 'b \<times> 's" where
  "thenE r k = (case r of Inl e \<Rightarrow> Inl e | Inr p \<Rightarrow> k (snd p))"

lemma bindE_exec [exec]: "bindE (Inr (x, s)) k = k x s" "bindE (Inl e) k = Inl e"
  by (simp_all add: bindE_def)

lemma thenE_exec [exec]: "thenE (Inr (x, s)) k = k s" "thenE (Inl e) k = Inl e"
  by (simp_all add: thenE_def)

lemma bindM_exec [exec]: "bindM m k s = bindE (m s) k"
  by (simp add: bindM_def bindE_def split: sum.split)

lemma thenM_exec [exec]: "thenM m k s = thenE (m s) k"
  by (simp add: thenM_def bindM_def thenE_def split: sum.split)

lemma whenM_exec [exec]: "whenM b m s = (if b then m s else Inr ((), s))"
  by (simp add: whenM_def)

lemma bindM_weak: "bindM m k s = bindM m k s" ..
lemma thenM_weak: "thenM m k s = thenM m k s" ..
lemma bindE_weak: "r = r' \<Longrightarrow> bindE r k = bindE r' k" by simp
lemma thenE_weak: "r = r' \<Longrightarrow> thenE r k = thenE r' k" by simp
lemma whenM_weak: "b = c \<Longrightarrow> whenM b m s = whenM c m s" by simp
lemma with_future_weak: "with_future a b s = with_future a b s" ..

lemma supply_exec [exec]:
  "supply_value_and_detach H (Suc n) p v s =
     bindM (get_prom p) (\<lambda>P.
     case matching_future P of
       Some fut \<Rightarrow>
         thenM (upd_fut fut (fut_value_update (\<lambda>_. Some v)))
         (thenM (upd_fut fut (matching_promise_update (\<lambda>_. None)))
         (thenM (upd_prom p (matching_future_update (\<lambda>_. None)))
         (bindM (get_prom p) (\<lambda>P'.
          thenM (tpf_assert ''is_default_constructed_but_for_completions()'' (default_but_completions P'))
          (notify_and_detach_completions H n p)))))
     | None \<Rightarrow>
         thenM (tpf_assert ''attached_callback_'' (attached_callback P \<noteq> None))
         (bindM (deref ''attached_callback_'' (attached_callback P)) (\<lambda>cb.
          thenM (upd_prom p (attached_callback_update (\<lambda>_. None)))
          (bindM (prom_default_constructed p) (\<lambda>d.
           thenM (tpf_assert ''is_default_constructed()'' d)
           (thenM (call_callback H (supply_value_and_detach H n) cb v)
           (destroy_called cb))))))) s"
  by simp

lemma hooks_exec [exec]:
  "run_fn (hooks E (Suc d)) = run_closure E (hooks E d) (Suc d)" "run_cb (hooks E (Suc d)) = run_callback"
  "drop_fn (hooks E (Suc d)) = drop_closure E (hooks E d) (Suc d)"
  "completed (hooks E (Suc d)) = future_completed (hooks E d) (Suc d)" "cancel_other (hooks E (Suc d)) = pipe_promise_cancel"
  by simp_all

lemma drain_exec [exec]:
  "drain first remove visit (Suc n) s = bindM first (\<lambda>r. case r of
     None \<Rightarrow> ret ()
   | Some x \<Rightarrow> thenM (remove x) (thenM (visit x) (drain first remove visit n))) s"
  by simp

lemma prom_cancel_exec [exec]:
  "prom_cancel H (Suc n) this s =
     bindM (get_prom this) (\<lambda>T.
     case pclass T of
       PlainPromise \<Rightarrow> failM (BadCast ''cancellable_promise'')
     | DefaultCancellable \<Rightarrow> bindM (prom_default_constructed this) (\<lambda>d.
         tpf_assert ''is_default_constructed()'' d)
     | OtherCancellable k \<Rightarrow> cancel_other H k this
     | CancellableThenF \<Rightarrow> (case backwards_pointed_promise T of
         None \<Rightarrow> ret ()
       | Some b \<Rightarrow>
           bindM (get_prom b) (\<lambda>B.
           thenM (tpf_assert ''backwards_pointed_promise->attached_promise_ptr_ == this''
                    (attached_promise_ptr B = Some this))
           (thenM (tpf_assert ''backwards_pointed_promise->matching_future_ == nullptr''
                    (matching_future B = None))
           (thenM (tpf_assert ''backwards_pointed_promise->attached_callback_''
                    (attached_callback B \<noteq> None))
           (thenM (upd_prom b (attached_promise_ptr_update (\<lambda>_. None)))
           (thenM (upd_prom this (backwards_pointed_promise_update (\<lambda>_. None)))
           (bindM (deref ''attached_callback_'' (attached_callback B)) (\<lambda>cb.
            thenM (upd_prom b (attached_callback_update (\<lambda>_. None)))
            (thenM (destroy_callback H cb)
            (prom_cancel H n b))))))))))) s"
  by simp

lemma syscall_exec [exec]: "syscall f s = (case f (os s) of (r, k) \<Rightarrow> Inr (r, s\<lparr>os := k\<rparr>))"
  by (simp add: syscall_def)

lemma upto_exec [exec]: "[0..<2] = [0, Suc 0]" "[Suc 0..<2] = [Suc 0]" "[Suc (Suc 0)..<2] = []" "[0..<Suc 0] = [0]"
  by (simp_all add: upt_rec)

lemma index_exec [exec]: "0 \<noteq> SIZE_MAX" "Suc 0 \<noteq> SIZE_MAX" "2 \<noteq> SIZE_MAX"
  by (simp_all add: SIZE_MAX_def)

text \<open>The definitions that are unfolded, and the rules that get in the way.\<close>

abbreviation deep :: "nat \<Rightarrow> nat" where
  "deep d \<equiv> Suc (Suc (Suc (Suc (Suc (Suc (Suc (Suc (Suc (Suc d)))))))))"

lemmas future_defs = alloc_def default_but_completions_def prom_is_active_def notify_and_detach_completions_def
  prom_default_constructed_def call_callback_def destroy_called_def then_lambda_def future_value_def
  fut_has_value_def fut_default_def future_of_value_def future_of_promise_def future_move_def then_f_def future_destroy_def
  is_plain_def is_then_f_def prom_move_def base_promise_move_def splice_callback_def splice_future_def

lemmas wait_defs = future_completed_def notify_complete_def wait_any_state_delete_def wait_interruptible_def wait_any_def
  check_evaled_def interruptible_lambda_def await_notifications_def wait_any_state_new_def register_at_def Let_def

lemmas pipe_defs = try_doing_read_def try_doing_write_def store_bytes_def load_bytes_def pipe_write_def pipe_read_def
  update_rest_def

lemmas program_defs = run_closure_def run_callback_def read_lambda_def with_future_def write_all_def write_all_helper_def
  written_lambda_def echoed_lambda_def echo_with_buf_def

lemmas teardown_defs = unregister_for_epoll_def deregister_and_close_def pipe_close_def pipe_destroy_def registrant_destroy_def
  fd_destroy_def fd_has_value_def fd_release_def set_reg_fd_def close_pipes_lambda_def close_out_lambda_def
  closed_pipe_lambda_def buf_destroy_def finally_lambda_def future_cancel_def destroy_callback_def drop_closure_def
  sig_close_def signal_fd_destroy_def put_sig_def get_sig_def upd_sig_def

lemmas exec_congs = bindE_weak thenE_weak bindM_weak thenM_weak whenM_weak with_future_weak

lemmas exec_del = bindM_Inr thenM_Inr supply_value_and_detach.simps prom_cancel.simps hooks.simps

end
