(* ===== verification/EchoStates.thy ===== *)
theory EchoStates
  imports Exec
begin

text \<open>
  The states of the program in fifo mode between two events, written out: waiting for the read,
  waiting for the rest of a write, and finished. The objects that live as long as the program are at
  the addresses that \<open>main\<close> gives them when it starts with \<open>next_addr = 10\<close>: the signal descriptor at 10 with its
  promise at 11, the promise of the interruptor at 15 and its future at 16, the pipe that is read at 19 with
  promises at 20 and 21, the pipe that is written at 22 with promises at 23 and 24, the buffer at 26, and the
  promises of the chain of \<open>then\<close> that ends in \<open>main\<close> at 36, 38 and 40.
\<close>

section \<open>Addresses\<close>

text \<open>The addresses that change are apart from each other, from those that stay, and from the new ones.\<close>

definition apart :: "addr list \<Rightarrow> nat \<Rightarrow> bool" where
  "apart xs m \<longleftrightarrow> distinct xs \<and> (\<forall>n. m + 41 \<le> n \<longrightarrow> Addr n \<notin> set xs)
     \<and> set xs \<inter> {Addr 10, Addr 11, Addr 15, Addr 16, Addr 19, Addr 20, Addr 21, Addr 22, Addr 23, Addr 24, Addr 26, Addr 36,
       Addr 38, Addr 40} = {}"

lemma apart_distinct:
  assumes "apart xs m"
  shows "distinct xs" "distinct (rev xs)"
  using assms by (simp_all add: apart_def)

lemma apart_old:
  assumes "apart xs m" and "x \<in> set xs"
  shows "x \<noteq> Addr 10 \<and> Addr 10 \<noteq> x \<and> x \<noteq> Addr 11 \<and> Addr 11 \<noteq> x \<and> x
    \<noteq> Addr 15 \<and> Addr 15 \<noteq> x \<and> x \<noteq> Addr 16 \<and> Addr 16 \<noteq> x \<and> x
    \<noteq> Addr 19 \<and> Addr 19 \<noteq> x \<and> x \<noteq> Addr 20 \<and> Addr 20 \<noteq> x \<and> x
    \<noteq> Addr 21 \<and> Addr 21 \<noteq> x \<and> x \<noteq> Addr 22 \<and> Addr 22 \<noteq> x \<and> x
    \<noteq> Addr 23 \<and> Addr 23 \<noteq> x \<and> x \<noteq> Addr 24 \<and> Addr 24 \<noteq> x \<and> x
    \<noteq> Addr 26 \<and> Addr 26 \<noteq> x \<and> x \<noteq> Addr 36 \<and> Addr 36 \<noteq> x \<and> x
    \<noteq> Addr 38 \<and> Addr 38 \<noteq> x \<and> x \<noteq> Addr 40 \<and> Addr 40 \<noteq> x"
  using assms by (auto simp: apart_def)

lemma apart_new:
  assumes "apart xs m" and "x \<in> set xs" and "41 \<le> (numeral n :: nat)"
  shows "x \<noteq> Addr (numeral n + m)" "Addr (numeral n + m) \<noteq> x"
proof -
  have "m + 41 \<le> numeral n + m" using assms(3) by linarith
  then show "x \<noteq> Addr (numeral n + m)" "Addr (numeral n + m) \<noteq> x" using assms(1,2) by (auto simp: apart_def)
qed

lemma addr_offset [exec]: "Addr (numeral a + m) = Addr (numeral b + m) \<longleftrightarrow> a = b"
  by simp

lemma addr_old [exec]:
  assumes "b < a"
  shows "Addr (numeral a + m) \<noteq> Addr (numeral b)" "Addr (numeral b) \<noteq> Addr (numeral a + m)"
  using numeral_less_iff [where 'a = nat, of b a] assms by (metis addr.inject add_lessD1 less_irrefl)+

lemmas apart4 = apart_distinct [of "[ws, W, C, q]" for ws W C q, simplified]
  apart_old [of "[ws, W, C, q]" m ws for ws W C q m, simplified] apart_old [of "[ws, W, C, q]" m W for ws W C q m, simplified]
  apart_old [of "[ws, W, C, q]" m C for ws W C q m, simplified] apart_old [of "[ws, W, C, q]" m q for ws W C q m, simplified]
  apart_new [of "[ws, W, C, q]" m ws for ws W C q m, simplified] apart_new [of "[ws, W, C, q]" m W for ws W C q m, simplified]
  apart_new [of "[ws, W, C, q]" m C for ws W C q m, simplified] apart_new [of "[ws, W, C, q]" m q for ws W C q m, simplified]

lemmas apart6 = apart_distinct [of "[ws, W, C, q, r, u]" for ws W C q r u, simplified]
  apart_old [of "[ws, W, C, q, r, u]" m ws for ws W C q r u m, simplified] apart_old [of "[ws, W, C, q, r, u]" m W for ws W C q r u m, simplified]
  apart_old [of "[ws, W, C, q, r, u]" m C for ws W C q r u m, simplified] apart_old [of "[ws, W, C, q, r, u]" m q for ws W C q r u m, simplified]
  apart_old [of "[ws, W, C, q, r, u]" m r for ws W C q r u m, simplified] apart_old [of "[ws, W, C, q, r, u]" m u for ws W C q r u m, simplified]
  apart_new [of "[ws, W, C, q, r, u]" m ws for ws W C q r u m, simplified] apart_new [of "[ws, W, C, q, r, u]" m W for ws W C q r u m, simplified]
  apart_new [of "[ws, W, C, q, r, u]" m C for ws W C q r u m, simplified] apart_new [of "[ws, W, C, q, r, u]" m q for ws W C q r u m, simplified]
  apart_new [of "[ws, W, C, q, r, u]" m r for ws W C q r u m, simplified] apart_new [of "[ws, W, C, q, r, u]" m u for ws W C q r u m, simplified]

section \<open>States\<close>

abbreviation plain_promise :: "closure callback option \<Rightarrow> (closure, prom_kind) promise" where
  "plain_promise cb \<equiv> \<lparr>pclass = PlainPromise, matching_future = None, attached_callback = cb,
     attached_promise_ptr = None, backwards_pointed_promise = None\<rparr>"

abbreviation resting_promise :: "prom_kind promise_class \<Rightarrow> (closure, prom_kind) promise" where
  "resting_promise c \<equiv> \<lparr>pclass = c, matching_future = None, attached_callback = None,
     attached_promise_ptr = None, backwards_pointed_promise = None\<rparr>"

text \<open>The parts that do not change between two events.\<close>

definition echo_lists :: "naddr \<Rightarrow> naddr lnode option" where
  "echo_lists = [ListOf (Addr 11) \<mapsto> self_node (ListOf (Addr 11)), ListOf (Addr 21) \<mapsto> self_node (ListOf (Addr 21)),
       ListOf (Addr 23) \<mapsto> self_node (ListOf (Addr 23)), ListOf (Addr 36) \<mapsto> self_node (ListOf (Addr 36)),
       ListOf (Addr 38) \<mapsto> self_node (ListOf (Addr 38)), ListOf (Addr 40) \<mapsto> self_node (ListOf (Addr 40))]"

definition echo_registrants :: "addr list" where
  "echo_registrants = [Addr 10, Addr 19, Addr 22]"

definition echo_regs :: "addr \<Rightarrow> registrant option" where
  "echo_regs = [Addr 10 \<mapsto> \<lparr>loop_ptr = Some (), registered_index = 0\<rparr>,
     Addr 19 \<mapsto> \<lparr>loop_ptr = Some (), registered_index = Suc 0\<rparr>, Addr 22 \<mapsto> \<lparr>loop_ptr = Some (), registered_index = 2\<rparr>]"

definition echo_fds :: "Fd \<Rightarrow> Fd \<Rightarrow> Fd \<Rightarrow> addr \<Rightarrow> Fd option" where
  "echo_fds sfd ifd ofd = [Addr 10 \<mapsto> sfd, Addr 19 \<mapsto> ifd, Addr 22 \<mapsto> ofd]"

definition echo_promises :: "addr \<Rightarrow> (closure, prom_kind) promise option" where
  "echo_promises = [Addr 11 \<mapsto> \<lparr>pclass = DefaultCancellable, matching_future = None,
         attached_callback = Some (CThenCb (Addr 15) (KSignalled (Addr 10))), attached_promise_ptr = Some (Addr 15),
         backwards_pointed_promise = None\<rparr>,
       Addr 15 \<mapsto> \<lparr>pclass = CancellableThenF, matching_future = Some (Addr 16), attached_callback = None,
         attached_promise_ptr = None, backwards_pointed_promise = Some (Addr 11)\<rparr>,
       Addr 21 \<mapsto> resting_promise (OtherCancellable (PipeWrite (Addr 19))),
       Addr 23 \<mapsto> resting_promise (OtherCancellable (PipeRead (Addr 22))),
       Addr 36 \<mapsto> plain_promise (Some (ThenCb (Addr 38) KEchoDone)),
       Addr 38 \<mapsto> plain_promise (Some (ThenCb (Addr 40) (KFinally (Addr 10) (Addr 16)))),
       Addr 40 \<mapsto> plain_promise (Some (UserCb KFinished))]"

definition echo_signal_fds :: "addr \<Rightarrow> signal_fd option" where
  "echo_signal_fds = [Addr 10 \<mapsto> \<lparr>sig_read_ready = False, sig_read_promise = Addr 11\<rparr>]"

lemmas echo_fixed = echo_lists_def echo_registrants_def echo_regs_def echo_fds_def echo_promises_def echo_signal_fds_def

lemma echo_lookup:
  "echo_lists (ListOf (Addr 36)) = Some (self_node (ListOf (Addr 36)))"
  "a \<notin> {Addr 11, Addr 21, Addr 23, Addr 36, Addr 38, Addr 40} \<Longrightarrow> echo_lists (ListOf a) = None"
  "echo_lists (NotifyOf b i) = None" "echo_lists (LocalList b) = None"
  "echo_fds sfd ifd ofd (Addr 10) = Some sfd" "echo_fds sfd ifd ofd (Addr 19) = Some ifd" "echo_fds sfd ifd ofd (Addr 22) = Some ofd"
  "echo_promises (Addr 15) = Some \<lparr>pclass = CancellableThenF, matching_future = Some (Addr 16), attached_callback = None,
     attached_promise_ptr = None, backwards_pointed_promise = Some (Addr 11)\<rparr>"
  "echo_promises (Addr 36) = Some (plain_promise (Some (ThenCb (Addr 38) KEchoDone)))"
  "a \<notin> {Addr 11, Addr 15, Addr 21, Addr 23, Addr 36, Addr 38, Addr 40} \<Longrightarrow> echo_promises a = None"
  by (auto simp: echo_fixed)

text \<open>Waiting for the read: \<open>C\<close> is its future, \<open>ws\<close> the object of \<open>wait_any\<close> with its promise \<open>W\<close>, and
  \<open>q\<close> the promise of the chain.\<close>

definition echo_reading ::
  "bool \<Rightarrow> Fd \<Rightarrow> Fd \<Rightarrow> Fd \<Rightarrow> Fd \<Rightarrow> addr \<Rightarrow> addr \<Rightarrow> addr \<Rightarrow> addr \<Rightarrow> nat \<Rightarrow> u8 list \<Rightarrow> 'os \<Rightarrow> 'os sock_st" where
  "echo_reading b ep sfd ifd ofd ws W C q m buf k = \<lparr>
     lnodes = echo_lists(ListOf (Addr 15) \<mapsto> both (NotifyOf ws 0), NotifyOf ws 0 \<mapsto> both (ListOf (Addr 15)),
       ListOf (Addr 20) \<mapsto> both (NotifyOf ws (Suc 0)), NotifyOf ws (Suc 0) \<mapsto> both (ListOf (Addr 20)),
       ListOf (Addr 24) \<mapsto> self_node (ListOf (Addr 24)),
       ListOf W \<mapsto> self_node (ListOf W), ListOf q \<mapsto> self_node (ListOf q)),
     os = k, epoll_fd = ep, mid_step = b, registrants = echo_registrants, enqueued_actions = [],
     spare_actions_buf = [],
     regs = echo_regs,
     reg_fd = echo_fds sfd ifd ofd,
     futures = [Addr 16 \<mapsto> pending_future (Addr 15), C \<mapsto> pending_future (Addr 20)],
     promises = echo_promises(Addr 20 \<mapsto> linked_promise (OtherCancellable (PipeRead (Addr 19))) C,
       Addr 24 \<mapsto> resting_promise (OtherCancellable (PipeWrite (Addr 22))),
       W \<mapsto> plain_promise (Some (ThenCb q (KRead \<lparr>ctx_interruptor = Addr 16\<rparr> \<lparr>owned = Addr 26, buf_length = 128\<rparr> (Addr 19) (Addr 22) C))),
       q \<mapsto> plain_promise (Some (ThenCb (Addr 36) (KClosePipes (Addr 19) (Addr 22))))),
     next_addr = 41 + m, wait_states = [ws \<mapsto> \<lparr>was_prom = W, was_n = 2\<rparr>],
     mem = [Addr 26 \<mapsto> buf], flags = Map.empty,
     pipes = [Addr 19 \<mapsto> \<lparr>read_ready = False, write_ready = True, read_buf = Some (Addr 26, 0), read_nbytes = 128, read_promise = Addr 20,
          write_buf = None, write_nbytes = 0, write_promise = Addr 21, destruct_pointer = None\<rparr>,
       Addr 22 \<mapsto> \<lparr>read_ready = True, write_ready = True, read_buf = None, read_nbytes = 0, read_promise = Addr 23,
          write_buf = None, write_nbytes = 0, write_promise = Addr 24, destruct_pointer = None\<rparr>],
     signal_fds = echo_signal_fds,
     listen_sockets = Map.empty\<rparr>"

text \<open>Waiting to write the \<open>cnt\<close> bytes of the buffer from \<open>off\<close> on; \<open>rr\<close> says that the kernel announced
  more to read meanwhile.\<close>

definition echo_writing ::
  "bool \<Rightarrow> Fd \<Rightarrow> Fd \<Rightarrow> Fd \<Rightarrow> Fd \<Rightarrow> addr \<Rightarrow> addr \<Rightarrow> addr \<Rightarrow> addr \<Rightarrow> addr \<Rightarrow> addr \<Rightarrow> nat \<Rightarrow> u8 list
     \<Rightarrow> bool \<Rightarrow> nat \<Rightarrow> nat \<Rightarrow> nat \<Rightarrow> 'os \<Rightarrow> 'os sock_st" where
  "echo_writing b ep sfd ifd ofd ws W C q1 q2 q3 m buf rr off cnt sz k = \<lparr>
     lnodes = echo_lists(ListOf (Addr 15) \<mapsto> both (NotifyOf ws 0), NotifyOf ws 0 \<mapsto> both (ListOf (Addr 15)),
       ListOf (Addr 24) \<mapsto> both (NotifyOf ws (Suc 0)), NotifyOf ws (Suc 0) \<mapsto> both (ListOf (Addr 24)),
       ListOf (Addr 20) \<mapsto> self_node (ListOf (Addr 20)),
       ListOf W \<mapsto> self_node (ListOf W), ListOf q1 \<mapsto> self_node (ListOf q1), ListOf q2 \<mapsto> self_node (ListOf q2), ListOf q3 \<mapsto> self_node (ListOf q3)),
     os = k, epoll_fd = ep, mid_step = b, registrants = echo_registrants, enqueued_actions = [],
     spare_actions_buf = [],
     regs = echo_regs,
     reg_fd = echo_fds sfd ifd ofd,
     futures = [Addr 16 \<mapsto> pending_future (Addr 15), C \<mapsto> pending_future (Addr 24)],
     promises = echo_promises(Addr 20 \<mapsto> resting_promise (OtherCancellable (PipeRead (Addr 19))),
       Addr 24 \<mapsto> linked_promise (OtherCancellable (PipeWrite (Addr 22))) C,
       W \<mapsto> plain_promise (Some (ThenCb q1 (KInterruptible (Addr 16) C))),
       q1 \<mapsto> plain_promise (Some (ThenCb q2 (KWritten \<lparr>ctx_interruptor = Addr 16\<rparr> (Addr 22) (Addr 26, off) cnt off))),
       q2 \<mapsto> plain_promise (Some (ThenCb q3 (KEchoed \<lparr>owned = Addr 26, buf_length = 128\<rparr> sz \<lparr>ctx_interruptor = Addr 16\<rparr> (Addr 19) (Addr 22)))),
       q3 \<mapsto> plain_promise (Some (ThenCb (Addr 36) (KClosePipes (Addr 19) (Addr 22))))),
     next_addr = 41 + m, wait_states = [ws \<mapsto> \<lparr>was_prom = W, was_n = 2\<rparr>],
     mem = [Addr 26 \<mapsto> buf], flags = Map.empty,
     pipes = [Addr 19 \<mapsto> \<lparr>read_ready = rr, write_ready = True, read_buf = None, read_nbytes = 0, read_promise = Addr 20,
          write_buf = None, write_nbytes = 0, write_promise = Addr 21, destruct_pointer = None\<rparr>,
       Addr 22 \<mapsto> \<lparr>read_ready = True, write_ready = False, read_buf = None, read_nbytes = 0, read_promise = Addr 23,
          write_buf = Some (Addr 26, off), write_nbytes = cnt, write_promise = Addr 24, destruct_pointer = None\<rparr>],
     signal_fds = echo_signal_fds,
     listen_sockets = Map.empty\<rparr>"

text \<open>Finished: nothing is left but the descriptor of the loop.\<close>

definition echo_over :: "bool \<Rightarrow> Fd \<Rightarrow> nat \<Rightarrow> 'os \<Rightarrow> 'os sock_st" where
  "echo_over b ep m k = \<lparr>lnodes = Map.empty, os = k, epoll_fd = ep, mid_step = b, registrants = [], enqueued_actions = [],
     spare_actions_buf = [], regs = Map.empty, reg_fd = Map.empty, futures = Map.empty, promises = Map.empty, next_addr = m,
     wait_states = Map.empty, mem = Map.empty, flags = Map.empty, pipes = Map.empty, signal_fds = Map.empty,
     listen_sockets = Map.empty\<rparr>"

section \<open>Teardown\<close>

text \<open>Deregistering always succeeds and \<open>close\<close> does anything; \<open>dl\<close> and \<open>cl\<close> are what the two calls do to the
  kernel.\<close>

definition shuts ::
  "'os env \<Rightarrow> Fd \<Rightarrow> Fd list \<Rightarrow> (Fd \<Rightarrow> 'os \<Rightarrow> 'os) \<Rightarrow> (Fd \<Rightarrow> 'os \<Rightarrow> int + unit) \<Rightarrow> (Fd \<Rightarrow> 'os \<Rightarrow> 'os) \<Rightarrow> bool" where
  "shuts E ep ds dl cr cl \<longleftrightarrow> (\<forall>fd k. sys_epoll_del (sys E) ep fd k = (Inr (), dl fd k))
     \<and> (\<forall>fd k. sys_close (sys E) fd k = (cr fd k, cl fd k)) \<and> ep \<noteq> -1 \<and> -1 \<notin> set ds"

lemma shutsD:
  assumes "shuts E ep [sfd, ifd, ofd] dl cr cl"
  shows "sys_epoll_del (sys E) ep fd k = (Inr (), dl fd k)" "sys_close (sys E) fd k = (cr fd k, cl fd k)"
    "ep \<noteq> -1" "sfd \<noteq> -1" "ifd \<noteq> -1" "ofd \<noteq> -1"
  using assms by (auto simp: shuts_def)

lemma short_read:
  assumes "length bs < 128"
  shows "length bs \<le> 128" "length bs \<noteq> 128"
  using assms by simp_all

abbreviation would_block :: "int \<Rightarrow> bool" where
  "would_block e \<equiv> e = EAGAIN \<or> e = EWOULDBLOCK"

lemmas signal_defs = sig_on_update_def sig_try_doing_read_def signalled_lambda_def pipe_promise_cancel_def

lemmas echo_exec = echo_fixed exec future_defs wait_defs pipe_defs program_defs teardown_defs signal_defs

lemmas echo_read_exec = echo_lookup exec future_defs wait_defs pipe_defs program_defs

end
