(* ===== verification/EchoReading.thy ===== *)
theory EchoReading
  imports EchoStates
begin

text \<open>
  Every event while the program waits for the read: what the system calls return decides which state
  is next.
\<close>

section \<open>The pipe that is read\<close>

lemma reading_again:
  assumes ap: "apart [ws, W, C, q] m" and ev: "read_bits ev"
    and rd: "retry_eintr (sys_read (sys E) ifd 128) k = Some (Inl e, k1)" and e: "would_block e"
  shows "pipe_on_update (sys E) (hooks E (deep d)) (deep d) (Addr 19) ev (echo_reading b ep sfd ifd ofd ws W C q m buf k)
    = Inr ((), echo_reading b ep sfd ifd ofd ws W C q (Suc m) buf k1)"
  unfolding echo_reading_def on_update_parts
  by (simp add: echo_read_exec ev apart4 [OF ap] rd e cong: exec_congs del: exec_del) (rule ext; simp)

lemma reading_eof:
  assumes ap: "apart [ws, W, C, q] m" and ev: "read_bits ev" and len: "length buf = 128"
    and rd: "retry_eintr (sys_read (sys E) ifd 128) k = Some (Inr [], k1)"
    and c: "shuts E ep [sfd, ifd, ofd] dl cr cl"
  shows "\<exists>n. pipe_on_update (sys E) (hooks E (deep d)) (deep d) (Addr 19) ev (echo_reading b ep sfd ifd ofd ws W C q m buf k)
    = Inr ((), echo_over b ep n (cl sfd (dl sfd (cl ofd (dl ofd (cl ifd (dl ifd k1)))))))"
  unfolding echo_reading_def echo_over_def on_update_parts
  by (simp add: echo_exec ev apart4 [OF ap] rd len shutsD [OF c] cong: exec_congs del: exec_del)

lemma reading_error:
  assumes ap: "apart [ws, W, C, q] m" and ev: "read_bits ev"
    and rd: "retry_eintr (sys_read (sys E) ifd 128) k = Some (Inl e, k1)" and e: "e \<noteq> EAGAIN" "e \<noteq> EWOULDBLOCK"
    and c: "shuts E ep [sfd, ifd, ofd] dl cr cl"
  shows "\<exists>n. pipe_on_update (sys E) (hooks E (deep d)) (deep d) (Addr 19) ev (echo_reading b ep sfd ifd ofd ws W C q m buf k)
    = Inr ((), echo_over b ep n (cl sfd (dl sfd (cl ofd (dl ofd (cl ifd (dl ifd k1)))))))"
  unfolding echo_reading_def echo_over_def on_update_parts
  by (simp add: echo_exec ev apart4 [OF ap] rd e shutsD [OF c] cong: exec_congs del: exec_del)

lemma reading_echoed:
  assumes ap: "apart [ws, W, C, q] m" and ev: "read_bits ev" and len: "length buf = 128"
    and rd: "retry_eintr (sys_read (sys E) ifd 128) k = Some (Inr bs, k1)" and bs: "bs \<noteq> []" "length bs < 128"
    and wr: "retry_eintr (sys_write (sys E) ofd bs) k1 = Some (Inr (length bs), k2)"
  shows "pipe_on_update (sys E) (hooks E (deep d)) (deep d) (Addr 19) ev (echo_reading b ep sfd ifd ofd ws W C q m buf k)
    = Inr ((), echo_reading b ep sfd ifd ofd (Addr (53 + m)) (Addr (54 + m)) (Addr (55 + m)) (Addr (57 + m)) (17 + m)
        (bs @ drop (length bs) buf) k2)"
  unfolding echo_reading_def on_update_parts
  by (simp add: echo_read_exec ev apart4 [OF ap] rd wr len bs short_read [OF bs(2)] cong: exec_congs del: exec_del)
    (intro conjI ext; simp)

lemma reading_blocked:
  assumes ap: "apart [ws, W, C, q] m" and ev: "read_bits ev" and len: "length buf = 128"
    and rd: "retry_eintr (sys_read (sys E) ifd 128) k = Some (Inr bs, k1)" and bs: "bs \<noteq> []" "length bs < 128"
    and wr: "retry_eintr (sys_write (sys E) ofd bs) k1 = Some (Inl e, k2)" and e: "would_block e"
  shows "pipe_on_update (sys E) (hooks E (deep d)) (deep d) (Addr 19) ev (echo_reading b ep sfd ifd ofd ws W C q m buf k)
    = Inr ((), echo_writing b ep sfd ifd ofd (Addr (49 + m)) (Addr (50 + m)) (Addr (51 + m)) (Addr (53 + m)) (Addr (55 + m))
        (Addr (57 + m)) (17 + m) (bs @ drop (length bs) buf) False 0 (length bs) (length bs) k2)"
  unfolding echo_reading_def echo_writing_def on_update_parts
  by (simp add: echo_read_exec ev apart4 [OF ap] rd wr e len bs short_read [OF bs(2)] cong: exec_congs del: exec_del)
    (intro conjI ext; simp)

lemma reading_short:
  assumes ap: "apart [ws, W, C, q] m" and ev: "read_bits ev" and len: "length buf = 128"
    and rd: "retry_eintr (sys_read (sys E) ifd 128) k = Some (Inr bs, k1)" and bs: "bs \<noteq> []" "length bs < 128"
    and wr: "retry_eintr (sys_write (sys E) ofd bs) k1 = Some (Inr j, k2)" and j: "j < length bs"
  shows "pipe_on_update (sys E) (hooks E (deep d)) (deep d) (Addr 19) ev (echo_reading b ep sfd ifd ofd ws W C q m buf k)
    = Inr ((), echo_writing b ep sfd ifd ofd (Addr (54 + m)) (Addr (55 + m)) (Addr (56 + m)) (Addr (58 + m)) (Addr (60 + m))
        (Addr (62 + m)) (22 + m) (bs @ drop (length bs) buf) False j (length bs - j) (length bs) k2)"
proof -
  have j': "j \<noteq> length bs" "j \<le> length bs" using j by simp_all
  show ?thesis
  unfolding echo_reading_def echo_writing_def on_update_parts
  by (simp add: echo_read_exec ev apart4 [OF ap] rd wr j j' len bs short_read [OF bs(2)] cong: exec_congs del: exec_del)
    (intro conjI ext; simp)
qed

lemma reading_write_error:
  assumes ap: "apart [ws, W, C, q] m" and ev: "read_bits ev" and len: "length buf = 128"
    and rd: "retry_eintr (sys_read (sys E) ifd 128) k = Some (Inr bs, k1)" and bs: "bs \<noteq> []" "length bs < 128"
    and wr: "retry_eintr (sys_write (sys E) ofd bs) k1 = Some (Inl e, k2)" and e: "e \<noteq> EAGAIN" "e \<noteq> EWOULDBLOCK"
    and c: "shuts E ep [sfd, ifd, ofd] dl cr cl"
  shows "\<exists>n. pipe_on_update (sys E) (hooks E (deep d)) (deep d) (Addr 19) ev (echo_reading b ep sfd ifd ofd ws W C q m buf k)
    = Inr ((), echo_over b ep n (cl sfd (dl sfd (cl ofd (dl ofd (cl ifd (dl ifd k2)))))))"
  unfolding echo_reading_def echo_over_def on_update_parts
  by (simp add: echo_exec ev apart4 [OF ap] rd wr e len bs short_read [OF bs(2)] shutsD [OF c] cong: exec_congs del: exec_del)

section \<open>The signal descriptor\<close>

lemma reading_signal_again:
  assumes ap: "apart [ws, W, C, q] m" and ev: "read_bits ev"
    and rd: "retry_eintr (sys_read_siginfo (sys E) sfd) k = Some (Inl e, k1)" and e: "would_block e"
  shows "sig_on_update (sys E) (hooks E (deep d)) (deep d) (Addr 10) ev (echo_reading b ep sfd ifd ofd ws W C q m buf k)
    = Inr ((), echo_reading b ep sfd ifd ofd ws W C q m buf k1)"
  unfolding echo_reading_def
  by (simp add: echo_exec ev apart4 [OF ap] rd e cong: exec_congs del: exec_del)

lemma reading_signal:
  assumes ap: "apart [ws, W, C, q] m" and ev: "read_bits ev"
    and rd: "retry_eintr (sys_read_siginfo (sys E) sfd) k = Some (Inr (128, signo), k1)" and sg: "signo = SIGINT \<or> signo = SIGTERM"
    and c: "shuts E ep [sfd, ifd, ofd] dl cr cl"
  shows "\<exists>n. sig_on_update (sys E) (hooks E (deep d)) (deep d) (Addr 10) ev (echo_reading b ep sfd ifd ofd ws W C q m buf k)
    = Inr ((), echo_over b ep n (cl sfd (dl sfd (cl ofd (dl ofd (cl ifd (dl ifd k1)))))))"
  unfolding echo_reading_def echo_over_def
  by (simp add: echo_exec ev apart4 [OF ap] rd sg shutsD [OF c] cong: exec_congs del: exec_del)

lemma reading_signal_error:
  assumes ap: "apart [ws, W, C, q] m" and ev: "read_bits ev"
    and rd: "retry_eintr (sys_read_siginfo (sys E) sfd) k = Some (Inl e, k1)" and e: "e \<noteq> EAGAIN" "e \<noteq> EWOULDBLOCK"
    and c: "shuts E ep [sfd, ifd, ofd] dl cr cl"
  shows "\<exists>n. sig_on_update (sys E) (hooks E (deep d)) (deep d) (Addr 10) ev (echo_reading b ep sfd ifd ofd ws W C q m buf k)
    = Inr ((), echo_over b ep n (cl sfd (dl sfd (cl ofd (dl ofd (cl ifd (dl ifd k1)))))))"
  unfolding echo_reading_def echo_over_def
  by (simp add: echo_exec ev apart4 [OF ap] rd e shutsD [OF c] cong: exec_congs del: exec_del)

section \<open>Events that change nothing\<close>

lemma reading_idle:
  assumes ap: "apart [ws, W, C, q] m" and ev: "a = Addr 22 \<or> a = Addr 19 \<and> \<not> read_bits ev"
  shows "pipe_on_update (sys E) (hooks E (deep d)) (deep d) a ev (echo_reading b ep sfd ifd ofd ws W C q m buf k)
    = Inr ((), echo_reading b ep sfd ifd ofd ws W C q (Suc m) buf k)"
  using ev
proof (elim disjE conjE)
  assume "a = Addr 22"
  then show ?thesis
    unfolding echo_reading_def on_update_parts
    by (simp add: echo_read_exec apart4 [OF ap] cong: exec_congs del: exec_del) (intro conjI ext; simp)?
next
  assume "a = Addr 19" and ev: "\<not> read_bits ev"
  then show ?thesis
    unfolding echo_reading_def on_update_parts
    by (simp add: echo_read_exec ev apart4 [OF ap] cong: exec_congs del: exec_del) (intro conjI ext; simp)?
qed

end
