(* ===== verification/EchoWriting.thy ===== *)
theory EchoWriting
  imports EchoStates
begin

text \<open>
  Every event while the program waits for the rest of a write.
\<close>

section \<open>The pipe that is written\<close>

lemma writing_again:
  assumes ap: "apart [ws, W, C, q1, q2, q3] m" and ev: "write_bits ev"
    and len: "length buf = 128"
    and o: "off + cnt \<le> 128"
    and wr: "retry_eintr (sys_write (sys E) ofd (take cnt (drop off buf))) k = Some (Inl e, k1)"
    and e: "would_block e"
  shows "pipe_on_update (sys E) (hooks E (deep d)) (deep d) (Addr 22) ev
      (echo_writing b ep sfd ifd ofd ws W C q1 q2 q3 m buf rr off cnt sz k)
    = Inr ((), echo_writing b ep sfd ifd ofd ws W C q1 q2 q3 (Suc m) buf rr off cnt sz k1)"
  unfolding echo_writing_def echo_reading_def on_update_parts
  by (simp add: echo_read_exec ev apart6 [OF ap] len o wr e cong: exec_congs del: exec_del)

lemma writing_short:
  assumes ap: "apart [ws, W, C, q1, q2, q3] m" and ev: "write_bits ev"
    and len: "length buf = 128"
    and o: "off + cnt \<le> 128"
    and wr: "retry_eintr (sys_write (sys E) ofd (take cnt (drop off buf))) k = Some (Inr j, k1)"
    and j: "j < cnt"
  shows "pipe_on_update (sys E) (hooks E (deep d)) (deep d) (Addr 22) ev
      (echo_writing b ep sfd ifd ofd ws W C q1 q2 q3 m buf rr off cnt sz k)
    = Inr ((), echo_writing b ep sfd ifd ofd (Addr (49 + m)) (Addr (50 + m)) (Addr (51 + m)) (Addr (53 + m)) (Addr (55 + m)) q3
        (15 + m) buf rr (off + j) (cnt - j) sz k1)"
  unfolding echo_writing_def echo_reading_def on_update_parts
  by (simp add: echo_read_exec ev apart6 [OF ap] len o wr j less_imp_le [OF j] less_imp_neq [OF j] cong: exec_congs del: exec_del)
    (intro conjI ext; simp add: apart6 [OF ap])

lemma writing_error:
  assumes ap: "apart [ws, W, C, q1, q2, q3] m" and ev: "write_bits ev"
    and len: "length buf = 128"
    and o: "off + cnt \<le> 128"
    and wr: "retry_eintr (sys_write (sys E) ofd (take cnt (drop off buf))) k = Some (Inl e, k1)"
    and e: "e \<noteq> EAGAIN" "e \<noteq> EWOULDBLOCK"
    and c: "shuts E ep [sfd, ifd, ofd] dl cr cl"
  shows "\<exists>n. pipe_on_update (sys E) (hooks E (deep d)) (deep d) (Addr 22) ev
      (echo_writing b ep sfd ifd ofd ws W C q1 q2 q3 m buf rr off cnt sz k)
    = Inr ((), echo_over b ep n (cl sfd (dl sfd (cl ofd (dl ofd (cl ifd (dl ifd k1)))))))"
  unfolding echo_writing_def echo_over_def on_update_parts
  by (simp add: echo_exec ev apart6 [OF ap] len o wr e shutsD [OF c] cong: exec_congs del: exec_del)

lemma writing_done:
  assumes ap: "apart [ws, W, C, q1, q2, q3] m" and ev: "write_bits ev"
    and len: "length buf = 128"
    and o: "off + cnt \<le> 128"
    and wr: "retry_eintr (sys_write (sys E) ofd (take cnt (drop off buf))) k = Some (Inr cnt, k1)"
  shows "pipe_on_update (sys E) (hooks E (deep d)) (deep d) (Addr 22) ev
      (echo_writing b ep sfd ifd ofd ws W C q1 q2 q3 m buf False off cnt sz k)
    = Inr ((), echo_reading b ep sfd ifd ofd (Addr (49 + m)) (Addr (50 + m)) (Addr (51 + m)) (Addr (53 + m)) (13 + m) buf k1)"
  unfolding echo_writing_def echo_reading_def on_update_parts
  by (simp add: echo_read_exec ev apart6 [OF ap] len o wr cong: exec_congs del: exec_del)
    (intro conjI ext; simp)

lemma writing_done_again:
  assumes ap: "apart [ws, W, C, q1, q2, q3] m" and ev: "write_bits ev"
    and len: "length buf = 128"
    and o: "off + cnt \<le> 128"
    and wr: "retry_eintr (sys_write (sys E) ofd (take cnt (drop off buf))) k = Some (Inr cnt, k1)"
    and rd: "retry_eintr (sys_read (sys E) ifd 128) k1 = Some (Inl e, k2)"
    and e: "would_block e"
  shows "pipe_on_update (sys E) (hooks E (deep d)) (deep d) (Addr 22) ev
      (echo_writing b ep sfd ifd ofd ws W C q1 q2 q3 m buf True off cnt sz k)
    = Inr ((), echo_reading b ep sfd ifd ofd (Addr (49 + m)) (Addr (50 + m)) (Addr (51 + m)) (Addr (53 + m)) (13 + m) buf k2)"
  unfolding echo_writing_def echo_reading_def on_update_parts
  by (simp add: echo_read_exec ev apart6 [OF ap] len o wr rd e cong: exec_congs del: exec_del)
    (intro conjI ext; simp)

lemma writing_done_eof:
  assumes ap: "apart [ws, W, C, q1, q2, q3] m" and ev: "write_bits ev"
    and len: "length buf = 128"
    and o: "off + cnt \<le> 128"
    and wr: "retry_eintr (sys_write (sys E) ofd (take cnt (drop off buf))) k = Some (Inr cnt, k1)"
    and rd: "retry_eintr (sys_read (sys E) ifd 128) k1 = Some (Inr [], k2)"
    and c: "shuts E ep [sfd, ifd, ofd] dl cr cl"
  shows "\<exists>n. pipe_on_update (sys E) (hooks E (deep d)) (deep d) (Addr 22) ev
      (echo_writing b ep sfd ifd ofd ws W C q1 q2 q3 m buf True off cnt sz k)
    = Inr ((), echo_over b ep n (cl sfd (dl sfd (cl ofd (dl ofd (cl ifd (dl ifd k2)))))))"
  unfolding echo_writing_def echo_over_def on_update_parts
  by (simp add: echo_exec ev apart6 [OF ap] len o wr rd shutsD [OF c] cong: exec_congs del: exec_del)

lemma writing_done_error:
  assumes ap: "apart [ws, W, C, q1, q2, q3] m" and ev: "write_bits ev"
    and len: "length buf = 128"
    and o: "off + cnt \<le> 128"
    and wr: "retry_eintr (sys_write (sys E) ofd (take cnt (drop off buf))) k = Some (Inr cnt, k1)"
    and rd: "retry_eintr (sys_read (sys E) ifd 128) k1 = Some (Inl e, k2)"
    and e: "e \<noteq> EAGAIN" "e \<noteq> EWOULDBLOCK"
    and c: "shuts E ep [sfd, ifd, ofd] dl cr cl"
  shows "\<exists>n. pipe_on_update (sys E) (hooks E (deep d)) (deep d) (Addr 22) ev
      (echo_writing b ep sfd ifd ofd ws W C q1 q2 q3 m buf True off cnt sz k)
    = Inr ((), echo_over b ep n (cl sfd (dl sfd (cl ofd (dl ofd (cl ifd (dl ifd k2)))))))"
  unfolding echo_writing_def echo_over_def on_update_parts
  by (simp add: echo_exec ev apart6 [OF ap] len o wr rd e shutsD [OF c] cong: exec_congs del: exec_del)

lemma writing_done_echoed:
  assumes ap: "apart [ws, W, C, q1, q2, q3] m" and ev: "write_bits ev"
    and len: "length buf = 128"
    and o: "off + cnt \<le> 128"
    and wr: "retry_eintr (sys_write (sys E) ofd (take cnt (drop off buf))) k = Some (Inr cnt, k1)"
    and rd: "retry_eintr (sys_read (sys E) ifd 128) k1 = Some (Inr bs, k2)"
    and bs: "bs \<noteq> []" "length bs < 128"
    and wr2: "retry_eintr (sys_write (sys E) ofd bs) k2 = Some (Inr (length bs), k3)"
  shows "pipe_on_update (sys E) (hooks E (deep d)) (deep d) (Addr 22) ev
      (echo_writing b ep sfd ifd ofd ws W C q1 q2 q3 m buf True off cnt sz k)
    = Inr ((), echo_reading b ep sfd ifd ofd (Addr (59 + m)) (Addr (60 + m)) (Addr (61 + m)) (Addr (63 + m)) (23 + m)
        (bs @ drop (length bs) buf) k3)"
  unfolding echo_writing_def echo_reading_def on_update_parts
  by (simp add: echo_read_exec ev apart6 [OF ap] len o wr rd wr2 bs short_read [OF bs(2)] cong: exec_congs del: exec_del)
    (intro conjI ext; simp)

lemma writing_done_blocked:
  assumes ap: "apart [ws, W, C, q1, q2, q3] m" and ev: "write_bits ev"
    and len: "length buf = 128"
    and o: "off + cnt \<le> 128"
    and wr: "retry_eintr (sys_write (sys E) ofd (take cnt (drop off buf))) k = Some (Inr cnt, k1)"
    and rd: "retry_eintr (sys_read (sys E) ifd 128) k1 = Some (Inr bs, k2)"
    and bs: "bs \<noteq> []" "length bs < 128"
    and wr2: "retry_eintr (sys_write (sys E) ofd bs) k2 = Some (Inl e, k3)"
    and e: "would_block e"
  shows "pipe_on_update (sys E) (hooks E (deep d)) (deep d) (Addr 22) ev
      (echo_writing b ep sfd ifd ofd ws W C q1 q2 q3 m buf True off cnt sz k)
    = Inr ((), echo_writing b ep sfd ifd ofd (Addr (55 + m)) (Addr (56 + m)) (Addr (57 + m)) (Addr (59 + m)) (Addr (61 + m))
        (Addr (63 + m)) (23 + m) (bs @ drop (length bs) buf) False 0 (length bs) (length bs) k3)"
  unfolding echo_writing_def echo_reading_def on_update_parts
  by (simp add: echo_read_exec ev apart6 [OF ap] len o wr rd wr2 e bs short_read [OF bs(2)] cong: exec_congs del: exec_del)
    (intro conjI ext; simp)

lemma writing_done_short:
  assumes ap: "apart [ws, W, C, q1, q2, q3] m" and ev: "write_bits ev"
    and len: "length buf = 128"
    and o: "off + cnt \<le> 128"
    and wr: "retry_eintr (sys_write (sys E) ofd (take cnt (drop off buf))) k = Some (Inr cnt, k1)"
    and rd: "retry_eintr (sys_read (sys E) ifd 128) k1 = Some (Inr bs, k2)"
    and bs: "bs \<noteq> []" "length bs < 128"
    and wr2: "retry_eintr (sys_write (sys E) ofd bs) k2 = Some (Inr j, k3)"
    and j: "j < length bs"
  shows "pipe_on_update (sys E) (hooks E (deep d)) (deep d) (Addr 22) ev
      (echo_writing b ep sfd ifd ofd ws W C q1 q2 q3 m buf True off cnt sz k)
    = Inr ((), echo_writing b ep sfd ifd ofd (Addr (60 + m)) (Addr (61 + m)) (Addr (62 + m)) (Addr (64 + m)) (Addr (66 + m))
        (Addr (68 + m)) (28 + m) (bs @ drop (length bs) buf) False j (length bs - j) (length bs) k3)"
  unfolding echo_writing_def echo_reading_def on_update_parts
  by (simp add: echo_read_exec ev apart6 [OF ap] len o wr rd wr2 bs short_read [OF bs(2)] j less_imp_le [OF j] less_imp_neq [OF j] cong: exec_congs del: exec_del)
    (intro conjI ext; simp)

lemma writing_done_write_error:
  assumes ap: "apart [ws, W, C, q1, q2, q3] m" and ev: "write_bits ev"
    and len: "length buf = 128"
    and o: "off + cnt \<le> 128"
    and wr: "retry_eintr (sys_write (sys E) ofd (take cnt (drop off buf))) k = Some (Inr cnt, k1)"
    and rd: "retry_eintr (sys_read (sys E) ifd 128) k1 = Some (Inr bs, k2)"
    and bs: "bs \<noteq> []" "length bs < 128"
    and wr2: "retry_eintr (sys_write (sys E) ofd bs) k2 = Some (Inl e, k3)"
    and e: "e \<noteq> EAGAIN" "e \<noteq> EWOULDBLOCK"
    and c: "shuts E ep [sfd, ifd, ofd] dl cr cl"
  shows "\<exists>n. pipe_on_update (sys E) (hooks E (deep d)) (deep d) (Addr 22) ev
      (echo_writing b ep sfd ifd ofd ws W C q1 q2 q3 m buf True off cnt sz k)
    = Inr ((), echo_over b ep n (cl sfd (dl sfd (cl ofd (dl ofd (cl ifd (dl ifd k3)))))))"
  unfolding echo_writing_def echo_over_def on_update_parts
  by (simp add: echo_exec ev apart6 [OF ap] len o wr rd wr2 e bs short_read [OF bs(2)] shutsD [OF c] cong: exec_congs del: exec_del)

section \<open>The signal descriptor\<close>

lemma writing_signal_again:
  assumes ap: "apart [ws, W, C, q1, q2, q3] m" and ev: "read_bits ev"
    and rd: "retry_eintr (sys_read_siginfo (sys E) sfd) k = Some (Inl e, k1)"
    and e: "would_block e"
  shows "sig_on_update (sys E) (hooks E (deep d)) (deep d) (Addr 10) ev
      (echo_writing b ep sfd ifd ofd ws W C q1 q2 q3 m buf rr off cnt sz k)
    = Inr ((), echo_writing b ep sfd ifd ofd ws W C q1 q2 q3 m buf rr off cnt sz k1)"
  unfolding echo_writing_def echo_reading_def
  by (simp add: echo_exec ev apart6 [OF ap] rd e cong: exec_congs del: exec_del)

lemma writing_signal:
  assumes ap: "apart [ws, W, C, q1, q2, q3] m" and ev: "read_bits ev"
    and rd: "retry_eintr (sys_read_siginfo (sys E) sfd) k = Some (Inr (128, signo), k1)"
    and sg: "signo = SIGINT \<or> signo = SIGTERM"
    and c: "shuts E ep [sfd, ifd, ofd] dl cr cl"
  shows "\<exists>n. sig_on_update (sys E) (hooks E (deep d)) (deep d) (Addr 10) ev
      (echo_writing b ep sfd ifd ofd ws W C q1 q2 q3 m buf rr off cnt sz k)
    = Inr ((), echo_over b ep n (cl sfd (dl sfd (cl ofd (dl ofd (cl ifd (dl ifd k1)))))))"
  unfolding echo_writing_def echo_over_def
  by (simp add: echo_exec ev apart6 [OF ap] rd sg shutsD [OF c] cong: exec_congs del: exec_del)

lemma writing_signal_error:
  assumes ap: "apart [ws, W, C, q1, q2, q3] m" and ev: "read_bits ev"
    and rd: "retry_eintr (sys_read_siginfo (sys E) sfd) k = Some (Inl e, k1)"
    and e: "e \<noteq> EAGAIN" "e \<noteq> EWOULDBLOCK"
    and c: "shuts E ep [sfd, ifd, ofd] dl cr cl"
  shows "\<exists>n. sig_on_update (sys E) (hooks E (deep d)) (deep d) (Addr 10) ev
      (echo_writing b ep sfd ifd ofd ws W C q1 q2 q3 m buf rr off cnt sz k)
    = Inr ((), echo_over b ep n (cl sfd (dl sfd (cl ofd (dl ofd (cl ifd (dl ifd k1)))))))"
  unfolding echo_writing_def echo_over_def
  by (simp add: echo_exec ev apart6 [OF ap] rd e shutsD [OF c] cong: exec_congs del: exec_del)

section \<open>The pipe that is read\<close>

lemma writing_readable:
  assumes ap: "apart [ws, W, C, q1, q2, q3] m" and ev: "read_bits ev"
  shows "pipe_on_update (sys E) (hooks E (deep d)) (deep d) (Addr 19) ev
      (echo_writing b ep sfd ifd ofd ws W C q1 q2 q3 m buf False off cnt sz k)
    = Inr ((), echo_writing b ep sfd ifd ofd ws W C q1 q2 q3 (Suc m) buf True off cnt sz k)"
  unfolding echo_writing_def echo_reading_def on_update_parts
  by (simp add: echo_read_exec ev apart6 [OF ap]  cong: exec_congs del: exec_del)
    (intro conjI ext; simp)

section \<open>Events that change nothing\<close>

lemma writing_idle:
  assumes ap: "apart [ws, W, C, q1, q2, q3] m" and ev: "a = Addr 22 \<and> \<not> write_bits ev \<or> a = Addr 19 \<and> (rr \<or> \<not> read_bits ev)"
  shows "pipe_on_update (sys E) (hooks E (deep d)) (deep d) a ev (echo_writing b ep sfd ifd ofd ws W C q1 q2 q3 m buf rr off cnt sz k)
    = Inr ((), echo_writing b ep sfd ifd ofd ws W C q1 q2 q3 (Suc m) buf rr off cnt sz k)"
  using ev
proof (elim disjE conjE)
  assume "a = Addr 22" and ev: "\<not> write_bits ev"
  then show ?thesis
    unfolding echo_writing_def on_update_parts
    by (simp add: echo_read_exec ev apart6 [OF ap] cong: exec_congs del: exec_del)
next
  assume "a = Addr 19" and ev: "rr"
  then show ?thesis
    unfolding echo_writing_def on_update_parts
    by (simp add: echo_read_exec ev apart6 [OF ap] cong: exec_congs del: exec_del) (rule ext; simp)
next
  assume "a = Addr 19" and ev: "\<not> read_bits ev"
  then show ?thesis
    unfolding echo_writing_def on_update_parts
    by (simp add: echo_read_exec ev apart6 [OF ap] cong: exec_congs del: exec_del) (rule ext; simp)
qed

end
