(* ===== verification/EchoBoot.thy ===== *)
theory EchoBoot
  imports EchoStates
begin

text \<open>
  From the start of \<open>main\<close> to the state that waits for the first byte.
\<close>

section \<open>The system calls of the start\<close>

definition opens_fifo :: "'os env \<Rightarrow> Fd \<Rightarrow> string \<Rightarrow> u32 \<Rightarrow> Fd \<Rightarrow> addr \<Rightarrow> 'os \<Rightarrow> 'os \<Rightarrow> bool" where
  "opens_fifo E ep path oflag fd a k k' \<longleftrightarrow> (\<exists>k1 st k2 fl k3.
     retry_eintr (sys_open (sys E) path (or (or oflag O_NONBLOCK) O_CLOEXEC)) k = Some (Inr fd, k1)
   \<and> sys_fstat_mode (sys E) fd k1 = (Inr st, k2) \<and> and st S_IFMT = S_IFIFO
   \<and> sys_getfl (sys E) fd k2 = (Inr fl, k3) \<and> and fl O_NONBLOCK \<noteq> 0
   \<and> sys_epoll_add (sys E) ep fd (or (or EPOLLIN EPOLLOUT) EPOLLET) a k3 = (Inr (), k'))"

text \<open>The state in which the lambda that \<open>main\<close> scheduled starts.\<close>

definition echo_booted :: "bool \<Rightarrow> Fd \<Rightarrow> Fd \<Rightarrow> (closure, val) action list \<Rightarrow> (closure, val) action option list \<Rightarrow> 'os \<Rightarrow> 'os sock_st" where
  "echo_booted b ep sfd acts spare k = \<lparr>lnodes = [ListOf (Addr 11) \<mapsto> self_node (ListOf (Addr 11))],
     os = k, epoll_fd = ep, mid_step = b, registrants = [Addr 10], enqueued_actions = acts, spare_actions_buf = spare,
     regs = [Addr 10 \<mapsto> \<lparr>loop_ptr = Some (), registered_index = 0\<rparr>], reg_fd = [Addr 10 \<mapsto> sfd],
     futures = Map.empty, promises = [Addr 11 \<mapsto> resting_promise DefaultCancellable], next_addr = 12,
     wait_states = Map.empty, mem = Map.empty, flags = Map.empty, pipes = Map.empty,
     signal_fds = [Addr 10 \<mapsto> \<lparr>sig_read_ready = True, sig_read_promise = Addr 11\<rparr>],
     listen_sockets = Map.empty\<rparr>"

lemmas boot_defs = sig_read_def sig_try_doing_read_def signal_fd_new_def registrant_new_def register_for_epoll_def
  new_registrant_def start_action_def get_interrupt_future_def cancellable_then_f_def go_def attach_def
  open_fifo_def make_pipe_from_fifo_def make_pipe_or_socket_from_fd_def pipe_new_def echo_on_pipe_def buf_new_def
  TOY_BUF_SIZE_def fd_release_def fd_destroy_def fd_has_value_def set_reg_fd_def put_sig_def get_sig_def upd_sig_def
  wait_with_callback_def prom_new_def then_f_base_move_def attached_ptr_move_def

lemma boot_signal_fd:
  assumes "sys_epoll_add (sys E) ep sfd (or (or EPOLLIN EPOLLOUT) EPOLLET) (Addr 10) k = (Inr (), k')" and ep: "ep \<noteq> -1"
  shows "signal_fd_new (sys E) (strerror E) sfd (echo_over b ep 10 k) = Inr (Addr 10, echo_booted b ep sfd [] [] k')"
  unfolding echo_over_def echo_booted_def
  by (simp add: exec future_defs boot_defs assms cong: exec_congs del: exec_del)

lemma boot_start:
  assumes sg: "retry_eintr (sys_read_siginfo (sys E) sfd) k1 = Some (Inl e, k2)" "would_block e"
    and inp: "opens_fifo E ep inp O_RDONLY ifd (Addr 19) k2 k3" and outp: "opens_fifo E ep outp O_WRONLY ofd (Addr 22) k3 k4"
    and rd: "retry_eintr (sys_read (sys E) ifd 128) k4 = Some (Inl e', k5)" "would_block e'"
    and fds: "ep \<noteq> -1" "sfd \<noteq> -1" "ifd \<noteq> -1" "ofd \<noteq> -1"
  shows "start_action E (hooks E (deep d)) (deep d) (Addr 10)
     \<lparr>fifo_mode = Some \<lparr>in_fifo_path = inp, out_fifo_path = outp\<rparr>, socket_mode = None, client_socket_mode = None, show_help = False\<rparr>
     (echo_booted b ep sfd [] sp k1)
   = Inr ((), (echo_reading b ep sfd ifd ofd (Addr 30) (Addr 31) (Addr 32) (Addr 34) 0 (replicate 128 0) k5)\<lparr>spare_actions_buf := sp\<rparr>)"
proof -
  from inp obtain c1 st c2 fl c3 where i:
    "retry_eintr (sys_open (sys E) inp (or (or O_RDONLY O_NONBLOCK) O_CLOEXEC)) k2 = Some (Inr ifd, c1)"
    "sys_fstat_mode (sys E) ifd c1 = (Inr st, c2)" "and st S_IFMT = S_IFIFO"
    "sys_getfl (sys E) ifd c2 = (Inr fl, c3)" "and fl O_NONBLOCK \<noteq> 0"
    "sys_epoll_add (sys E) ep ifd (or (or EPOLLIN EPOLLOUT) EPOLLET) (Addr 19) c3 = (Inr (), k3)"
    by (auto simp: opens_fifo_def)
  from outp obtain d1 st' d2 fl' d3 where o:
    "retry_eintr (sys_open (sys E) outp (or (or O_WRONLY O_NONBLOCK) O_CLOEXEC)) k3 = Some (Inr ofd, d1)"
    "sys_fstat_mode (sys E) ofd d1 = (Inr st', d2)" "and st' S_IFMT = S_IFIFO"
    "sys_getfl (sys E) ofd d2 = (Inr fl', d3)" "and fl' O_NONBLOCK \<noteq> 0"
    "sys_epoll_add (sys E) ep ofd (or (or EPOLLIN EPOLLOUT) EPOLLET) (Addr 22) d3 = (Inr (), k4)"
    by (auto simp: opens_fifo_def)
  note io = i [simplified] o [simplified]
  show ?thesis
    unfolding echo_booted_def echo_reading_def echo_fixed
    apply (simp add: exec future_defs wait_defs pipe_defs program_defs boot_defs io sg rd fds cong: exec_congs del: exec_del)
    apply (intro conjI ext; simp)
    done
qed

end
