(* ===== verification/EchoEvents.thy ===== *)
theory EchoEvents
  imports EchoReading EchoWriting EchoBoot ProgramProps
begin

text \<open>
  The kernel under a program in fifo mode, known only by what its manual pages promise, and the
  invariant of a run: it says in which of the written-out states the program is, and how the bytes that
  were read relate to those that were written. Every event keeps it.
\<close>

section \<open>The kernel\<close>

text \<open>What an observer of the two descriptors has seen: the bytes that came in and went out, and whether
  the end of the input was reported. The budget is a ghost: a bound on the batches of events that are
  still to come, for kernels that have one.\<close>

record traffic =
  incoming :: "u8 list"
  outgoing :: "u8 list"
  at_eof :: bool
  budget :: nat

text \<open>\<open>read\<close> gives fewer bytes than it was asked for and \<open>write\<close> takes at most the bytes it was given, a
  \<open>signalfd\<close> of \<open>SIGINT\<close> and \<open>SIGTERM\<close> gives one of these, a call that is interrupted is not interrupted
  for ever, \<open>EPOLL_CTL_DEL\<close> of a registered descriptor succeeds, \<open>epoll_wait\<close> gives pointers that were
  registered. Every call may fail where the manual says so.\<close>

definition fifo_kernel :: "'os env \<Rightarrow> ('os \<Rightarrow> traffic) \<Rightarrow> Fd \<Rightarrow> Fd \<Rightarrow> Fd \<Rightarrow> Fd \<Rightarrow> bool" where
  "fifo_kernel E obs ep sfd ifd ofd \<longleftrightarrow> ep \<noteq> -1 \<and> -1 \<notin> set [sfd, ifd, ofd]
   \<and> (\<forall>k. \<exists>r k'. retry_eintr (sys_read (sys E) ifd 128) k = Some (r, k') \<and> (case r of
        Inl e \<Rightarrow> obs k' = obs k
      | Inr bs \<Rightarrow> length bs < 128 \<and> incoming (obs k') = incoming (obs k) @ bs \<and> outgoing (obs k') = outgoing (obs k)
          \<and> at_eof (obs k') = (at_eof (obs k) \<or> bs = []) \<and> budget (obs k') = budget (obs k)))
   \<and> (\<forall>k bs. \<exists>r k'. retry_eintr (sys_write (sys E) ofd bs) k = Some (r, k') \<and> (case r of
        Inl e \<Rightarrow> obs k' = obs k
      | Inr j \<Rightarrow> j \<le> length bs \<and> outgoing (obs k') = outgoing (obs k) @ take j bs \<and> incoming (obs k') = incoming (obs k)
          \<and> at_eof (obs k') = at_eof (obs k) \<and> budget (obs k') = budget (obs k)))
   \<and> (\<forall>k. \<exists>r k'. retry_eintr (sys_read_siginfo (sys E) sfd) k = Some (r, k') \<and> obs k' = obs k \<and> (case r of
        Inl e \<Rightarrow> True | Inr (len, signo) \<Rightarrow> len = 128 \<and> (signo = SIGINT \<or> signo = SIGTERM)))
   \<and> (\<forall>k b. \<exists>r k'. retry_eintr (sys_epoll_wait (sys E) ep 2048 b) k = Some (r, k') \<and> (case r of
        Inl e \<Rightarrow> obs k' = obs k
      | Inr evs \<Rightarrow> fst ` set evs \<subseteq> {Addr 10, Addr 19, Addr 22} \<and> (\<exists>w \<le> budget (obs k). obs k' = (obs k)\<lparr>budget := w\<rparr>)))
   \<and> (\<forall>fd k. \<exists>k'. sys_epoll_del (sys E) ep fd k = (Inr (), k') \<and> obs k' = obs k)
   \<and> (\<forall>fd k. obs (snd (sys_close (sys E) fd k)) = obs k)
   \<and> (\<forall>k. \<exists>k'. sys_sigprocmask (sys E) False sigint_sigterm_sigset k = (Inr (), k') \<and> obs k' = obs k)"

lemma kernel_shuts:
  assumes "fifo_kernel E obs ep sfd ifd ofd"
  obtains dl cr cl where "shuts E ep [sfd, ifd, ofd] dl cr cl" "\<And>fd k. obs (dl fd k) = obs k" "\<And>fd k. obs (cl fd k) = obs k"
proof -
  have d: "\<exists>k'. sys_epoll_del (sys E) ep fd k = (Inr (), k') \<and> obs k' = obs k" for fd k
    using assms unfolding fifo_kernel_def by blast
  have c: "obs (snd (sys_close (sys E) fd k)) = obs k" for fd k
    using assms unfolding fifo_kernel_def by blast
  let ?dl = "\<lambda>fd k. snd (sys_epoll_del (sys E) ep fd k)"
  have d': "sys_epoll_del (sys E) ep fd k = (Inr (), ?dl fd k)" "obs (?dl fd k) = obs k" for fd k
    using d [of fd k] by auto
  have "shuts E ep [sfd, ifd, ofd] ?dl (\<lambda>fd k. fst (sys_close (sys E) fd k)) (\<lambda>fd k. snd (sys_close (sys E) fd k))"
    using assms d'(1) unfolding shuts_def fifo_kernel_def by auto
  then show ?thesis by (rule that) (use d'(2) c in auto)
qed

lemma kernel_read:
  assumes "fifo_kernel E obs ep sfd ifd ofd"
  obtains (fail) e k' where "retry_eintr (sys_read (sys E) ifd 128) k = Some (Inl e, k')" "obs k' = obs k"
  | (eof) k' where "retry_eintr (sys_read (sys E) ifd 128) k = Some (Inr [], k')" "incoming (obs k') = incoming (obs k)"
      "outgoing (obs k') = outgoing (obs k)" "budget (obs k') = budget (obs k)"
  | (bytes) bs k' where "retry_eintr (sys_read (sys E) ifd 128) k = Some (Inr bs, k')" "bs \<noteq> []" "length bs < 128"
      "incoming (obs k') = incoming (obs k) @ bs" "outgoing (obs k') = outgoing (obs k)" "at_eof (obs k') = at_eof (obs k)"
      "budget (obs k') = budget (obs k)"
proof -
  have "\<exists>r k'. retry_eintr (sys_read (sys E) ifd 128) k = Some (r, k') \<and> (case r of
        Inl e \<Rightarrow> obs k' = obs k
      | Inr bs \<Rightarrow> length bs < 128 \<and> incoming (obs k') = incoming (obs k) @ bs \<and> outgoing (obs k') = outgoing (obs k)
          \<and> at_eof (obs k') = (at_eof (obs k) \<or> bs = []) \<and> budget (obs k') = budget (obs k))"
    using assms unfolding fifo_kernel_def by blast
  then obtain r k' where r: "retry_eintr (sys_read (sys E) ifd 128) k = Some (r, k')" "case r of
        Inl e \<Rightarrow> obs k' = obs k
      | Inr bs \<Rightarrow> length bs < 128 \<and> incoming (obs k') = incoming (obs k) @ bs \<and> outgoing (obs k') = outgoing (obs k)
          \<and> at_eof (obs k') = (at_eof (obs k) \<or> bs = []) \<and> budget (obs k') = budget (obs k)" by blast
  show ?thesis
  proof (cases r)
    case (Inl e)
    with r fail [of e k'] show ?thesis by simp
  next
    case (Inr bs)
    with r show ?thesis by (cases "bs = []") (auto intro: eof bytes)
  qed
qed

lemma kernel_write:
  assumes "fifo_kernel E obs ep sfd ifd ofd"
  obtains (fail) e k' where "retry_eintr (sys_write (sys E) ofd bs) k = Some (Inl e, k')" "obs k' = obs k"
  | (part) j k' where "retry_eintr (sys_write (sys E) ofd bs) k = Some (Inr j, k')" "j < length bs"
      "outgoing (obs k') = outgoing (obs k) @ take j bs" "incoming (obs k') = incoming (obs k)" "at_eof (obs k') = at_eof (obs k)"
      "budget (obs k') = budget (obs k)"
  | (all) k' where "retry_eintr (sys_write (sys E) ofd bs) k = Some (Inr (length bs), k')"
      "outgoing (obs k') = outgoing (obs k) @ bs" "incoming (obs k') = incoming (obs k)" "at_eof (obs k') = at_eof (obs k)"
      "budget (obs k') = budget (obs k)"
proof -
  have "\<exists>r k'. retry_eintr (sys_write (sys E) ofd bs) k = Some (r, k') \<and> (case r of
        Inl e \<Rightarrow> obs k' = obs k
      | Inr j \<Rightarrow> j \<le> length bs \<and> outgoing (obs k') = outgoing (obs k) @ take j bs \<and> incoming (obs k') = incoming (obs k)
          \<and> at_eof (obs k') = at_eof (obs k) \<and> budget (obs k') = budget (obs k))"
    using assms unfolding fifo_kernel_def by blast
  then obtain r k' where r: "retry_eintr (sys_write (sys E) ofd bs) k = Some (r, k')" "case r of
        Inl e \<Rightarrow> obs k' = obs k
      | Inr j \<Rightarrow> j \<le> length bs \<and> outgoing (obs k') = outgoing (obs k) @ take j bs \<and> incoming (obs k') = incoming (obs k)
          \<and> at_eof (obs k') = at_eof (obs k) \<and> budget (obs k') = budget (obs k)" by blast
  show ?thesis
  proof (cases r)
    case (Inl e)
    with r fail [of e k'] show ?thesis by simp
  next
    case (Inr j)
    with r show ?thesis by (cases "j = length bs") (auto intro: part all)
  qed
qed

lemma kernel_signal:
  assumes "fifo_kernel E obs ep sfd ifd ofd"
  obtains (fail) e k' where "retry_eintr (sys_read_siginfo (sys E) sfd) k = Some (Inl e, k')" "obs k' = obs k"
  | (signal) signo k' where "retry_eintr (sys_read_siginfo (sys E) sfd) k = Some (Inr (128, signo), k')" "obs k' = obs k"
      "signo = SIGINT \<or> signo = SIGTERM"
proof -
  have "\<exists>r k'. retry_eintr (sys_read_siginfo (sys E) sfd) k = Some (r, k') \<and> obs k' = obs k \<and> (case r of
        Inl e \<Rightarrow> True | Inr (len, signo) \<Rightarrow> len = 128 \<and> (signo = SIGINT \<or> signo = SIGTERM))"
    using assms unfolding fifo_kernel_def by blast
  then obtain r k' where r: "retry_eintr (sys_read_siginfo (sys E) sfd) k = Some (r, k')" "obs k' = obs k" "case r of
        Inl e \<Rightarrow> True | Inr (len, signo) \<Rightarrow> len = 128 \<and> (signo = SIGINT \<or> signo = SIGTERM)" by blast
  then show ?thesis by (cases r) (auto intro: fail signal)
qed

section \<open>The invariant\<close>

inductive echo_live :: "('os \<Rightarrow> traffic) \<Rightarrow> nat \<Rightarrow> bool \<Rightarrow> Fd \<Rightarrow> Fd \<Rightarrow> Fd \<Rightarrow> Fd \<Rightarrow> 'os sock_st \<Rightarrow> bool"
  for obs w b ep sfd ifd ofd where
  reading: "echo_live obs w b ep sfd ifd ofd (echo_reading b ep sfd ifd ofd ws W C q m buf k)"
  if "apart [ws, W, C, q] m" "length buf = 128" "incoming (obs k) = outgoing (obs k)"  "\<not> at_eof (obs k)" "budget (obs k) = w"
| writing: "echo_live obs w b ep sfd ifd ofd (echo_writing b ep sfd ifd ofd ws W C q1 q2 q3 m buf rr off cnt sz k)"
  if "apart [ws, W, C, q1, q2, q3] m" "length buf = 128" "0 < cnt" "cnt < 128" "off + cnt \<le> 128"
    "incoming (obs k) = outgoing (obs k) @ take cnt (drop off buf)" "\<not> at_eof (obs k)" "budget (obs k) = w"

definition faithful :: "traffic \<Rightarrow> bool" where
  "faithful t \<longleftrightarrow> (\<exists>rest. incoming t = outgoing t @ rest \<and> length rest < 128 \<and> (at_eof t \<longrightarrow> rest = []))"

inductive echo_inv :: "('os \<Rightarrow> traffic) \<Rightarrow> nat \<Rightarrow> bool \<Rightarrow> Fd \<Rightarrow> Fd \<Rightarrow> Fd \<Rightarrow> Fd \<Rightarrow> 'os sock_st \<Rightarrow> bool"
  for obs w b ep sfd ifd ofd where
  live: "echo_live obs w b ep sfd ifd ofd s \<Longrightarrow> echo_inv obs w b ep sfd ifd ofd s"
| over: "faithful (obs k) \<Longrightarrow> budget (obs k) = w \<Longrightarrow> echo_inv obs w b ep sfd ifd ofd (echo_over b ep m k)"

lemma live_faithful: "echo_live obs w b ep sfd ifd ofd s \<Longrightarrow> faithful (obs (os s))"
  by (erule echo_live.cases) (auto simp: faithful_def echo_reading_def echo_writing_def)

lemma inv_faithful: "echo_inv obs w b ep sfd ifd ofd s \<Longrightarrow> faithful (obs (os s))"
  by (erule echo_inv.cases) (auto simp: live_faithful echo_over_def)

text \<open>New addresses are apart from the old ones.\<close>

lemma apart_fresh:
  assumes "distinct ns" and "list_all (\<lambda>n. 41 \<le> n \<and> n < 41 + d) ns"
  shows "apart (map (\<lambda>n. Addr (n + m)) ns) (d + m)"
  using assms by (fastforce simp: apart_def distinct_map inj_on_def list_all_iff)

lemma apart_fresh_old:
  assumes "distinct ns" and "list_all (\<lambda>n. 41 \<le> n \<and> n < 41 + d) ns" and "apart xs m" "x \<in> set xs"
  shows "apart (map (\<lambda>n. Addr (n + m)) ns @ [x]) (d + m)"
  using assms by (fastforce simp: apart_def distinct_map inj_on_def list_all_iff)

lemma apart_Suc: "apart xs m \<Longrightarrow> apart xs (Suc m)"
  by (auto simp: apart_def)

section \<open>One event\<close>

lemma on_update_pipe: "pipes s a \<noteq> None \<Longrightarrow> on_update E H n a ev s = pipe_on_update (sys E) H n a ev s"
  by (auto simp: on_update_def)

lemma on_update_signal: "pipes s a = None \<Longrightarrow> signal_fds s a \<noteq> None \<Longrightarrow> on_update E H n a ev s = sig_on_update (sys E) H n a ev s"
  by (auto simp: on_update_def)

lemma sig_ignores: "\<not> read_bits ev \<Longrightarrow> sig_on_update S H n a ev s = Inr ((), s)"
  by (simp add: sig_on_update_def)

lemma reading_pipes:
  "pipes (echo_reading b ep sfd ifd ofd ws W C q m buf k) (Addr 19) \<noteq> None"
  "pipes (echo_reading b ep sfd ifd ofd ws W C q m buf k) (Addr 22) \<noteq> None"
  "pipes (echo_reading b ep sfd ifd ofd ws W C q m buf k) (Addr 10) = None"
  "signal_fds (echo_reading b ep sfd ifd ofd ws W C q m buf k) (Addr 10) \<noteq> None"
  by (simp_all add: echo_reading_def echo_signal_fds_def)

lemma writing_pipes:
  "pipes (echo_writing b ep sfd ifd ofd ws W C q1 q2 q3 m buf rr off cnt sz k) (Addr 19) \<noteq> None"
  "pipes (echo_writing b ep sfd ifd ofd ws W C q1 q2 q3 m buf rr off cnt sz k) (Addr 22) \<noteq> None"
  "pipes (echo_writing b ep sfd ifd ofd ws W C q1 q2 q3 m buf rr off cnt sz k) (Addr 10) = None"
  "signal_fds (echo_writing b ep sfd ifd ofd ws W C q1 q2 q3 m buf rr off cnt sz k) (Addr 10) \<noteq> None"
  by (simp_all add: echo_writing_def echo_signal_fds_def)

text \<open>A computation that ends in a state of the invariant.\<close>

definition lands :: "('os \<Rightarrow> traffic) \<Rightarrow> nat \<Rightarrow> bool \<Rightarrow> Fd \<Rightarrow> Fd \<Rightarrow> Fd \<Rightarrow> Fd \<Rightarrow> fault + unit \<times> 'os sock_st \<Rightarrow> bool" where
  "lands obs w b ep sfd ifd ofd r \<longleftrightarrow> (\<exists>s'. r = Inr ((), s') \<and> echo_inv obs w b ep sfd ifd ofd s')"

lemma landsI: "r = Inr ((), s') \<Longrightarrow> echo_inv obs w b ep sfd ifd ofd s' \<Longrightarrow> lands obs w b ep sfd ifd ofd r"
  by (auto simp: lands_def)

lemma lands_over: "\<exists>m. r = Inr ((), echo_over b ep m k) \<Longrightarrow> faithful (obs k) \<Longrightarrow> budget (obs k) = w \<Longrightarrow> lands obs w b ep sfd ifd ofd r"
  by (auto simp: lands_def intro: over)

lemma same_faithful: "incoming t = outgoing t \<Longrightarrow> faithful t"
  by (simp add: faithful_def)

lemma rest_faithful: "incoming t = outgoing t @ bs \<Longrightarrow> length bs < 128 \<Longrightarrow> \<not> at_eof t \<Longrightarrow> faithful t"
  by (simp add: faithful_def)

lemma lands_live: "r = Inr ((), s') \<Longrightarrow> echo_live obs w b ep sfd ifd ofd s' \<Longrightarrow> lands obs w b ep sfd ifd ofd r"
  by (auto simp: lands_def intro: echo_inv.live)

lemma reading_stays:
  assumes "apart [ws, W, C, q] m" "length buf = 128" "incoming (obs k) = outgoing (obs k)" "\<not> at_eof (obs k)" "budget (obs k) = w" "obs k' = obs k"
  shows "echo_live obs w b ep sfd ifd ofd (echo_reading b ep sfd ifd ofd ws W C q m buf k')"
    "echo_live obs w b ep sfd ifd ofd (echo_reading b ep sfd ifd ofd ws W C q (Suc m) buf k')"
  using assms by (auto intro!: echo_live.reading intro: apart_Suc)

lemma reading_signal_event:
  assumes K: "fifo_kernel E obs ep sfd ifd ofd" and ap: "apart [ws, W, C, q] m" and len: "length buf = 128"
    and same: "incoming (obs k) = outgoing (obs k)" "\<not> at_eof (obs k)" "budget (obs k) = w"
  shows "lands obs w b ep sfd ifd ofd
    (sig_on_update (sys E) (hooks E (deep d)) (deep d) (Addr 10) ev (echo_reading b ep sfd ifd ofd ws W C q m buf k))"
proof (cases "read_bits ev")
  case False
  show ?thesis by (rule lands_live [OF sig_ignores [OF False] reading_stays(1) [where obs = obs and k = k, OF ap len same refl]])
next
  case ev: True
  obtain dl cr cl where c: "shuts E ep [sfd, ifd, ofd] dl cr cl" "\<And>fd k. obs (dl fd k) = obs k" "\<And>fd k. obs (cl fd k) = obs k"
    using kernel_shuts [OF K] by blast
  show ?thesis using K
  proof (cases rule: kernel_signal [where k = k])
    case (fail e k')
    show ?thesis
    proof (cases "would_block e")
      case True
      show ?thesis by (rule lands_live [OF reading_signal_again [OF ap ev fail(1) True] reading_stays(1) [where obs = obs and k = k, OF ap len same fail(2)]])
    next
      case False
      then show ?thesis
        by (intro lands_over [OF reading_signal_error [OF ap ev fail(1) _ _ c(1)]]) (simp_all add: c fail same same_faithful)
    qed
  next
    case (signal signo k')
    show ?thesis
      by (rule lands_over [OF reading_signal [OF ap ev signal(1,3) c(1)]]) (simp_all add: c signal same same_faithful)
  qed
qed

lemma reading_pipe_event:
  assumes K: "fifo_kernel E obs ep sfd ifd ofd" and ap: "apart [ws, W, C, q] m" and len: "length buf = 128"
    and same: "incoming (obs k) = outgoing (obs k)" "\<not> at_eof (obs k)" "budget (obs k) = w" and ev: "read_bits ev"
  shows "lands obs w b ep sfd ifd ofd
    (pipe_on_update (sys E) (hooks E (deep d)) (deep d) (Addr 19) ev (echo_reading b ep sfd ifd ofd ws W C q m buf k))"
proof -
  obtain dl cr cl where c: "shuts E ep [sfd, ifd, ofd] dl cr cl" "\<And>fd k. obs (dl fd k) = obs k" "\<And>fd k. obs (cl fd k) = obs k"
    using kernel_shuts [OF K] by blast
  show ?thesis using K
  proof (cases rule: kernel_read [where k = k])
    case (fail e k1)
    show ?thesis
    proof (cases "would_block e")
      case True
      show ?thesis by (rule lands_live [OF reading_again [OF ap ev fail(1) True] reading_stays(2) [where obs = obs and k = k, OF ap len same fail(2)]])
    next
      case False
      then show ?thesis
        by (intro lands_over [OF reading_error [OF ap ev fail(1) _ _ c(1)]]) (simp_all add: c fail same same_faithful)
    qed
  next
    case (eof k1)
    show ?thesis
      by (rule lands_over [OF reading_eof [OF ap ev len eof(1) c(1)]]) (simp_all add: c eof same same_faithful)
  next
    case rd: (bytes bs k1)
    show ?thesis using K
    proof (cases rule: kernel_write [where bs = bs and k = k1])
      case (fail e k2)
      show ?thesis
      proof (cases "would_block e")
        case True
        show ?thesis
          by (rule lands_live [OF reading_blocked [OF ap ev len rd(1-3) fail(1) True]], rule echo_live.writing,
              rule apart_fresh [of "[49, 50, 51, 53, 55, 57]" 17 m, simplified])
            (use len rd same fail in simp_all)
      next
        case False
        then show ?thesis
          by (intro lands_over [OF reading_write_error [OF ap ev len rd(1-3) fail(1) _ _ c(1)]] rest_faithful [where bs = bs])
            (use rd same fail in \<open>simp_all add: c\<close>)
      qed
    next
      case (part j k2)
      show ?thesis
        by (rule lands_live [OF reading_short [OF ap ev len rd(1-3) part(1,2)]], rule echo_live.writing,
            rule apart_fresh [of "[54, 55, 56, 58, 60, 62]" 22 m, simplified])
          (use len rd same part in simp_all)
    next
      case (all k2)
      show ?thesis
        by (rule lands_live [OF reading_echoed [OF ap ev len rd(1-3) all(1)]], rule echo_live.reading,
            rule apart_fresh [of "[53, 54, 55, 57]" 17 m, simplified])
          (use len rd same all in simp_all)
    qed
  qed
qed

lemma reading_event:
  assumes K: "fifo_kernel E obs ep sfd ifd ofd" and ap: "apart [ws, W, C, q] m" and len: "length buf = 128"
    and same: "incoming (obs k) = outgoing (obs k)" "\<not> at_eof (obs k)" "budget (obs k) = w" and a: "a \<in> {Addr 10, Addr 19, Addr 22}"
  shows "lands obs w b ep sfd ifd ofd
    (on_update E (hooks E (deep d)) (deep d) a ev (echo_reading b ep sfd ifd ofd ws W C q m buf k))"
proof -
  consider "a = Addr 10" | "a = Addr 19" "read_bits ev" | "a = Addr 22 \<or> a = Addr 19 \<and> \<not> read_bits ev"
    using a by blast
  then show ?thesis
  proof cases
    case 1
    show ?thesis unfolding 1 on_update_signal [OF reading_pipes(3,4)] by (rule reading_signal_event [OF K ap len same])
  next
    case 2
    show ?thesis unfolding 2(1) on_update_pipe [OF reading_pipes(1)] by (rule reading_pipe_event [OF K ap len same 2(2)])
  next
    case 3
    then have "pipes (echo_reading b ep sfd ifd ofd ws W C q m buf k) a \<noteq> None" using reading_pipes by metis
    show ?thesis unfolding on_update_pipe [OF \<open>pipes _ a \<noteq> None\<close>]
      by (rule lands_live [OF reading_idle [OF ap 3] reading_stays(2) [where obs = obs and k = k, OF ap len same refl]])
  qed
qed

section \<open>One event while a write waits\<close>

lemma writing_stays:
  assumes "apart [ws, W, C, q1, q2, q3] m" "length buf = 128" "0 < cnt" "cnt < 128" "off + cnt \<le> 128"
    "incoming (obs k) = outgoing (obs k) @ take cnt (drop off buf)" "\<not> at_eof (obs k)" "budget (obs k) = w" "obs k' = obs k"
  shows "echo_live obs w b ep sfd ifd ofd (echo_writing b ep sfd ifd ofd ws W C q1 q2 q3 m buf rr off cnt sz k')"
    "echo_live obs w b ep sfd ifd ofd (echo_writing b ep sfd ifd ofd ws W C q1 q2 q3 (Suc m) buf rr off cnt sz k')"
  using assms by (auto intro!: echo_live.writing intro: apart_Suc)

lemma pending_faithful:
  assumes "length buf = 128" "cnt < 128" "off + cnt \<le> 128" "incoming t = outgoing t @ take cnt (drop off buf)" "\<not> at_eof t"
  shows "faithful t"
  using assms by (intro rest_faithful [where bs = "take cnt (drop off buf)"]) (simp_all add: min_def)

lemma writing_signal_event:
  assumes K: "fifo_kernel E obs ep sfd ifd ofd" and ap: "apart [ws, W, C, q1, q2, q3] m" and len: "length buf = 128"
    and cnt: "0 < cnt" "cnt < 128" "off + cnt \<le> 128"
    and t: "incoming (obs k) = outgoing (obs k) @ take cnt (drop off buf)" "\<not> at_eof (obs k)" "budget (obs k) = w"
  shows "lands obs w b ep sfd ifd ofd (sig_on_update (sys E) (hooks E (deep d)) (deep d) (Addr 10) ev
    (echo_writing b ep sfd ifd ofd ws W C q1 q2 q3 m buf rr off cnt sz k))"
proof (cases "read_bits ev")
  case False
  show ?thesis
    by (rule lands_live [OF sig_ignores [OF False] writing_stays(1) [where obs = obs and k = k, OF ap len cnt t refl]])
next
  case ev: True
  obtain dl cr cl where c: "shuts E ep [sfd, ifd, ofd] dl cr cl" "\<And>fd k. obs (dl fd k) = obs k" "\<And>fd k. obs (cl fd k) = obs k"
    using kernel_shuts [OF K] by blast
  have f: "faithful (obs k)" by (rule pending_faithful [OF len cnt(2,3) t(1,2)])
  show ?thesis using K
  proof (cases rule: kernel_signal [where k = k])
    case (fail e k')
    show ?thesis
    proof (cases "would_block e")
      case True
      show ?thesis
        by (rule lands_live [OF writing_signal_again [OF ap ev fail(1) True]
              writing_stays(1) [where obs = obs and k = k, OF ap len cnt t fail(2)]])
    next
      case False
      then show ?thesis
        by (intro lands_over [OF writing_signal_error [OF ap ev fail(1) _ _ c(1)]]) (simp_all add: c fail f t)
    qed
  next
    case (signal signo k')
    show ?thesis by (rule lands_over [OF writing_signal [OF ap ev signal(1,3) c(1)]]) (simp_all add: c signal f t)
  qed
qed

text \<open>The write is done, and the kernel announced before that there is more to read.\<close>

lemma writing_done_event:
  assumes K: "fifo_kernel E obs ep sfd ifd ofd" and ap: "apart [ws, W, C, q1, q2, q3] m" and len: "length buf = 128"
    and cnt: "0 < cnt" "cnt < 128" "off + cnt \<le> 128" and ev: "write_bits ev"
    and wr: "retry_eintr (sys_write (sys E) ofd (take cnt (drop off buf))) k = Some (Inr cnt, k1)"
    and t: "incoming (obs k1) = outgoing (obs k1)" "\<not> at_eof (obs k1)" "budget (obs k1) = w"
  shows "lands obs w b ep sfd ifd ofd (pipe_on_update (sys E) (hooks E (deep d)) (deep d) (Addr 22) ev
    (echo_writing b ep sfd ifd ofd ws W C q1 q2 q3 m buf True off cnt sz k))"
proof -
  obtain dl cr cl where c: "shuts E ep [sfd, ifd, ofd] dl cr cl" "\<And>fd k. obs (dl fd k) = obs k" "\<And>fd k. obs (cl fd k) = obs k"
    using kernel_shuts [OF K] by blast
  note go = ap ev len cnt(3) wr
  show ?thesis using K
  proof (cases rule: kernel_read [where k = k1])
    case (fail e k2)
    show ?thesis
    proof (cases "would_block e")
      case True
      show ?thesis
        by (rule lands_live [OF writing_done_again [OF go fail(1) True]], rule echo_live.reading,
            rule apart_fresh [of "[49, 50, 51, 53]" 13 m, simplified]) (use len t fail in simp_all)
    next
      case False
      then show ?thesis
        by (intro lands_over [OF writing_done_error [OF go fail(1) _ _ c(1)]]) (simp_all add: c fail t same_faithful)
    qed
  next
    case (eof k2)
    show ?thesis by (rule lands_over [OF writing_done_eof [OF go eof(1) c(1)]]) (simp_all add: c eof t same_faithful)
  next
    case rd: (bytes bs k2)
    show ?thesis using K
    proof (cases rule: kernel_write [where bs = bs and k = k2])
      case (fail e k3)
      show ?thesis
      proof (cases "would_block e")
        case True
        show ?thesis
          by (rule lands_live [OF writing_done_blocked [OF go rd(1-3) fail(1) True]], rule echo_live.writing,
              rule apart_fresh [of "[55, 56, 57, 59, 61, 63]" 23 m, simplified]) (use len rd t fail in simp_all)
      next
        case False
        then show ?thesis
          by (intro lands_over [OF writing_done_write_error [OF go rd(1-3) fail(1) _ _ c(1)]] rest_faithful [where bs = bs])
            (use rd t fail in \<open>simp_all add: c\<close>)
      qed
    next
      case (part j k3)
      show ?thesis
        by (rule lands_live [OF writing_done_short [OF go rd(1-3) part(1,2)]], rule echo_live.writing,
            rule apart_fresh [of "[60, 61, 62, 64, 66, 68]" 28 m, simplified]) (use len rd t part in simp_all)
    next
      case (all k3)
      show ?thesis
        by (rule lands_live [OF writing_done_echoed [OF go rd(1-3) all(1)]], rule echo_live.reading,
            rule apart_fresh [of "[59, 60, 61, 63]" 23 m, simplified]) (use len rd t all in simp_all)
    qed
  qed
qed

lemma writing_pipe_event:
  assumes K: "fifo_kernel E obs ep sfd ifd ofd" and ap: "apart [ws, W, C, q1, q2, q3] m" and len: "length buf = 128"
    and cnt: "0 < cnt" "cnt < 128" "off + cnt \<le> 128"
    and t: "incoming (obs k) = outgoing (obs k) @ take cnt (drop off buf)" "\<not> at_eof (obs k)" "budget (obs k) = w" and ev: "write_bits ev"
  shows "lands obs w b ep sfd ifd ofd (pipe_on_update (sys E) (hooks E (deep d)) (deep d) (Addr 22) ev
    (echo_writing b ep sfd ifd ofd ws W C q1 q2 q3 m buf rr off cnt sz k))"
proof -
  obtain dl cr cl where c: "shuts E ep [sfd, ifd, ofd] dl cr cl" "\<And>fd k. obs (dl fd k) = obs k" "\<And>fd k. obs (cl fd k) = obs k"
    using kernel_shuts [OF K] by blast
  let ?bs = "take cnt (drop off buf)"
  have l: "length ?bs = cnt" using len cnt by simp
  have f: "faithful (obs k)" by (rule pending_faithful [OF len cnt(2,3) t(1,2)])
  note go = ap ev len cnt(3)
  show ?thesis using K
  proof (cases rule: kernel_write [where bs = ?bs and k = k])
    case (fail e k1)
    show ?thesis
    proof (cases "would_block e")
      case True
      show ?thesis
        by (rule lands_live [OF writing_again [OF go fail(1) True]
              writing_stays(2) [where obs = obs and k = k, OF ap len cnt t fail(2)]])
    next
      case False
      then show ?thesis by (intro lands_over [OF writing_error [OF go fail(1) _ _ c(1)]]) (simp_all add: c fail f t)
    qed
  next
    case (part j k1)
    have j: "j < cnt" using part(2) by (simp only: l)
    have "take j ?bs @ take (cnt - j) (drop (off + j) buf) = ?bs"
      using j by (metis add.commute drop_drop drop_take append_take_drop_id)
    then have out: "incoming (obs k1) = outgoing (obs k1) @ take (cnt - j) (drop (off + j) buf)"
      using part t by simp
    show ?thesis
      by (rule lands_live [OF writing_short [OF go part(1) j]], rule echo_live.writing,
          rule apart_fresh_old [of "[49, 50, 51, 53, 55]" 15, OF _ _ ap, of q3, simplified])
        (use len cnt j out t part in simp_all)
  next
    case (all k1)
    have wr: "retry_eintr (sys_write (sys E) ofd ?bs) k = Some (Inr cnt, k1)" using all(1) by (simp only: l)
    have t': "incoming (obs k1) = outgoing (obs k1)" "\<not> at_eof (obs k1)" "budget (obs k1) = w" using all t by simp_all
    show ?thesis
    proof (cases rr)
      case True
      then have rr: "rr = True" by blast
      show ?thesis unfolding rr by (rule writing_done_event [OF K ap len cnt ev wr t'])
    next
      case False
      then have rr: "rr = False" by blast
      show ?thesis unfolding rr
        by (rule lands_live [OF writing_done [OF go wr]], rule echo_live.reading,
            rule apart_fresh [of "[49, 50, 51, 53]" 13 m, simplified]) (use len t' in simp_all)
    qed
  qed
qed

lemma writing_event:
  assumes K: "fifo_kernel E obs ep sfd ifd ofd" and ap: "apart [ws, W, C, q1, q2, q3] m" and len: "length buf = 128"
    and cnt: "0 < cnt" "cnt < 128" "off + cnt \<le> 128"
    and t: "incoming (obs k) = outgoing (obs k) @ take cnt (drop off buf)" "\<not> at_eof (obs k)" "budget (obs k) = w"
    and a: "a \<in> {Addr 10, Addr 19, Addr 22}"
  shows "lands obs w b ep sfd ifd ofd (on_update E (hooks E (deep d)) (deep d) a ev
    (echo_writing b ep sfd ifd ofd ws W C q1 q2 q3 m buf rr off cnt sz k))"
proof -
  let ?s = "echo_writing b ep sfd ifd ofd ws W C q1 q2 q3 m buf rr off cnt sz k"
  consider "a = Addr 10" | "a = Addr 22" "write_bits ev" | "a = Addr 19" "read_bits ev" "rr = False"
    | "a = Addr 22 \<and> \<not> write_bits ev \<or> a = Addr 19 \<and> (rr \<or> \<not> read_bits ev)"
    using a by blast
  then show ?thesis
  proof cases
    case 1
    show ?thesis unfolding 1 on_update_signal [OF writing_pipes(3,4)] by (rule writing_signal_event [OF K ap len cnt t])
  next
    case 2
    show ?thesis unfolding 2(1) on_update_pipe [OF writing_pipes(2)] by (rule writing_pipe_event [OF K ap len cnt t 2(2)])
  next
    case 3
    show ?thesis unfolding 3(1,3) on_update_pipe [OF writing_pipes(1)]
      by (rule lands_live [OF writing_readable [OF ap 3(2)] writing_stays(2) [where obs = obs and k = k, OF ap len cnt t refl]])
  next
    case 4
    then have "pipes ?s a \<noteq> None" using writing_pipes by metis
    show ?thesis unfolding on_update_pipe [OF \<open>pipes ?s a \<noteq> None\<close>]
      by (rule lands_live [OF writing_idle [OF ap 4] writing_stays(2) [where obs = obs and k = k, OF ap len cnt t refl]])
  qed
qed

lemma live_event:
  assumes "fifo_kernel E obs ep sfd ifd ofd" and "echo_live obs w b ep sfd ifd ofd s" and "a \<in> {Addr 10, Addr 19, Addr 22}"
  shows "lands obs w b ep sfd ifd ofd (on_update E (hooks E (deep d)) (deep d) a ev s)"
  using assms(2)
proof cases
  case (reading ws W C q m buf k)
  then show ?thesis using reading_event [OF assms(1) reading(2-6) assms(3)] by meson
next
  case (writing ws W C q1 q2 q3 m buf cnt off k rr sz)
  then show ?thesis using writing_event [OF assms(1) writing(2-9) assms(3)] by meson
qed

end
