(* ===== verification/EchoProgram.thy ===== *)
theory EchoProgram
  imports EchoEvents
begin

text \<open>
  The program in fifo mode, from the first call of \<open>main\<close> to its end.
\<close>

section \<open>One step of the loop\<close>

abbreviation stale :: fault where
  "stale \<equiv> UseAfterFree ''EpollRegistrant''"

lemma live_fields:
  assumes "echo_live obs w b ep sfd ifd ofd s"
  shows "enqueued_actions s = []" "spare_actions_buf s = []" "epoll_fd s = ep" "mid_step s = b"
    "registrants s \<noteq> []" "a \<in> {Addr 10, Addr 19, Addr 22} \<Longrightarrow> regs s a \<noteq> None"
  using assms
  by (auto elim!: echo_live.cases simp: echo_reading_def echo_writing_def echo_registrants_def echo_regs_def)

lemma inv_fields:
  assumes "echo_inv obs w b ep sfd ifd ofd s"
  shows "enqueued_actions s = []" "spare_actions_buf s = []" "epoll_fd s = ep" "mid_step s = b"
  using assms by (auto elim!: echo_inv.cases simp: live_fields echo_over_def)

lemma live_budget: "echo_live obs w b ep sfd ifd ofd s \<Longrightarrow> budget (obs (os s)) = w"
  by (auto elim!: echo_live.cases simp: echo_reading_def echo_writing_def)

lemma live_step:
  assumes "echo_live obs w b ep sfd ifd ofd s" and "obs k = (obs (os s))\<lparr>budget := v\<rparr>"
  shows "echo_live obs v c ep sfd ifd ofd (s\<lparr>mid_step := c, os := k\<rparr>)"
  using assms(1)
proof cases
  case (reading ws W C q m buf k')
  with assms(2) have "obs k = (obs k')\<lparr>budget := v\<rparr>" by (simp add: echo_reading_def)
  with reading(2-6) show ?thesis
    unfolding reading(1)
    using echo_live.reading [of ws W C q m buf obs k v c ep sfd ifd ofd] by (simp add: echo_reading_def)
next
  case (writing ws W C q1 q2 q3 m buf cnt off k' rr sz)
  with assms(2) have "obs k = (obs k')\<lparr>budget := v\<rparr>" by (simp add: echo_writing_def)
  with writing(2-9) show ?thesis
    unfolding writing(1)
    using echo_live.writing [of ws W C q1 q2 q3 m buf cnt off obs k v c ep sfd ifd ofd rr sz] by (simp add: echo_writing_def)
qed

lemma inv_mid:
  assumes "echo_inv obs w b ep sfd ifd ofd s"
  shows "echo_inv obs w c ep sfd ifd ofd (s\<lparr>mid_step := c\<rparr>)"
  using assms
proof cases
  case live
  then show ?thesis
    using live_step [of obs w b ep sfd ifd ofd s "os s" w c] live_budget [OF live] by (auto intro: echo_inv.live)
next
  case (over k m)
  then show ?thesis using echo_inv.over [of obs k w c ep sfd ifd ofd m] by (simp add: echo_over_def)
qed

text \<open>What is used of the event handler below: it keeps the invariant.\<close>

definition handles :: "('os \<Rightarrow> traffic) \<Rightarrow> Fd \<Rightarrow> Fd \<Rightarrow> Fd \<Rightarrow> Fd \<Rightarrow> (addr \<Rightarrow> u32 \<Rightarrow> ('os sock_st, unit) M) \<Rightarrow> bool" where
  "handles obs ep sfd ifd ofd upd \<longleftrightarrow> (\<forall>w b s a ev. echo_live obs w b ep sfd ifd ofd s \<longrightarrow> a \<in> {Addr 10, Addr 19, Addr 22} \<longrightarrow>
     lands obs w b ep sfd ifd ofd (upd a ev s))"

lemma on_update_handles:
  "fifo_kernel E obs ep sfd ifd ofd \<Longrightarrow> handles obs ep sfd ifd ofd (on_update E (hooks E (deep d)) (deep d))"
  unfolding handles_def by (intro allI impI live_event)

lemma deliver_live:
  assumes "handles obs ep sfd ifd ofd upd" and "echo_live obs w b ep sfd ifd ofd s" and "fst x \<in> {Addr 10, Addr 19, Addr 22}"
  shows "lands obs w b ep sfd ifd ofd (deliver upd x s)"
proof -
  obtain y where "regs s (fst x) = Some y" using live_fields(6) [OF assms(2,3)] by auto
  then have "deliver upd x s = upd (fst x) (snd x) s" by (simp add: deliver_def)
  moreover have "lands obs w b ep sfd ifd ofd (upd (fst x) (snd x) s)" using assms unfolding handles_def by blast
  ultimately show ?thesis by simp
qed

lemma deliver_over: "deliver upd x (echo_over b ep m k) = Inl stale"
  by (simp add: deliver_def get_reg_def bindM_def echo_over_def)

text \<open>A batch of events: the only fault is an event for an object that an earlier event of the batch
  destroyed.\<close>

lemma deliver_batch:
  assumes upd: "handles obs ep sfd ifd ofd upd"
  shows "echo_inv obs w b ep sfd ifd ofd s \<Longrightarrow> fst ` set evs \<subseteq> {Addr 10, Addr 19, Addr 22} \<Longrightarrow>
    lands obs w b ep sfd ifd ofd (mapM (deliver upd) evs s)
    \<or> mapM (deliver upd) evs s = Inl stale \<and> (echo_live obs w b ep sfd ifd ofd s \<longrightarrow> 1 < length evs)"
proof (induction evs arbitrary: s)
  case Nil
  then show ?case by (auto simp: lands_def)
next
  case (Cons x evs)
  from Cons.prems(1) show ?case
  proof cases
    case live
    obtain s1 where s1: "deliver upd x s = Inr ((), s1)" "echo_inv obs w b ep sfd ifd ofd s1"
      using deliver_live [OF upd live, of x] Cons.prems(2) by (auto simp: lands_def)
    with Cons.IH [OF s1(2)] Cons.prems(2) show ?thesis by (cases evs) (auto simp: lands_def)
  next
    case (over k m)
    then have "\<not> echo_live obs w b ep sfd ifd ofd s" by (auto dest: live_fields(5) simp: echo_over_def)
    with over show ?thesis by (simp add: deliver_over)
  qed
qed

text \<open>A step from a live state.\<close>

definition single_events :: "'os env \<Rightarrow> Fd \<Rightarrow> bool" where
  "single_events E ep \<longleftrightarrow> (\<forall>k b evs k'. retry_eintr (sys_epoll_wait (sys E) ep 2048 b) k = Some (Inr evs, k') \<longrightarrow> length evs \<le> 1)"

definition finite_events :: "'os env \<Rightarrow> ('os \<Rightarrow> traffic) \<Rightarrow> Fd \<Rightarrow> bool" where
  "finite_events E obs ep \<longleftrightarrow> (\<forall>k b evs k'. retry_eintr (sys_epoll_wait (sys E) ep 2048 b) k = Some (Inr evs, k') \<longrightarrow>
     budget (obs k') < budget (obs k))"

lemma kernel_wait:
  assumes "fifo_kernel E obs ep sfd ifd ofd"
  obtains (fail) e k' where "retry_eintr (sys_epoll_wait (sys E) ep 2048 b) k = Some (Inl e, k')" "obs k' = obs k"
  | (events) evs k' v where "retry_eintr (sys_epoll_wait (sys E) ep 2048 b) k = Some (Inr evs, k')"
      "obs k' = (obs k)\<lparr>budget := v\<rparr>" "v \<le> budget (obs k)" "fst ` set evs \<subseteq> {Addr 10, Addr 19, Addr 22}"
proof -
  have "\<exists>r k'. retry_eintr (sys_epoll_wait (sys E) ep 2048 b) k = Some (r, k') \<and> (case r of
        Inl e \<Rightarrow> obs k' = obs k
      | Inr evs \<Rightarrow> fst ` set evs \<subseteq> {Addr 10, Addr 19, Addr 22} \<and> (\<exists>w \<le> budget (obs k). obs k' = (obs k)\<lparr>budget := w\<rparr>))"
    using assms unfolding fifo_kernel_def by blast
  then obtain r k' where r: "retry_eintr (sys_epoll_wait (sys E) ep 2048 b) k = Some (r, k')" "case r of
        Inl e \<Rightarrow> obs k' = obs k
      | Inr evs \<Rightarrow> fst ` set evs \<subseteq> {Addr 10, Addr 19, Addr 22} \<and> (\<exists>w \<le> budget (obs k). obs k' = (obs k)\<lparr>budget := w\<rparr>)"
    by blast
  show ?thesis
  proof (cases r)
    case (Inl e)
    with r fail [of e k'] show ?thesis by simp
  next
    case (Inr evs)
    with r events [of evs k'] show ?thesis by auto
  qed
qed

lemmas step_exec = full_step_def handle_wakeups_def fd_has_value_def exec

lemma step_live:
  assumes K: "fifo_kernel E obs ep sfd ifd ofd" and upd: "handles obs ep sfd ifd ofd upd"
    and s: "echo_live obs w False ep sfd ifd ofd s"
  obtains (failed) e k where "full_step (sys E) upd run s = Inr (Inl e, s\<lparr>mid_step := True, os := k\<rparr>)" "obs k = obs (os s)"
  | (stepped) s' v where "full_step (sys E) upd run s = Inr (Inr (), s')" "echo_inv obs v False ep sfd ifd ofd s'"
      "finite_events E obs ep \<Longrightarrow> v < w"
  | (stale) "full_step (sys E) upd run s = Inl stale" "\<not> single_events E ep"
proof -
  note f = live_fields [OF s]
  have ep: "ep \<noteq> -1" using K unfolding fifo_kernel_def by blast
  show ?thesis using K
  proof (cases rule: kernel_wait [where b = True and k = "os s"])
    case (fail e k)
    then show ?thesis
      by (intro failed [of "mk_error ''epoll_wait'' e" k]) (simp_all add: step_exec f ep del: exec_del)
  next
    case (events evs k v)
    let ?t = "s\<lparr>mid_step := True, os := k\<rparr>"
    have t: "echo_live obs v True ep sfd ifd ofd ?t" by (rule live_step [OF s events(2)])
    have v: "finite_events E obs ep \<Longrightarrow> v < w"
      unfolding finite_events_def using events(1,2) live_budget [OF s] by fastforce
    from deliver_batch [OF upd echo_inv.live [OF t] events(4)]
    consider s1 where "mapM (deliver upd) evs ?t = Inr ((), s1)" "echo_inv obs v True ep sfd ifd ofd s1"
      | "mapM (deliver upd) evs ?t = Inl stale" "1 < length evs"
      using t by (auto simp: lands_def)
    then show ?thesis
    proof cases
      case (1 s1)
      note g = inv_fields [OF 1(2)]
      have "full_step (sys E) upd run s = Inr (Inr (), s1\<lparr>mid_step := False\<rparr>)"
        using 1 events by (simp add: step_exec f g ep del: exec_del)
      then show ?thesis using inv_mid [OF 1(2)] v by (rule stepped)
    next
      case 2
      then have "full_step (sys E) upd run s = Inl stale"
        using events by (simp add: step_exec f ep del: exec_del)
      moreover have "\<not> single_events E ep" using 2(2) events(1) by (auto simp: single_events_def not_le)
      ultimately show ?thesis by (rule stale)
    qed
  qed
qed

section \<open>The loop\<close>

lemma has_stuff_live: "echo_live obs w False ep sfd ifd ofd s \<Longrightarrow> has_stuff_to_do s = Inr (True, s)"
  by (auto simp: has_stuff_to_do_def exec live_fields simp del: exec_del)

lemma has_stuff_over: "has_stuff_to_do (echo_over False ep m k) = Inr (False, echo_over False ep m k)"
  by (simp add: has_stuff_to_do_idle echo_over_def)

text \<open>What a run of the loop may end with: \<open>lax\<close> says that a batch may have several
  events, \<open>long\<close> that there may be more batches than fuel.\<close>

definition loop_good :: "('os \<Rightarrow> traffic) \<Rightarrow> Fd \<Rightarrow> bool \<Rightarrow> bool \<Rightarrow> fault + int \<times> 'os sock_st \<Rightarrow> bool" where
  "loop_good obs ep lax long r \<longleftrightarrow> (case r of
     Inl f \<Rightarrow> f = OutOfFuel \<and> long \<or> f = stale \<and> lax
   | Inr (status, s) \<Rightarrow> faithful (obs (os s)) \<and> enqueued_actions s = [] \<and> spare_actions_buf s = [] \<and> epoll_fd s = ep
       \<and> (status = 0 \<and> (\<exists>m k. s = echo_over False ep m k) \<or> status = 1))"

lemma main_loop_fault:
  "has_stuff_to_do s = Inr (True, s) \<Longrightarrow> full_step (sys E) (on_update E H n) (run_action E H n) s = Inl f \<Longrightarrow>
    main_loop E H n (Suc k) s = Inl f"
  by (simp add: exec del: exec_del)

lemma loop_good_mono: "loop_good obs ep lax long r \<Longrightarrow> (long \<Longrightarrow> long') \<Longrightarrow> loop_good obs ep lax long' r"
  by (auto simp: loop_good_def split: sum.splits)

lemma main_loop_step:
  "has_stuff_to_do s = Inr (True, s) \<Longrightarrow> full_step (sys E) (on_update E H n) (run_action E H n) s = Inr (Inr (), t) \<Longrightarrow>
    main_loop E H n (Suc k) s = main_loop E H n k t"
  by (simp add: exec del: exec_del)

lemma loop_from_live:
  assumes K: "fifo_kernel E obs ep sfd ifd ofd" and H: "handles obs ep sfd ifd ofd (on_update E H n)"
  shows "echo_inv obs w False ep sfd ifd ofd s \<Longrightarrow>
    loop_good obs ep (\<not> single_events E ep) (finite_events E obs ep \<longrightarrow> k \<le> w) (main_loop E H n k s)"
proof (induction k arbitrary: s w)
  case 0
  then show ?case by (simp add: loop_good_def)
next
  case (Suc k)
  from Suc.prems show ?case
  proof cases
    case (over k' m)
    have "main_loop E H n (Suc k) s = Inr (0, s)" unfolding over by (simp add: has_stuff_over exec del: exec_del)
    with over show ?thesis by (auto simp: loop_good_def echo_over_def)
  next
    case live
    note b = has_stuff_live [OF live]
    from K H live show ?thesis
    proof (cases rule: step_live [where run = "run_action E H n"])
      case (failed e k')
      then have "main_loop E H n (Suc k) s = Inr (1, s\<lparr>mid_step := True, os := k'\<rparr>)" by (simp add: b exec del: exec_del)
      with failed(2) live_faithful [OF live] live_fields [OF live] show ?thesis by (simp add: loop_good_def)
    next
      case (stepped s' v)
      show ?thesis
        unfolding main_loop_step [OF b stepped(1)] using Suc.IH [OF stepped(2)]
        by (rule loop_good_mono) (use stepped(3) in auto)
    next
      case stale
      then have "main_loop E H n (Suc k) s = Inl stale" by (simp add: b exec del: exec_del)
      with stale(2) show ?thesis by (simp add: loop_good_def)
    qed
  qed
qed

section \<open>The start of \<open>main\<close>\<close>

text \<open>The system calls up to the first wait succeed, the fifos are fifos, and nothing is there to be read
  yet: from \<open>k0\<close> to the loop of \<open>main\<close> at \<open>k4\<close>, and from there to the first step that waits, at \<open>k9\<close>.\<close>

definition starts :: "'os env \<Rightarrow> string \<Rightarrow> string \<Rightarrow> Fd \<Rightarrow> Fd \<Rightarrow> Fd \<Rightarrow> Fd \<Rightarrow> 'os \<Rightarrow> 'os \<Rightarrow> bool" where
  "starts E inp outp ep sfd ifd ofd k4 k9 \<longleftrightarrow> (\<exists>evs k5 e k6 k7 k8 e'.
     retry_eintr (sys_epoll_wait (sys E) ep 2048 False) k4 = Some (Inr evs, k5) \<and> fst ` set evs \<subseteq> {Addr 10}
   \<and> retry_eintr (sys_read_siginfo (sys E) sfd) k5 = Some (Inl e, k6) \<and> would_block e
   \<and> opens_fifo E ep inp O_RDONLY ifd (Addr 19) k6 k7 \<and> opens_fifo E ep outp O_WRONLY ofd (Addr 22) k7 k8
   \<and> retry_eintr (sys_read (sys E) ifd 128) k8 = Some (Inl e', k9) \<and> would_block e')"

definition boots :: "'os env \<Rightarrow> string \<Rightarrow> string \<Rightarrow> Fd \<Rightarrow> Fd \<Rightarrow> Fd \<Rightarrow> Fd \<Rightarrow> 'os \<Rightarrow> 'os \<Rightarrow> 'os \<Rightarrow> bool" where
  "boots E inp outp ep sfd ifd ofd k0 k4 k9 \<longleftrightarrow> (\<exists>k1 k2 k3.
     sys_sigprocmask (sys E) True sigint_sigterm_sigset k0 = (Inr (), k1)
   \<and> sys_signalfd (sys E) sigint_sigterm_sigset (or O_NONBLOCK O_CLOEXEC) k1 = (Inr sfd, k2)
   \<and> sys_epoll_create1 (sys E) k2 = (Inr ep, k3)
   \<and> sys_epoll_add (sys E) ep sfd (or (or EPOLLIN EPOLLOUT) EPOLLET) (Addr 10) k3 = (Inr (), k4)
   \<and> starts E inp outp ep sfd ifd ofd k4 k9)"

abbreviation fifo_options :: "string \<Rightarrow> string \<Rightarrow> Options" where
  "fifo_options inp outp \<equiv> \<lparr>fifo_mode = Some \<lparr>in_fifo_path = inp, out_fifo_path = outp\<rparr>, socket_mode = None,
     client_socket_mode = None, show_help = False\<rparr>"

lemma deliver_booted:
  "sig_on_update S H n (Addr 10) ev (echo_booted b ep sfd acts sp k) = Inr ((), echo_booted b ep sfd acts sp k)"
  by (simp add: sig_on_update_def exec get_sig_def echo_booted_def del: exec_del)

lemma batch_booted:
  "fst ` set evs \<subseteq> {Addr 10} \<Longrightarrow>
    mapM (deliver (on_update E H n)) evs (echo_booted b ep sfd acts sp k) = Inr ((), echo_booted b ep sfd acts sp k)"
proof (induction evs)
  case (Cons x evs)
  let ?s = "echo_booted b ep sfd acts sp k"
  have "on_update E H n (Addr 10) (snd x) ?s = sig_on_update (sys E) H n (Addr 10) (snd x) ?s"
    by (rule on_update_signal) (simp_all add: echo_booted_def)
  moreover have "get_reg (Addr 10) ?s = Inr (\<lparr>loop_ptr = Some (), registered_index = 0\<rparr>, ?s)"
    by (rule get_reg_run) (simp add: echo_booted_def)
  ultimately have "deliver (on_update E H n) x ?s = Inr ((), ?s)"
    using Cons.prems by (simp add: deliver_def exec deliver_booted del: exec_del)
  with Cons show ?case by simp
qed simp

lemma first_step:
  assumes ep: "ep \<noteq> -1" and w: "retry_eintr (sys_epoll_wait (sys E) ep 2048 False) k4 = Some (Inr evs, k5)"
    and evs: "fst ` set evs \<subseteq> {Addr 10}"
    and st: "start_action E H n (Addr 10) opts (echo_booted True ep sfd [] [None] k5)
      = Inr ((), (echo_reading True ep sfd ifd ofd ws W C q m buf k)\<lparr>spare_actions_buf := [None]\<rparr>)"
  shows "full_step (sys E) (on_update E H n) (run_action E H n) (echo_booted False ep sfd [Task (KStart (Addr 10) opts)] [] k4)
     = Inr (Inr (), echo_reading False ep sfd ifd ofd ws W C q m buf k)"
proof -
  let ?acts = "[Task (KStart (Addr 10) opts)]"
  have s: "(echo_booted b ep sfd acts sp k')\<lparr>mid_step := c\<rparr> = echo_booted c ep sfd acts sp k'"
    "(echo_booted b ep sfd acts sp k')\<lparr>os := k''\<rparr> = echo_booted b ep sfd acts sp k''"
    "(echo_booted b ep sfd acts sp k')\<lparr>spare_actions_buf := sp'\<rparr> = echo_booted b ep sfd acts sp' k'"
    "(echo_booted b ep sfd acts sp k')\<lparr>enqueued_actions := acts'\<rparr> = echo_booted b ep sfd acts' sp k'"
    "epoll_fd (echo_booted b ep sfd acts sp k') = ep" "mid_step (echo_booted b ep sfd acts sp k') = b"
    "enqueued_actions (echo_booted b ep sfd acts sp k') = acts" "spare_actions_buf (echo_booted b ep sfd acts sp k') = sp"
    "os (echo_booted b ep sfd acts sp k') = k'" for b acts sp k' c k'' sp' acts'
    by (simp_all add: echo_booted_def)
  have r: "spare_actions_buf_update (\<lambda>_. []) ((echo_reading True ep sfd ifd ofd ws W C q m buf k)\<lparr>spare_actions_buf := [None]\<rparr>)
      = echo_reading True ep sfd ifd ofd ws W C q m buf k"
    "(echo_reading True ep sfd ifd ofd ws W C q m buf k)\<lparr>mid_step := False\<rparr> = echo_reading False ep sfd ifd ofd ws W C q m buf k"
    by (simp_all add: echo_reading_def)
  show ?thesis
    by (simp add: step_exec s ep w batch_booted [OF evs] run_action_def st r del: exec_del)
qed

section \<open>The whole program\<close>

abbreviation at_start :: "string \<Rightarrow> string \<Rightarrow> Fd \<Rightarrow> Fd \<Rightarrow> 'os \<Rightarrow> 'os sock_st" where
  "at_start inp outp ep sfd k \<equiv> echo_booted False ep sfd [Task (KStart (Addr 10) (fifo_options inp outp))] [] k"

abbreviation at_wait :: "Fd \<Rightarrow> Fd \<Rightarrow> Fd \<Rightarrow> Fd \<Rightarrow> 'os \<Rightarrow> 'os sock_st" where
  "at_wait ep sfd ifd ofd k \<equiv> echo_reading False ep sfd ifd ofd (Addr 30) (Addr 31) (Addr 32) (Addr 34) 0 (replicate 128 0) k"

lemma started_step:
  assumes st: "starts E inp outp ep sfd ifd ofd k4 k9" and ep: "ep \<noteq> -1" "sfd \<noteq> -1" "ifd \<noteq> -1" "ofd \<noteq> -1"
  shows "full_step (sys E) (on_update E (hooks E (deep d)) (deep d)) (run_action E (hooks E (deep d)) (deep d)) (at_start inp outp ep sfd k4)
    = Inr (Inr (), at_wait ep sfd ifd ofd k9)"
proof -
  obtain evs k5 e k6 k7 k8 e' where
    w: "retry_eintr (sys_epoll_wait (sys E) ep 2048 False) k4 = Some (Inr evs, k5)" "fst ` set evs \<subseteq> {Addr 10}"
    and sg: "retry_eintr (sys_read_siginfo (sys E) sfd) k5 = Some (Inl e, k6)" "would_block e"
    and op: "opens_fifo E ep inp O_RDONLY ifd (Addr 19) k6 k7" "opens_fifo E ep outp O_WRONLY ofd (Addr 22) k7 k8"
    and rd: "retry_eintr (sys_read (sys E) ifd 128) k8 = Some (Inl e', k9)" "would_block e'"
    using st unfolding starts_def by (elim exE conjE) (rule that; assumption)
  show ?thesis by (rule first_step [OF ep(1) w boot_start [OF sg op rd ep]])
qed

lemma has_stuff_started: "has_stuff_to_do (at_start inp outp ep sfd k) = Inr (True, at_start inp outp ep sfd k)"
  by (simp add: has_stuff_to_do_def exec echo_booted_def del: exec_del)

lemma waiting_live:
  "obs k = \<lparr>incoming = [], outgoing = [], at_eof = False, budget = w\<rparr> \<Longrightarrow>
    echo_live obs w False ep sfd ifd ofd (at_wait ep sfd ifd ofd k)"
  by (rule echo_live.reading) (auto simp: apart_def)

lemma loop_after_boot:
  assumes K: "fifo_kernel E obs ep sfd ifd ofd" and st: "starts E inp outp ep sfd ifd ofd k4 k9"
    and obs: "obs k9 = \<lparr>incoming = [], outgoing = [], at_eof = False, budget = v\<rparr>"
  shows "loop_good obs ep (\<not> single_events E ep) (finite_events E obs ep \<longrightarrow> n \<le> Suc v)
    (main_loop E (hooks E (deep d)) (deep d) n (at_start inp outp ep sfd k4))"
proof (cases n)
  case 0
  then show ?thesis by (simp add: loop_good_def)
next
  case (Suc j)
  have ep: "ep \<noteq> -1" "sfd \<noteq> -1" "ifd \<noteq> -1" "ofd \<noteq> -1" using K unfolding fifo_kernel_def by auto
  have "loop_good obs ep (\<not> single_events E ep) (finite_events E obs ep \<longrightarrow> j \<le> v)
      (main_loop E (hooks E (deep d)) (deep d) j (at_wait ep sfd ifd ofd k9))"
    by (intro loop_from_live [OF K on_update_handles [OF K]] echo_inv.live waiting_live obs)
  then show ?thesis
    unfolding Suc main_loop_step [OF has_stuff_started started_step [OF st ep]] by (rule loop_good_mono) simp
qed

lemma main_boot:
  assumes argv: "argv \<noteq> []" "parse_command_line argv = Inr (fifo_options inp outp)" and ep: "ep \<noteq> -1"
    and calls: "sys_sigprocmask (sys E) True sigint_sigterm_sigset k0 = (Inr (), k1)"
      "sys_signalfd (sys E) sigint_sigterm_sigset (or O_NONBLOCK O_CLOEXEC) k1 = (Inr sfd, k2)"
      "sys_epoll_create1 (sys E) k2 = (Inr ep, k3)"
      "sys_epoll_add (sys E) ep sfd (or (or EPOLLIN EPOLLOUT) EPOLLET) (Addr 10) k3 = (Inr (), k4)"
  shows "main E D n argv (echo_over False (-1) 10 k0) =
    bindM (bindM (main_loop E (hooks E D) D n) (\<lambda>status. thenM (loop_destroy E (hooks E D) D) (ret status)))
      (\<lambda>status. thenM (guard_destroy (sys E) (strerror E) \<lparr>unblocked = False, blocked_set = sigint_sigterm_sigset\<rparr>) (ret status))
      (echo_booted False ep sfd [Task (KStart (Addr 10) (fifo_options inp outp))] [] k4)"
proof -
  have os: "(echo_over False e m k)\<lparr>os := k'\<rparr> = echo_over False e m k'" "os (echo_over False e m k) = k" for e m k k'
    by (simp_all add: echo_over_def)
  have i: "loop_init ep (echo_over False (-1) 10 k) = Inr ((), echo_over False ep 10 k)" for k
    by (simp add: loop_init_def echo_over_def)
  have sc: "schedule ac (echo_booted b ep sfd [] [] k) = Inr ((), echo_booted b ep sfd [ac] [] k)" for ac b k
    by (simp add: schedule_def echo_booted_def)
  note sig = boot_signal_fd [where b = False, OF calls(4) ep]
  let ?g = "\<lparr>unblocked = False, blocked_set = sigint_sigterm_sigset\<rparr>"
  have g: "guard_new (sys E) (strerror E) sigint_sigterm_sigset (echo_over False (-1) 10 k0) = Inr (?g, echo_over False (-1) 10 k1)"
    by (simp add: guard_new_def exec os calls(1) del: exec_del)
  have m: "make_signalfd (sys E) ?g (echo_over False (-1) 10 k1) = Inr (Inr sfd, echo_over False (-1) 10 k2)"
    by (simp add: make_signalfd_def exec os calls(2) del: exec_del)
  have e: "make_epoll_fd (sys E) (echo_over False (-1) 10 k2) = Inr (Inr ep, echo_over False (-1) 10 k3)"
    by (simp add: make_epoll_fd_def exec os calls(3) del: exec_del)
  have "main E D n argv (echo_over False (-1) 10 k0) = main_body E D n (fifo_options inp outp) (echo_over False (-1) 10 k0)"
    by (simp add: main_def argv)
  also have "\<dots> = bindM (bindM (main_loop E (hooks E D) D n) (\<lambda>status. thenM (loop_destroy E (hooks E D) D) (ret status)))
      (\<lambda>status. thenM (guard_destroy (sys E) (strerror E) ?g) (ret status))
      (echo_booted False ep sfd [Task (KStart (Addr 10) (fifo_options inp outp))] [] k4)"
    unfolding main_body_def
    by (simp only: bindM_exec thenM_exec bindE_exec thenE_exec g m e i sc sig sum.case cong: exec_congs)
  finally show ?thesis .
qed

lemma loop_destroy_idle:
  assumes "enqueued_actions s = []" "spare_actions_buf s = []" "epoll_fd s \<noteq> -1"
  shows "loop_destroy E H n s = Inr ((), s\<lparr>registrants := [], os := snd (sys_close (sys E) (epoll_fd s) (os s)), epoll_fd := -1\<rparr>)"
  using assms by (simp add: loop_destroy_def exec fd_destroy_def split: prod.splits del: exec_del)

lemma program_good:
  fixes E :: "'os env"
  assumes K: "fifo_kernel E obs ep sfd ifd ofd" and B: "boots E inp outp ep sfd ifd ofd k0 k4 k9"
    and t: "obs k9 = \<lparr>incoming = [], outgoing = [], at_eof = False, budget = w\<rparr>"
    and argv: "argv \<noteq> []" "parse_command_line argv = Inr (fifo_options inp outp)"
  shows "loop_good obs (-1) (\<not> single_events E ep) (finite_events E obs ep \<longrightarrow> n \<le> Suc w)
     (main E (deep d) n argv (echo_over False (-1) 10 k0))"
proof -
  have fds: "ep \<noteq> -1" "sfd \<noteq> -1" "ifd \<noteq> -1" "ofd \<noteq> -1" using K unfolding fifo_kernel_def by auto
  have mask: "\<exists>k'. sys_sigprocmask (sys E) False sigint_sigterm_sigset k = (Inr (), k') \<and> obs k' = obs k" for k
    using K unfolding fifo_kernel_def by blast
  have cls: "obs (snd (sys_close (sys E) fd k)) = obs k" for fd k
    using K unfolding fifo_kernel_def by blast
  obtain k1 k2 k3 where
    calls: "sys_sigprocmask (sys E) True sigint_sigterm_sigset k0 = (Inr (), k1)"
      "sys_signalfd (sys E) sigint_sigterm_sigset (or O_NONBLOCK O_CLOEXEC) k1 = (Inr sfd, k2)"
      "sys_epoll_create1 (sys E) k2 = (Inr ep, k3)"
      "sys_epoll_add (sys E) ep sfd (or (or EPOLLIN EPOLLOUT) EPOLLET) (Addr 10) k3 = (Inr (), k4)"
    and st: "starts E inp outp ep sfd ifd ofd k4 k9"
    using B unfolding boots_def by (elim exE conjE) (rule that; assumption)
  let ?s = "echo_booted False ep sfd [Task (KStart (Addr 10) (fifo_options inp outp))] [] k4"
  define H :: "'os sock_st prog_hooks" where "H = hooks E (deep d)"
  define D where "D = deep d"
  note run = main_boot [where D = "deep d" and n = n, OF argv fds(1) calls]
  have good: "loop_good obs ep (\<not> single_events E ep) (finite_events E obs ep \<longrightarrow> n \<le> Suc w) (main_loop E H D n ?s)"
    unfolding H_def D_def by (rule loop_after_boot [OF K st t])
  show ?thesis
    unfolding run H_def [symmetric] unfolding D_def [symmetric]
  proof (cases "main_loop E H D n ?s")
    case (Inl f)
    with good show "loop_good obs (-1) (\<not> single_events E ep) (finite_events E obs ep \<longrightarrow> n \<le> Suc w)
      (bindM (bindM (main_loop E H D n) (\<lambda>status. thenM (loop_destroy E H D) (ret status)))
        (\<lambda>status. thenM (guard_destroy (sys E) (strerror E) \<lparr>unblocked = False, blocked_set = sigint_sigterm_sigset\<rparr>) (ret status)) ?s)"
      by (simp add: loop_good_def exec del: exec_del)
  next
    case (Inr x)
    then obtain status s1 where r: "main_loop E H D n ?s = Inr (status, s1)" by (cases x) auto
    with good have g: "faithful (obs (os s1))" "enqueued_actions s1 = []" "spare_actions_buf s1 = []" "epoll_fd s1 = ep"
      "status = 0 \<and> (\<exists>m k. s1 = echo_over False ep m k) \<or> status = 1"
      by (auto simp: loop_good_def)
    let ?k = "snd (sys_close (sys E) ep (os s1))"
    obtain k' where k': "sys_sigprocmask (sys E) False sigint_sigterm_sigset ?k = (Inr (), k')" "obs k' = obs ?k"
      using mask by blast
    have d: "loop_destroy E H D s1 = Inr ((), s1\<lparr>registrants := [], os := ?k, epoll_fd := -1\<rparr>)"
      using loop_destroy_idle [of s1 E H D] g fds by simp
    let ?s2 = "s1\<lparr>registrants := [], os := k', epoll_fd := -1\<rparr>"
    have run: "bindM (bindM (main_loop E H D n) (\<lambda>status. thenM (loop_destroy E H D) (ret status)))
        (\<lambda>status. thenM (guard_destroy (sys E) (strerror E) \<lparr>unblocked = False, blocked_set = sigint_sigterm_sigset\<rparr>) (ret status)) ?s
      = Inr (status, ?s2)"
      by (simp add: exec r d guard_destroy_def unblock_def k' del: exec_del)
    have "?s2 = echo_over False (-1) m k'" if "s1 = echo_over False ep m k" for m k
      using that by (simp add: echo_over_def)
    with g(5) have "status = 0 \<and> (\<exists>m k. ?s2 = echo_over False (-1) m k) \<or> status = 1" by blast
    with g k' cls show "loop_good obs (-1) (\<not> single_events E ep) (finite_events E obs ep \<longrightarrow> n \<le> Suc w)
      (bindM (bindM (main_loop E H D n) (\<lambda>status. thenM (loop_destroy E H D) (ret status)))
        (\<lambda>status. thenM (guard_destroy (sys E) (strerror E) \<lparr>unblocked = False, blocked_set = sigint_sigterm_sigset\<rparr>) (ret status)) ?s)"
      unfolding run loop_good_def sum.case prod.case by (intro conjI) simp_all
  qed
qed

lemma loop_steps_inv:
  assumes K: "fifo_kernel E obs ep sfd ifd ofd" and H: "handles obs ep sfd ifd ofd (on_update E H n)"
  shows "loop_steps E H n j s s' \<Longrightarrow> echo_inv obs w False ep sfd ifd ofd s \<Longrightarrow> \<exists>v. echo_inv obs v False ep sfd ifd ofd s'"
proof (induction j arbitrary: s w)
  case 0
  then show ?case by auto
next
  case (Suc j)
  from Suc.prems(1) obtain s1 where st: "has_stuff_to_do s = Inr (True, s)"
    "full_step (sys E) (on_update E H n) (run_action E H n) s = Inr (Inr (), s1)" "loop_steps E H n j s1 s'" by auto
  from Suc.prems(2) show ?case
  proof cases
    case live
    from K H live show ?thesis
    proof (cases rule: step_live [where run = "run_action E H n"])
      case (stepped s2 v)
      with st have "s1 = s2" by simp
      with stepped Suc.IH [OF st(3)] show ?thesis by blast
    qed (use st in simp_all)
  next
    case (over k m)
    with st(1) show ?thesis by (simp add: has_stuff_over)
  qed
qed

end
