(* ===== verification/EchoProps.thy ===== *)
theory EchoProps
  imports EchoProgram
begin

text \<open>
  The properties of the program in fifo mode, with a concrete kernel on which they are applied.
\<close>

section \<open>A concrete kernel\<close>

text \<open>It has some chunks of input, reports each as one event, then the end of the input, and at most
  \<open>t_left\<close> batches of events; every write is complete. With \<open>sig\<close> a signal comes with the first of them.\<close>

record toy =
  t_chunks :: "u8 list list"
  t_ready :: bool
  t_left :: nat
  t_in :: "u8 list"
  t_out :: "u8 list"
  t_eof :: bool

definition toy_obs :: "toy \<Rightarrow> traffic" where
  "toy_obs k = \<lparr>incoming = t_in k, outgoing = t_out k, at_eof = t_eof k, budget = t_left k\<rparr>"

definition toy_read :: "int \<Rightarrow> nat \<Rightarrow> (toy, u8 list) syscall" where
  "toy_read fd n k = (if \<not> t_ready k then (Inl EAGAIN, k)
     else case t_chunks k of
       [] \<Rightarrow> (Inr [], k\<lparr>t_ready := False, t_eof := True\<rparr>)
     | c # cs \<Rightarrow> (let bs = take 127 c in
         (Inr bs, k\<lparr>t_chunks := cs, t_ready := False, t_in := t_in k @ bs, t_eof := t_eof k \<or> bs = []\<rparr>)))"

definition toy_wait :: "bool \<Rightarrow> int \<Rightarrow> nat \<Rightarrow> bool \<Rightarrow> (toy, (addr \<times> u32) list) syscall" where
  "toy_wait sig ep n block k = (if t_left k = 0 then (Inl 9, k)
     else (Inr (if block then (if sig then [(Addr 10, EPOLLIN)] else []) @ [(Addr 19, EPOLLIN)] else []), k\<lparr>t_left := t_left k - 1, t_ready := block\<rparr>))"

definition toy_siginfo :: "bool \<Rightarrow> int \<Rightarrow> (toy, nat \<times> u32) syscall" where
  "toy_siginfo sig fd k = (if sig \<and> t_ready k then (Inr (128, SIGTERM), k) else (Inl EAGAIN, k))"

definition toy_env :: "bool \<Rightarrow> toy env" where
  "toy_env sig = \<lparr>sys = idle_sys\<lparr>sys_read := toy_read,
       sys_write := (\<lambda>fd bs k. (Inr (length bs), k\<lparr>t_out := t_out k @ bs\<rparr>)),
       sys_open := (\<lambda>path oflag k. (Inr (if path = ''in'' then 5 else 6), k)),
       sys_epoll_wait := toy_wait sig, sys_read_siginfo := toy_siginfo sig, sys_signalfd := (\<lambda>_ _ k. (Inr 4, k))\<rparr>,
     strerror = (\<lambda>_. []), gai_strerror = (\<lambda>_. [])\<rparr>"

definition toy_start :: toy where
  "toy_start = \<lparr>t_chunks = [[104, 105], [33]], t_ready = False, t_left = 5, t_in = [], t_out = [], t_eof = False\<rparr>"

lemma toy_env_simps [simp]:
  "sys_read (sys (toy_env sig)) = toy_read" "sys_epoll_wait (sys (toy_env sig)) = toy_wait sig"
  "sys_write (sys (toy_env sig)) fd bs k = (Inr (length bs), k\<lparr>t_out := t_out k @ bs\<rparr>)"
  "sys_read_siginfo (sys (toy_env sig)) = toy_siginfo sig" "sys_epoll_del (sys (toy_env sig)) ep fd k = (Inr (), k)"
  "sys_close (sys (toy_env sig)) fd k = (Inr (), k)" "sys_sigprocmask (sys (toy_env sig)) b sigs k = (Inr (), k)"
  "sys_signalfd (sys (toy_env sig)) sigs fl k = (Inr 4, k)" "sys_epoll_create1 (sys (toy_env sig)) k = (Inr 3, k)"
  "sys_epoll_add (sys (toy_env sig)) ep fd ev a k = (Inr (), k)" "sys_open (sys (toy_env sig)) path oflag k = (Inr (if path = ''in'' then 5 else 6), k)"
  "sys_fstat_mode (sys (toy_env sig)) fd k = (Inr S_IFIFO, k)" "sys_getfl (sys (toy_env sig)) fd k = (Inr O_NONBLOCK, k)"
  by (simp_all add: toy_env_def idle_sys_def)

lemma not_EINTR [simp]: "EAGAIN \<noteq> EINTR" "9 \<noteq> EINTR"
  by (simp_all add: EAGAIN_def EINTR_def)

lemma toy_retry_read: "retry_eintr (toy_read fd n) k = Some (toy_read fd n k)"
proof (cases "toy_read fd n k")
  case (Pair r k')
  then have "r \<noteq> Inl EINTR" by (auto simp: toy_read_def Let_def split: if_splits list.splits)
  with Pair show ?thesis by (cases r) (auto simp: retry_eintr_step)
qed

lemma toy_retry_wait: "retry_eintr (toy_wait sig ep n b) k = Some (toy_wait sig ep n b k)"
proof (cases "toy_wait sig ep n b k")
  case (Pair r k')
  then have "r \<noteq> Inl EINTR" by (auto simp: toy_wait_def split: if_splits)
  with Pair show ?thesis by (cases r) (auto simp: retry_eintr_step)
qed

lemma toy_retry_siginfo: "retry_eintr (toy_siginfo sig fd) k = Some (toy_siginfo sig fd k)"
proof (cases "toy_siginfo sig fd k")
  case (Pair r k')
  then have "r \<noteq> Inl EINTR" by (auto simp: toy_siginfo_def split: if_splits)
  with Pair show ?thesis by (cases r) (auto simp: retry_eintr_step)
qed

lemma toy_kernel: "fifo_kernel (toy_env sig) toy_obs 3 4 5 6"
  unfolding fifo_kernel_def
proof (intro conjI allI)
  fix k :: toy
  show "\<exists>r k'. retry_eintr (sys_read (sys (toy_env sig)) 5 128) k = Some (r, k') \<and> (case r of
        Inl e \<Rightarrow> toy_obs k' = toy_obs k
      | Inr bs \<Rightarrow> length bs < 128 \<and> incoming (toy_obs k') = incoming (toy_obs k) @ bs \<and> outgoing (toy_obs k') = outgoing (toy_obs k)
          \<and> at_eof (toy_obs k') = (at_eof (toy_obs k) \<or> bs = []) \<and> budget (toy_obs k') = budget (toy_obs k))"
    by (auto simp: toy_retry_read toy_read_def toy_obs_def Let_def split: list.splits)
next
  fix k :: toy and bs :: "u8 list"
  show "\<exists>r k'. retry_eintr (sys_write (sys (toy_env sig)) 6 bs) k = Some (r, k') \<and> (case r of
        Inl e \<Rightarrow> toy_obs k' = toy_obs k
      | Inr j \<Rightarrow> j \<le> length bs \<and> outgoing (toy_obs k') = outgoing (toy_obs k) @ take j bs \<and> incoming (toy_obs k') = incoming (toy_obs k)
          \<and> at_eof (toy_obs k') = at_eof (toy_obs k) \<and> budget (toy_obs k') = budget (toy_obs k))"
    by (simp add: toy_obs_def retry_eintr_step)
next
  fix k :: toy
  show "\<exists>r k'. retry_eintr (sys_read_siginfo (sys (toy_env sig)) 4) k = Some (r, k') \<and> toy_obs k' = toy_obs k \<and> (case r of
        Inl e \<Rightarrow> True | Inr (len, signo) \<Rightarrow> len = 128 \<and> (signo = SIGINT \<or> signo = SIGTERM))"
    by (auto simp: toy_retry_siginfo toy_siginfo_def)
next
  fix k :: toy and b
  show "\<exists>r k'. retry_eintr (sys_epoll_wait (sys (toy_env sig)) 3 2048 b) k = Some (r, k') \<and> (case r of
        Inl e \<Rightarrow> toy_obs k' = toy_obs k
      | Inr evs \<Rightarrow> fst ` set evs \<subseteq> {Addr 10, Addr 19, Addr 22} \<and> (\<exists>w \<le> budget (toy_obs k). toy_obs k' = (toy_obs k)\<lparr>budget := w\<rparr>))"
    by (auto simp: toy_retry_wait toy_wait_def toy_obs_def)
qed simp_all

lemma toy_events: "single_events (toy_env False) 3" "finite_events (toy_env False) toy_obs 3"
  by (auto simp: single_events_def finite_events_def toy_retry_wait toy_wait_def toy_obs_def split: if_splits)

lemma toy_boots: "boots (toy_env sig) ''in'' ''out'' 3 4 5 6 toy_start toy_start (toy_start\<lparr>t_left := 4\<rparr>)"
proof -
  have op: "opens_fifo (toy_env sig) 3 ''in'' O_RDONLY 5 (Addr 19) k k" "opens_fifo (toy_env sig) 3 ''out'' O_WRONLY 6 (Addr 22) k k" for k
    unfolding opens_fifo_def
    by (intro exI [of _ k] exI [of _ S_IFIFO] exI [of _ O_NONBLOCK] conjI;
        simp add: retry_eintr_step S_IFIFO_def S_IFMT_def O_NONBLOCK_def)+
  let ?k = "toy_start\<lparr>t_left := 4\<rparr>"
  have "starts (toy_env sig) ''in'' ''out'' 3 4 5 6 toy_start ?k"
    unfolding starts_def
    by (intro exI [of _ "[]"] exI [of _ ?k] exI [of _ EAGAIN] conjI op)
      (simp_all add: toy_retry_siginfo toy_siginfo_def toy_retry_wait toy_wait_def toy_retry_read toy_read_def toy_start_def)
  then show ?thesis by (simp add: boots_def)
qed

lemma toy_begins: "toy_obs (toy_start\<lparr>t_left := 4\<rparr>) = \<lparr>incoming = [], outgoing = [], at_eof = False, budget = 4\<rparr>"
  by (simp add: toy_obs_def toy_start_def)

lemma toy_argv:
  "parse_command_line [''tpf'', ''--in-fifo'', ''in'', ''--out-fifo'', ''out''] = Inr (fifo_options ''in'' ''out'')"
  by code_simp

section \<open>Properties\<close>

lemma deep_enough: "10 \<le> D \<Longrightarrow> \<exists>d. D = deep d"
  by (rule exI [of _ "D - 10"]) simp

text \<open>
  C0. The program as a whole, in fifo mode on any kernel that keeps its contract: \<open>main\<close> never fails an
  assertion and never uses a destroyed object or a wrong address, except for an event of a batch whose
  object an earlier event of the batch destroyed. When it returns, what was written is a prefix of
  what was read, it is all of it if the end of the input was seen, and with status 0 every object is
  gone and every descriptor was deregistered.
\<close>

theorem echo_program_safe:
  assumes "fifo_kernel E obs ep sfd ifd ofd" and "boots E inp outp ep sfd ifd ofd k0 k4 k9"
    and "obs k9 = \<lparr>incoming = [], outgoing = [], at_eof = False, budget = w\<rparr>"
    and "argv \<noteq> []" "parse_command_line argv = Inr (fifo_options inp outp)" and D: "10 \<le> D"
  shows "case main E D n argv (echo_over False (-1) 10 k0) of
     Inl f \<Rightarrow> f = OutOfFuel \<or> f = UseAfterFree ''EpollRegistrant'' \<and> \<not> single_events E ep
   | Inr (status, s') \<Rightarrow> faithful (obs (os s')) \<and> (status = 0 \<and> (\<exists>m k. s' = echo_over False (-1) m k) \<or> status = 1)"
proof -
  obtain d where "D = deep d" using deep_enough [OF D] by blast
  with program_good [OF assms(1-5), of n d] show ?thesis
    unfolding loop_good_def by (auto split: sum.splits)
qed

theorem echo_program_safe_witness:
  "case main (toy_env False) 12 9 [''tpf'', ''--in-fifo'', ''in'', ''--out-fifo'', ''out''] (echo_over False (-1) 10 toy_start) of
     Inl f \<Rightarrow> f = OutOfFuel
   | Inr (status, s') \<Rightarrow> faithful (toy_obs (os s')) \<and> (status = 0 \<and> (\<exists>m k. s' = echo_over False (-1) m k) \<or> status = 1)"
  using echo_program_safe [OF toy_kernel [of False] toy_boots toy_begins _ toy_argv, where D = 12 and n = 9] toy_events(1)
  by (auto split: sum.splits)

text \<open>
  C0. On a kernel that reports one event at a time, and only so many, \<open>main\<close> returns: the fuel it needs
  is two more than the number of batches, and the depth of its callbacks is at most ten.
\<close>

theorem echo_program_returns:
  assumes "fifo_kernel E obs ep sfd ifd ofd" and "boots E inp outp ep sfd ifd ofd k0 k4 k9"
    and "obs k9 = \<lparr>incoming = [], outgoing = [], at_eof = False, budget = w\<rparr>"
    and "argv \<noteq> []" "parse_command_line argv = Inr (fifo_options inp outp)" and D: "10 \<le> D"
    and "single_events E ep" "finite_events E obs ep" and n: "w + 2 \<le> n"
  shows "\<exists>status s'. main E D n argv (echo_over False (-1) 10 k0) = Inr (status, s') \<and> faithful (obs (os s'))
    \<and> (status = 0 \<and> (\<exists>m k. s' = echo_over False (-1) m k) \<or> status = 1)"
proof -
  obtain d where "D = deep d" using deep_enough [OF D] by blast
  with program_good [OF assms(1-5), of n d] assms(7-9) show ?thesis
    unfolding loop_good_def by (auto split: sum.splits)
qed

theorem echo_program_returns_witness:
  "\<exists>status s'. main (toy_env False) 10 6 [''tpf'', ''--in-fifo'', ''in'', ''--out-fifo'', ''out''] (echo_over False (-1) 10 toy_start)
      = Inr (status, s') \<and> faithful (toy_obs (os s'))"
  using echo_program_returns [OF toy_kernel [of False] toy_boots toy_begins _ toy_argv _ toy_events, where D = 10 and n = 6] by auto

lemma loop_one:
  "has_stuff_to_do s = Inr (True, s) \<Longrightarrow> full_step (sys E) (on_update E H n) (run_action E H n) s = Inr (Inr (), t) \<Longrightarrow>
    loop_steps E H n (Suc 0) s t"
  by auto

text \<open>
  C0. Between two steps of the loop nothing is withheld: unless a write is pending at the output pipe,
  every byte that was read was written, and the program waits for more with the read in place.
\<close>

theorem echo_nothing_withheld:
  assumes K: "fifo_kernel E obs ep sfd ifd ofd" and st: "starts E inp outp ep sfd ifd ofd k4 k9"
    and obs: "obs k9 = \<lparr>incoming = [], outgoing = [], at_eof = False, budget = w\<rparr>" and D: "10 \<le> D"
    and run: "loop_steps E (hooks E D) D (Suc j) (at_start inp outp ep sfd k4) s'"
    and P: "pipes s' (Addr 22) = Some P" "write_buf P = None"
  shows "outgoing (obs (os s')) = incoming (obs (os s')) \<and> has_stuff_to_do s' = Inr (True, s')
    \<and> (\<exists>Q. pipes s' (Addr 19) = Some Q \<and> read_nbytes Q = 128 \<and> \<not> read_ready Q)"
proof -
  obtain d where d: "D = deep d" using deep_enough [OF D] by blast
  have ep: "ep \<noteq> -1" "sfd \<noteq> -1" "ifd \<noteq> -1" "ofd \<noteq> -1" using K unfolding fifo_kernel_def by auto
  obtain s1 where s1: "full_step (sys E) (on_update E (hooks E D) D) (run_action E (hooks E D) D) (at_start inp outp ep sfd k4) = Inr (Inr (), s1)"
    "loop_steps E (hooks E D) D j s1 s'"
    using run unfolding loop_steps.simps by blast
  have "s1 = at_wait ep sfd ifd ofd k9"
    using s1(1) unfolding d started_step [OF st ep] by simp
  then have "echo_inv obs w False ep sfd ifd ofd s1"
    by (simp only: echo_inv.live [OF waiting_live [where obs = obs, OF obs]])
  moreover have "handles obs ep sfd ifd ofd (on_update E (hooks E D) D)"
    unfolding d by (rule on_update_handles [OF K])
  ultimately obtain v where "echo_inv obs v False ep sfd ifd ofd s'"
    using loop_steps_inv [OF K _ s1(2)] by blast
  then show ?thesis
  proof cases
    case live
    note b = has_stuff_live [OF live]
    from live show ?thesis
    proof cases
      case reading
      with b show ?thesis by (simp add: echo_reading_def)
    next
      case writing
      with P show ?thesis by (auto simp: echo_writing_def)
    qed
  next
    case over
    with P show ?thesis by (simp add: echo_over_def)
  qed
qed

theorem echo_nothing_withheld_witness:
  "\<exists>s'. loop_steps (toy_env False) (hooks (toy_env False) 10) 10 1 (at_start ''in'' ''out'' 3 4 toy_start) s'
     \<and> outgoing (toy_obs (os s')) = incoming (toy_obs (os s')) \<and> has_stuff_to_do s' = Inr (True, s')"
proof -
  let ?k = "toy_start\<lparr>t_left := 4\<rparr>" and ?d = "10 :: nat"
  have st: "starts (toy_env False) ''in'' ''out'' 3 4 5 6 toy_start ?k" using toy_boots by (simp add: boots_def)
  have d: "deep 0 = ?d" by simp
  have step: "full_step (sys (toy_env False)) (on_update (toy_env False) (hooks (toy_env False) ?d) ?d) (run_action (toy_env False) (hooks (toy_env False) ?d) ?d)
      (at_start ''in'' ''out'' 3 4 toy_start) = Inr (Inr (), at_wait 3 4 5 6 ?k)"
    by (rule started_step [OF st, of 0, unfolded d]) simp_all
  have "loop_steps (toy_env False) (hooks (toy_env False) ?d) ?d (Suc 0) (at_start ''in'' ''out'' 3 4 toy_start) (at_wait 3 4 5 6 ?k)"
    by (rule loop_one [OF has_stuff_started step])
  moreover obtain P where "pipes (at_wait 3 4 5 6 ?k) (Addr 22) = Some P" "write_buf P = None"
    by (simp add: echo_reading_def)
  moreover have "outgoing (toy_obs (os (at_wait 3 4 5 6 ?k))) = incoming (toy_obs (os (at_wait 3 4 5 6 ?k)))
      \<and> has_stuff_to_do (at_wait 3 4 5 6 ?k) = Inr (True, at_wait 3 4 5 6 ?k)"
    using echo_nothing_withheld [OF toy_kernel [of False] st toy_begins order_refl calculation] by blast
  ultimately show ?thesis unfolding One_nat_def by blast
qed

text \<open>
  C0. The fault that is left does occur: if the first batch of events is a signal and then anything
  else, the handler of the signal has destroyed every pipe, and \<open>main\<close> calls \<open>on_update\<close> on a destroyed
  object instead of ending.
\<close>

theorem echo_signal_with_event:
  assumes K: "fifo_kernel E obs ep sfd ifd ofd" and B: "boots E inp outp ep sfd ifd ofd k0 k4 k9"
    and argv: "argv \<noteq> []" "parse_command_line argv = Inr (fifo_options inp outp)" and D: "10 \<le> D"
    and w: "retry_eintr (sys_epoll_wait (sys E) ep 2048 True) k9 = Some (Inr ((Addr 10, ev) # x # evs), k10)" "read_bits ev"
    and sg: "retry_eintr (sys_read_siginfo (sys E) sfd) k10 = Some (Inr (128, signo), k11)" "signo = SIGINT \<or> signo = SIGTERM"
  shows "main E D (Suc (Suc n)) argv (echo_over False (-1) 10 k0) = Inl (UseAfterFree ''EpollRegistrant'')"
proof -
  obtain d where d: "D = deep d" using deep_enough [OF D] by blast
  have fds: "ep \<noteq> -1" "sfd \<noteq> -1" "ifd \<noteq> -1" "ofd \<noteq> -1" using K unfolding fifo_kernel_def by auto
  obtain dl cr cl where c: "shuts E ep [sfd, ifd, ofd] dl cr cl" by (rule kernel_shuts [OF K]) (rule that)
  obtain k1 k2 k3 where
    calls: "sys_sigprocmask (sys E) True sigint_sigterm_sigset k0 = (Inr (), k1)"
      "sys_signalfd (sys E) sigint_sigterm_sigset (or O_NONBLOCK O_CLOEXEC) k1 = (Inr sfd, k2)"
      "sys_epoll_create1 (sys E) k2 = (Inr ep, k3)"
      "sys_epoll_add (sys E) ep sfd (or (or EPOLLIN EPOLLOUT) EPOLLET) (Addr 10) k3 = (Inr (), k4)"
    and st: "starts E inp outp ep sfd ifd ofd k4 k9"
    using B unfolding boots_def by (elim exE conjE) (rule that; assumption)
  define upd :: "addr \<Rightarrow> u32 \<Rightarrow> ('a sock_st, unit) M" where "upd = on_update E (hooks E (deep d)) (deep d)"
  let ?s = "at_wait ep sfd ifd ofd k9"
  let ?t = "echo_reading True ep sfd ifd ofd (Addr 30) (Addr 31) (Addr 32) (Addr 34) 0 (replicate 128 0) k10"
  have s: "?s\<lparr>mid_step := True, os := k10\<rparr> = ?t" "mid_step ?s = False" "enqueued_actions ?s = []" "epoll_fd ?s = ep" "os ?s = k9"
    "regs ?s (Addr 10) \<noteq> None"
    by (simp_all add: echo_reading_def echo_regs_def)
  have ap: "apart [Addr 30, Addr 31, Addr 32, Addr 34] 0" by (auto simp: apart_def)
  obtain m k where over: "upd (Addr 10) ev ?t = Inr ((), echo_over True ep m k)"
    unfolding upd_def on_update_signal [OF reading_pipes(3,4)]
    using reading_signal [OF ap w(2) sg c, of d True "replicate 128 0"] by blast
  have "regs ?t (Addr 10) \<noteq> None" by (simp add: echo_reading_def echo_regs_def)
  then obtain y where y: "regs ?t (Addr 10) = Some y" by blast
  have d1: "deliver upd (Addr 10, ev) ?t = Inr ((), echo_over True ep m k)"
    using over y by (simp add: deliver_def)
  have "mapM (deliver upd) ((Addr 10, ev) # x # evs) ?t = Inl (UseAfterFree ''EpollRegistrant'')"
    using d1 by (simp add: deliver_over)
  then have "full_step (sys E) upd run ?s = Inl (UseAfterFree ''EpollRegistrant'')" for run
    using w fds s by (simp add: step_exec del: exec_del mapM.simps)
  then have f: "full_step (sys E) (on_update E (hooks E (deep d)) (deep d)) (run_action E (hooks E (deep d)) (deep d)) ?s
      = Inl (UseAfterFree ''EpollRegistrant'')"
    unfolding upd_def by blast
  have b: "has_stuff_to_do ?s = Inr (True, ?s)"
    by (simp add: has_stuff_to_do_def exec echo_reading_def echo_registrants_def del: exec_del)
  have l: "main_loop E (hooks E (deep d)) (deep d) (Suc (Suc n)) (at_start inp outp ep sfd k4) = Inl (UseAfterFree ''EpollRegistrant'')"
    unfolding main_loop_step [OF has_stuff_started started_step [OF st fds]] by (rule main_loop_fault [OF b f])
  show ?thesis
    by (simp only: d main_boot [OF argv fds(1) calls] bindM_exec l bindE_exec)
qed

theorem echo_signal_with_event_witness:
  "main (toy_env True) 10 2 [''tpf'', ''--in-fifo'', ''in'', ''--out-fifo'', ''out''] (echo_over False (-1) 10 toy_start)
     = Inl (UseAfterFree ''EpollRegistrant'')"
proof -
  let ?k = "toy_start\<lparr>t_left := 4\<rparr>"
  have n: "Suc (Suc 0) = 2" by simp
  have ev: "read_bits EPOLLIN" by (simp add: has_event_def EPOLLIN_def EPOLLHUP_def EPOLLERR_def)
  have w: "retry_eintr (sys_epoll_wait (sys (toy_env True)) 3 2048 True) ?k
      = Some (Inr [(Addr 10, EPOLLIN), (Addr 19, EPOLLIN)], ?k\<lparr>t_left := 3, t_ready := True\<rparr>)"
    by (simp add: toy_retry_wait toy_wait_def)
  have sg: "retry_eintr (sys_read_siginfo (sys (toy_env True)) 4) (?k\<lparr>t_left := 3, t_ready := True\<rparr>)
      = Some (Inr (128, SIGTERM), ?k\<lparr>t_left := 3, t_ready := True\<rparr>)"
    by (simp add: toy_retry_siginfo toy_siginfo_def)
  show ?thesis
    unfolding n [symmetric]
    by (rule echo_signal_with_event [OF toy_kernel [of True] toy_boots _ toy_argv _ w ev sg]) simp_all
qed

end
