(* ===== verification/Spec2Isabelle.thy ===== *)
theory Spec2Isabelle
  imports Options ListStore Program OpenersProps SignalProps PipeClose ProgramProps EchoProps
begin

text \<open>
  Verification of tpf, a program that echoes bytes between fifos or sockets on an event loop of
  its own.
\<close>

end
